(* ===== verification/Prelude.thy ===== *)
theory Prelude
  imports Main "HOL-Library.Word"
begin

unbundle bit_operations_syntax

text \<open>
  Shared vocabulary of the development: the machine types of the kernel's ILP32 target,
  byte-addressed memory, the result type of code that can panic or fail to return, and the
  facts on words and lists that the component theories use.

  Pointers are 32-bit addresses with \<open>NULL = 0\<close>; objects of static storage that no code
  aliases (a driver's globals, an array of structs reached only by index) are records and
  lists of their own instead of bytes of memory.
\<close>

named_theorems res_simps \<open>unfolding of the result combinators\<close>
named_theorems page_simps \<open>page-size and block-size arithmetic\<close>

section \<open>Machine types\<close>

type_synonym u8 = "8 word"
type_synonym u16 = "16 word"
type_synonym u32 = "32 word"
type_synonym u64 = "64 word"
type_synonym mem = "u32 \<Rightarrow> u8"

abbreviation NULL :: u32 where
  "NULL \<equiv> 0"

section \<open>Results of kernel code\<close>

text \<open>
  \<open>KPanic fmt args\<close> is a call of \<open>KPANIC\<close>: it prints and halts, so nothing after
  it runs. \<open>Undefined w\<close> is a step to which C gives no meaning (a dereference of NULL, an
  index past the end of an array). \<open>None\<close> is a loop that never ends.
\<close>

datatype kerror =
    KPanic string "u32 list"
  | Undefined string

type_synonym 'a res = "(kerror + 'a) option"

abbreviation ret :: "'a \<Rightarrow> 'a res" where
  "ret x \<equiv> Some (Inr x)"

abbreviation panic :: "string \<Rightarrow> u32 list \<Rightarrow> 'a res" where
  "panic fmt args \<equiv> Some (Inl (KPanic fmt args))"

abbreviation undef :: "string \<Rightarrow> 'a res" where
  "undef w \<equiv> Some (Inl (Undefined w))"

definition bindR :: "'a res \<Rightarrow> ('a \<Rightarrow> 'b res) \<Rightarrow> 'b res" where
  "bindR m f = Option.bind m (\<lambda>r. case r of Inl e \<Rightarrow> Some (Inl e) | Inr x \<Rightarrow> f x)"

lemma bindR_simps [simp, res_simps]:
  "bindR None f = None"
  "bindR (Some (Inl e)) f = Some (Inl e)"
  "bindR (ret x) f = f x"
  by (simp_all add: bindR_def)

lemma bindR_eq_ret_iff:
  "bindR m f = ret y \<longleftrightarrow> (\<exists>x. m = ret x \<and> f x = ret y)"
  by (cases m; cases "the m") (auto simp: bindR_def)

lemma bindR_eq_Inl_iff:
  "bindR m f = Some (Inl e) \<longleftrightarrow> m = Some (Inl e) \<or> (\<exists>x. m = ret x \<and> f x = Some (Inl e))"
  by (cases m; cases "the m") (auto simp: bindR_def)

lemma bindR_assoc: "bindR (bindR m f) g = bindR m (\<lambda>x. bindR (f x) g)"
  by (cases m; cases "the m") (auto simp: bindR_def)

lemma bindR_cong [fundef_cong]:
  assumes "m = m'" and "\<And>x. m' = ret x \<Longrightarrow> f x = f' x"
  shows "bindR m f = bindR m' f'"
  using assms by (cases m'; cases "the m'") (auto simp: bindR_def)

text \<open>The combinator may occur in the body of a \<open>partial_function\<close>.\<close>

lemma bindR_mono [partial_function_mono]:
  assumes "mono_option B" and "\<And>y. mono_option (C y)"
  shows "mono_option (\<lambda>f. bindR (B f) (\<lambda>y. C y f))"
  unfolding bindR_def
proof (rule bind_mono [OF assms(1)])
  fix r
  show "mono_option (\<lambda>f. case r of Inl e \<Rightarrow> Some (Inl e) | Inr x \<Rightarrow> C x f)"
    using assms(2) by (cases r) (auto intro: option.const_mono)
qed

section \<open>Words\<close>

lemma unat_u32_lt: "unat (a :: u32) < 4294967296"
  using unsigned_less [of a] by simp

lemma unat_u16_lt: "unat (a :: u16) < 65536"
  using unsigned_less [of a] by simp

lemma unat_u8_lt: "unat (a :: u8) < 256"
  using unsigned_less [of a] by simp

lemma unat_ucast_up:
  "unat (ucast (a :: u16) :: u32) = unat a"
  "unat (ucast (b :: u8) :: u32) = unat b"
  "unat (ucast (b :: u8) :: u16) = unat b"
  using unat_u16_lt [of a] unat_u8_lt [of b] by (simp_all add: unsigned_ucast_eq take_bit_eq_mod)

lemma unat_ucast_down:
  "unat (c :: u32) < 65536 \<Longrightarrow> unat (ucast c :: u16) = unat c"
  "unat c < 256 \<Longrightarrow> unat (ucast c :: u8) = unat c"
  by (simp_all add: unsigned_ucast_eq take_bit_eq_mod)

lemma unat_add_nowrap:
  "unat a + unat b < 4294967296 \<Longrightarrow> unat (a + b :: u32) = unat a + unat b"
  by (simp add: unat_word_ariths)

lemma unat_add_wrap:
  "4294967296 \<le> unat a + unat b \<Longrightarrow> unat (a + b :: u32) = unat a + unat b - 4294967296"
  by (simp add: unat_plus_if')

lemma unat_mult_nowrap:
  "unat a * unat b < 4294967296 \<Longrightarrow> unat (a * b :: u32) = unat a * unat b"
  by (simp add: unat_word_ariths)

lemma unat_sub_nowrap: "unat b \<le> unat a \<Longrightarrow> unat (a - b :: 'a :: len word) = unat a - unat b"
  by (simp add: unat_sub word_le_nat_alt)

lemma unat_of_nat_u32: "n < 4294967296 \<Longrightarrow> unat (of_nat n :: u32) = n"
  by (simp add: unat_of_nat take_bit_eq_mod)

lemma unat_pow2_u32: "k < 32 \<Longrightarrow> unat (2 ^ k :: u32) = 2 ^ k"
proof -
  assume "k < 32"
  then have "(2 :: nat) ^ k < 2 ^ 32"
    by (rule power_strict_increasing) simp
  then have "unat (of_nat (2 ^ k) :: u32) = 2 ^ k"
    by (intro unat_of_nat_u32) simp
  then show ?thesis by simp
qed

lemma push_bit_one_eq: "push_bit k (1 :: 'a :: len word) = 2 ^ k"
  by (simp add: push_bit_eq_mult)

lemma unat_push_bit_one: "k < 32 \<Longrightarrow> unat (push_bit k 1 :: u32) = 2 ^ k"
  by (simp add: push_bit_one_eq unat_pow2_u32)

text \<open>Clearing the low bits rounds down; testing them for zero is divisibility.\<close>

lemma unat_and_mask: "unat (a AND mask k :: 'a :: len word) = unat a mod 2 ^ k"
  by (metis take_bit_eq_mask take_bit_eq_mod unsigned_take_bit_eq)

lemma unat_and_not_mask:
  "unat (a AND NOT (mask k) :: 'a :: len word) = unat a div 2 ^ k * 2 ^ k"
proof -
  have "a - (a AND mask k) = a AND NOT (a AND mask k)"
    by (rule disjunctive_diff_eq_and_not) (simp add: bit_eq_iff bit_simps)
  also have "\<dots> = a AND NOT (mask k)"
    by (auto simp: bit_eq_iff bit_simps)
  finally have "unat (a AND NOT (mask k)) = unat (a - (a AND mask k))" by simp
  also have "\<dots> = unat a - unat a mod 2 ^ k"
    using unat_sub [of "a AND mask k" a] by (simp add: unat_and_mask word_le_nat_alt)
  finally show ?thesis
    by (simp add: minus_mod_eq_div_mult)
qed

lemma and_mask_eq_0_iff_dvd: "a AND mask k = 0 \<longleftrightarrow> 2 ^ k dvd unat (a :: 'a :: len word)"
  by (simp add: and_mask_dvd_nat)

text \<open>A word is put together from its four bytes.\<close>

lemma word_bytes:
  "(ucast (ucast v :: u8) :: u32) OR push_bit 8 (ucast (ucast (drop_bit 8 v) :: u8))
     OR push_bit 16 (ucast (ucast (drop_bit 16 v) :: u8))
     OR push_bit 24 (ucast (ucast (drop_bit 24 v) :: u8)) = (v :: u32)" (is "?w = v")
proof (rule bit_word_eqI)
  fix n assume n: "n < LENGTH(32)"
  consider "n < 8" | "8 \<le> n" "n < 16" | "16 \<le> n" "n < 24" | "24 \<le> n" by linarith
  then show "bit ?w n = bit v n"
    using n by cases (auto simp: bit_or_iff bit_push_bit_iff bit_unsigned_iff bit_drop_bit_eq)
qed

text \<open>Little-endian words in memory.\<close>

definition rd32 :: "mem \<Rightarrow> u32 \<Rightarrow> u32" where
  "rd32 m a = ucast (m a) OR push_bit 8 (ucast (m (a + 1))) OR push_bit 16 (ucast (m (a + 2)))
     OR push_bit 24 (ucast (m (a + 3)))"

definition wr32 :: "u32 \<Rightarrow> u32 \<Rightarrow> mem \<Rightarrow> mem" where
  "wr32 a v m = m(a := ucast v, a + 1 := ucast (drop_bit 8 v), a + 2 := ucast (drop_bit 16 v),
     a + 3 := ucast (drop_bit 24 v))"

lemma rd32_wr32_same: "rd32 (wr32 a v m) a = v"
  by (simp add: rd32_def wr32_def word_bytes)

lemma rd32_cong: "(\<And>i. i < 4 \<Longrightarrow> m (a + of_nat i) = m' (a + of_nat i)) \<Longrightarrow> rd32 m a = rd32 m' a"
proof -
  assume h: "\<And>i. i < 4 \<Longrightarrow> m (a + of_nat i) = m' (a + of_nat i)"
  from h [of 0] h [of 1] h [of 2] h [of 3] show ?thesis by (simp add: rd32_def)
qed

lemma rd32_zero: "(\<And>i. i < 4 \<Longrightarrow> m (a + of_nat i) = 0) \<Longrightarrow> rd32 m a = 0"
  using rd32_cong [of m a "\<lambda>_. 0"] by (simp add: rd32_def)

definition rd64 :: "mem \<Rightarrow> u32 \<Rightarrow> u64" where
  "rd64 m a = ucast (rd32 m a) OR push_bit 32 (ucast (rd32 m (a + 4)))"

text \<open>
  Membership of an address in the \<open>n\<close> bytes from \<open>p\<close> on, wrap-around included: the
  distance from \<open>p\<close>, taken modulo \<open>2\<^sup>3\<^sup>2\<close>, is below \<open>n\<close>.
\<close>

definition in_range :: "u32 \<Rightarrow> nat \<Rightarrow> u32 \<Rightarrow> bool" where
  "in_range p n x \<longleftrightarrow> unat (x - p) < n"

definition disjoint_ranges :: "u32 \<Rightarrow> nat \<Rightarrow> u32 \<Rightarrow> nat \<Rightarrow> bool" where
  "disjoint_ranges p n q k \<longleftrightarrow> (\<forall>i<n. \<forall>j<k. p + of_nat i \<noteq> q + of_nat j)"

definition read_bytes :: "mem \<Rightarrow> u32 \<Rightarrow> nat \<Rightarrow> u8 list" where
  "read_bytes m p n = map (\<lambda>i. m (p + of_nat i)) [0..<n]"

lemma length_read_bytes [simp]: "length (read_bytes m p n) = n"
  by (simp add: read_bytes_def)

lemma nth_read_bytes [simp]: "i < n \<Longrightarrow> read_bytes m p n ! i = m (p + of_nat i)"
  by (simp add: read_bytes_def)

lemma in_range_offset: "i < n \<Longrightarrow> n \<le> 4294967296 \<Longrightarrow> in_range p n (p + of_nat i)"
  by (simp add: in_range_def unat_of_nat_u32)

lemma in_rangeE:
  assumes "in_range p n x"
  obtains i where "i < n" and "x = p + of_nat i"
  using assms by (auto simp: in_range_def intro: that [of "unat (x - p)"])

lemma disjoint_ranges_in_range:
  "disjoint_ranges p n q k \<Longrightarrow> in_range p n x \<Longrightarrow> \<not> in_range q k x"
  unfolding disjoint_ranges_def by (metis in_rangeE)

lemma disjoint_ranges_offset:
  assumes "disjoint_ranges p n q k" and "j < k"
  shows "\<not> in_range p n (q + of_nat j)"
  using assms unfolding disjoint_ranges_def by (metis in_rangeE)

lemma disjoint_rangesI:
  assumes "unat p + n \<le> unat q" and "unat q + k \<le> 4294967296"
  shows "disjoint_ranges p n q k"
  unfolding disjoint_ranges_def
proof (intro allI impI)
  fix i j assume ij: "i < n" "j < k"
  have q: "unat q < 4294967296" by (rule unat_u32_lt)
  have "unat (p + of_nat i) = unat p + i"
    using ij q assms by (subst unat_add_nowrap) (simp_all add: unat_of_nat_u32)
  moreover have "unat (q + of_nat j) = unat q + j"
    using ij assms by (subst unat_add_nowrap) (simp_all add: unat_of_nat_u32)
  ultimately have "unat (p + of_nat i) < unat (q + of_nat j)" using ij assms by simp
  then show "p + of_nat i \<noteq> q + of_nat j" by auto
qed

lemma disjoint_ranges_sym: "disjoint_ranges p n q k \<Longrightarrow> disjoint_ranges q k p n"
  unfolding disjoint_ranges_def by metis

lemma read_bytes_cong:
  "(\<And>i. i < n \<Longrightarrow> m (p + of_nat i) = m' (p + of_nat i)) \<Longrightarrow> read_bytes m p n = read_bytes m' p n"
  by (simp add: read_bytes_def)

lemma read_bytes_append:
  "read_bytes m p (a + b) = read_bytes m p a @ read_bytes m (p + of_nat a) b"
  by (rule nth_equalityI) (auto simp: nth_append of_nat_diff)

lemma ex_less_add: "(\<exists>i < a + b. P i) \<longleftrightarrow> (\<exists>i < a. P i) \<or> (\<exists>j < (b :: nat). P (a + j))"
proof
  assume "\<exists>i < a + b. P i"
  then obtain i where i: "i < a + b" "P i" by blast
  show "(\<exists>i < a. P i) \<or> (\<exists>j < b. P (a + j))"
  proof (cases "i < a")
    case False
    then have "i - a < b" "a + (i - a) = i" using i(1) by simp_all
    then show ?thesis using i(2) by metis
  qed (use i in blast)
next
  assume "(\<exists>i < a. P i) \<or> (\<exists>j < b. P (a + j))"
  then show "\<exists>i < a + b. P i" by (meson nat_add_left_cancel_less trans_less_add1)
qed

lemma in_range_iff: "n \<le> 4294967296 \<Longrightarrow> in_range q n x \<longleftrightarrow> (\<exists>i < n. x = q + of_nat i)"
  by (auto intro: in_range_offset elim: in_rangeE)

lemma in_range_append:
  assumes "a + b \<le> 4294967296"
  shows "in_range p (a + b) x \<longleftrightarrow> in_range p a x \<or> in_range (p + of_nat a) b x"
  using assms by (simp add: in_range_iff ex_less_add add.assoc)

section \<open>Lists\<close>

lemma nth_upd: "xs[j := v] ! i = (if i = j \<and> j < length xs then v else xs ! i)"
  by (cases "j < length xs") (auto simp: nth_list_update list_update_beyond)

end
