(* ===== verification/Buddy.thy ===== *)
theory Buddy
  imports Prelude
begin

text \<open>
  The abstract buddy system behind \<^verbatim>\<open>kernel/src/lib/memory/pmm.c\<close>. A region of \<open>n\<close> pages is
  tiled by aligned blocks of \<open>2\<^sup>k\<close> pages; a tiling maps the first page of each block to its
  order and whether it is free. The theory states when such a map is a tiling, what the
  allocator's three moves (take, split, merge) do to it, and that a tiling whose blocks are all
  free and fully coalesced is unique. The pointer-level theories refine it.
\<close>

section \<open>Constants\<close>

definition MAX_ORDER :: nat where
  "MAX_ORDER = 10"

definition NUM_ORDERS :: nat where
  "NUM_ORDERS = MAX_ORDER + 1"

section \<open>Buddies\<close>

definition buddy :: "nat \<Rightarrow> nat \<Rightarrow> nat" where
  "buddy h k = h XOR 2 ^ k"

lemma buddy_eq:
  assumes "2 ^ k dvd h"
  shows "buddy h k = (if even (h div 2 ^ k) then h + 2 ^ k else h - 2 ^ k)"
proof -
  define q where "q = h div 2 ^ k"
  have h: "h = push_bit k q"
    using assms by (simp add: q_def push_bit_eq_mult)
  have "buddy h k = push_bit k q XOR push_bit k 1"
    by (simp add: buddy_def h push_bit_eq_mult)
  also have "\<dots> = push_bit k (q XOR 1)"
    by (simp only: push_bit_xor)
  also have "\<dots> = (if even q then push_bit k (q + 1) else push_bit k (q - 1))"
    by (simp add: xor_Suc_0_eq)
  finally show ?thesis
    by (simp add: h push_bit_eq_mult algebra_simps)
qed

lemma buddy_cases:
  assumes "2 ^ k dvd h"
  obtains l where "2 ^ Suc k dvd l" and "h = l" and "buddy h k = l + 2 ^ k"
    | l where "2 ^ Suc k dvd l" and "h = l + 2 ^ k" and "buddy h k = l"
proof -
  from assms obtain q where h: "h = 2 ^ k * q" ..
  show thesis
  proof (cases "even q")
    case True
    then have "2 ^ Suc k dvd h" and "buddy h k = h + 2 ^ k"
      using assms by (auto simp: h buddy_eq)
    then show thesis by (intro that(1)) auto
  next
    case False
    then obtain r where "q = 2 * r + 1" by (auto elim: oddE)
    then have "h = 2 ^ Suc k * r + 2 ^ k" and "buddy h k = 2 ^ Suc k * r"
      using assms False by (auto simp: h buddy_eq algebra_simps)
    then show thesis by (intro that(2)) auto
  qed
qed

lemma buddy_dvd: "2 ^ k dvd h \<Longrightarrow> 2 ^ k dvd buddy h k"
  by (rule buddy_cases [of k h]) (auto simp: power_Suc elim!: dvdE)

lemma buddy_invol: "buddy (buddy h k) k = h"
  by (simp add: buddy_def xor.assoc)

lemma buddy_neq: "buddy h k \<noteq> h"
  by (simp add: buddy_def bit_eq_iff) (auto simp: bit_simps)

text \<open>Aligned blocks nest or are disjoint.\<close>

lemma aligned_inside:
  assumes "2 ^ a dvd (h :: nat)" and "2 ^ b dvd g" and "a \<le> b" and "h < g + 2 ^ b"
  shows "h + 2 ^ a \<le> g + 2 ^ b"
proof -
  have "2 ^ a dvd g + 2 ^ b"
    using assms(2,3) by (meson dvd_add dvd_trans le_imp_power_dvd)
  with assms(1) obtain x y where "h = 2 ^ a * x" and "g + 2 ^ b = 2 ^ a * y"
    by (auto elim!: dvdE)
  with assms(4) have "Suc x \<le> y" by simp
  then have "2 ^ a * Suc x \<le> 2 ^ a * y" by (rule mult_le_mono2)
  then show ?thesis using \<open>h = _\<close> \<open>g + 2 ^ b = _\<close> by simp
qed

lemma aligned_start:
  assumes "2 ^ a dvd (h :: nat)" and "2 ^ a dvd g" and "g \<le> h" and "h < g + 2 ^ a"
  shows "g = h"
proof -
  from assms(1,2) obtain x y where "h = 2 ^ a * x" and "g = 2 ^ a * y"
    by (auto elim!: dvdE)
  with assms(3,4) have "y \<le> x" and "2 ^ a * x < 2 ^ a * (y + 1)"
    by auto
  then have "x = y"
    by (metis add.commute le_antisym less_Suc_eq_le nat_mult_less_cancel1 plus_1_eq_Suc
        zero_less_numeral zero_less_power)
  then show ?thesis using \<open>h = _\<close> \<open>g = _\<close> by simp
qed

section \<open>Tilings\<close>

type_synonym tiling = "nat \<rightharpoonup> nat \<times> bool"

definition covers :: "tiling \<Rightarrow> nat \<Rightarrow> nat \<Rightarrow> bool" where
  "covers B h p \<longleftrightarrow> (\<exists>k f. B h = Some (k, f) \<and> h \<le> p \<and> p < h + 2 ^ k)"

definition is_tiling :: "nat \<Rightarrow> tiling \<Rightarrow> bool" where
  "is_tiling n B \<longleftrightarrow>
     (\<forall>h k f. B h = Some (k, f) \<longrightarrow> k \<le> MAX_ORDER \<and> 2 ^ k dvd h \<and> h + 2 ^ k \<le> n) \<and>
     (\<forall>p<n. \<exists>h. covers B h p) \<and>
     (\<forall>h h' p. covers B h p \<longrightarrow> covers B h' p \<longrightarrow> h = h')"

text \<open>No two buddies of the same order below the maximum are free together.\<close>

definition coalesced :: "tiling \<Rightarrow> bool" where
  "coalesced B \<longleftrightarrow>
     (\<forall>h k. B h = Some (k, True) \<longrightarrow> k < MAX_ORDER \<longrightarrow> B (buddy h k) \<noteq> Some (k, True))"

lemma coversI: "B h = Some (k, f) \<Longrightarrow> h \<le> p \<Longrightarrow> p < h + 2 ^ k \<Longrightarrow> covers B h p"
  by (auto simp: covers_def)

lemma tiling_block:
  assumes "is_tiling n B" and "B h = Some (k, f)"
  shows "k \<le> MAX_ORDER" and "2 ^ k dvd h" and "h + 2 ^ k \<le> n" and "h < n"
proof -
  show "k \<le> MAX_ORDER" "2 ^ k dvd h" and le: "h + 2 ^ k \<le> n"
    using assms by (auto simp: is_tiling_def)
  have "(0 :: nat) < 2 ^ k" by simp
  with le show "h < n" by linarith
qed

lemma tiling_cover:
  assumes "is_tiling n B" and "p < n"
  obtains h k f where "B h = Some (k, f)" and "h \<le> p" and "p < h + 2 ^ k"
  using assms by (auto simp: is_tiling_def covers_def)

lemma tiling_unique:
  assumes "is_tiling n B" and "covers B h p" and "covers B h' p"
  shows "h = h'"
  using assms unfolding is_tiling_def by blast

lemma tiling_unique':
  assumes "is_tiling n B" and "B h = Some (k, f)" and "h \<le> p" and "p < h + 2 ^ k"
    and "B h' = Some (k', f')" and "h' \<le> p" and "p < h' + 2 ^ k'"
  shows "h = h'"
  using tiling_unique [OF assms(1), of h p h'] assms(2-7) by (auto intro: coversI)

lemma tiling_inner_None:
  assumes t: "is_tiling n B" and h: "B h = Some (k, f)" and g: "h < g" "g < h + 2 ^ k"
  shows "B g = None"
proof (rule ccontr)
  assume "B g \<noteq> None"
  then obtain k' f' where "B g = Some (k', f')" by auto
  from tiling_unique' [OF t h _ _ this, of g] g show False by simp
qed

text \<open>Changing only the flags of a tiling leaves a tiling.\<close>

lemma tiling_retag:
  assumes "is_tiling n B" and "B h = Some (k, f)"
  shows "is_tiling n (B(h \<mapsto> (k, f')))"
proof -
  have "covers (B(h \<mapsto> (k, f'))) = covers B"
    using assms(2) by (auto simp: covers_def fun_eq_iff)
  then show ?thesis
    using assms by (auto simp: is_tiling_def)
qed

lemma tiling_split:
  assumes t: "is_tiling n B" and h: "B h = Some (Suc k, f)"
  shows "is_tiling n (B(h \<mapsto> (k, f1), h + 2 ^ k \<mapsto> (k, f2)))" (is "is_tiling n ?B")
proof -
  let ?u = "h + 2 ^ k"
  note hb = tiling_block [OF t h]
  have "?u \<noteq> h" by simp
  have u_new: "B ?u = None"
    by (rule tiling_inner_None [OF t h]) simp_all
  have cov: "covers ?B g p \<longleftrightarrow>
      (if g = h then h \<le> p \<and> p < h + 2 ^ k
       else if g = ?u then ?u \<le> p \<and> p < ?u + 2 ^ k
       else covers B g p)" for g p
    by (cases "g = h"; cases "g = ?u") (simp_all add: covers_def)
  have old: "covers B h p \<longleftrightarrow> h \<le> p \<and> p < h + 2 ^ Suc k" for p
    using h by (auto simp: covers_def)
  have not_u: "\<not> covers B ?u p" for p
    using u_new by (simp add: covers_def)
  show ?thesis unfolding is_tiling_def
  proof (intro conjI allI impI)
    fix g j fl assume g: "?B g = Some (j, fl)"
    have "2 ^ k dvd h" using hb(2) by (rule power_le_dvd) simp
    moreover have "k \<le> MAX_ORDER" and "h + 2 ^ k + 2 ^ k \<le> n"
      using hb(1,3) by simp_all
    moreover have "g = h \<and> j = k \<or> g = ?u \<and> j = k \<or> B g = Some (j, fl)"
      using g by (auto split: if_splits)
    ultimately show "j \<le> MAX_ORDER" and "2 ^ j dvd g" and "g + 2 ^ j \<le> n"
      using tiling_block(1-3) [OF t, of g j fl] by auto
  next
    fix p assume "p < n"
    then obtain g where "covers B g p"
      using t by (auto simp: is_tiling_def)
    show "\<exists>g. covers ?B g p"
    proof (cases "covers B h p")
      case True
      then have "covers ?B h p \<or> covers ?B ?u p"
        using cov [of h p] cov [of ?u p] old [of p] \<open>?u \<noteq> h\<close> by (auto split: if_splits)
      then show ?thesis by blast
    next
      case False
      with \<open>covers B g p\<close> not_u [of p] have "g \<noteq> h" and "g \<noteq> ?u" by auto
      with \<open>covers B g p\<close> cov [of g p] have "covers ?B g p" by simp
      then show ?thesis by blast
    qed
  next
    fix g g' p assume g: "covers ?B g p" "covers ?B g' p"
    have inside: "x = (if p < ?u then h else ?u)" if "covers B h p" and "covers ?B x p" for x
    proof (cases "x = h \<or> x = ?u")
      case True
      then show ?thesis using that(2) cov [of x p] \<open>?u \<noteq> h\<close> by (auto split: if_splits)
    next
      case False
      with that(2) cov [of x p] have "covers B x p" by simp
      with False tiling_unique [OF t that(1)] show ?thesis by blast
    qed
    have outside: "covers B x p" if "\<not> covers B h p" and "covers ?B x p" for x
      using that cov [of x p] old [of p] by (auto split: if_splits)
    show "g = g'"
      using inside outside g tiling_unique [OF t, of g p g'] by (cases "covers B h p") auto
  qed
qed

lemma tiling_merge:
  assumes t: "is_tiling n B" and l: "B l = Some (k, f1)" and u: "B (l + 2 ^ k) = Some (k, f2)"
    and al: "2 ^ Suc k dvd l" and k: "k < MAX_ORDER"
  shows "is_tiling n (B(l + 2 ^ k := None, l \<mapsto> (Suc k, f)))" (is "is_tiling n ?B")
proof -
  let ?u = "l + 2 ^ k"
  have "?u \<noteq> l" by simp
  have cov: "covers ?B g p \<longleftrightarrow>
      (if g = l then covers B l p \<or> covers B ?u p else g \<noteq> ?u \<and> covers B g p)" for g p
    using l u by (auto simp: covers_def)
  show ?thesis unfolding is_tiling_def
  proof (intro conjI allI impI)
    fix g j fl assume g: "?B g = Some (j, fl)"
    then show "j \<le> MAX_ORDER" and "2 ^ j dvd g" and "g + 2 ^ j \<le> n"
      using al k tiling_block [OF t, of g] tiling_block [OF t u] by (auto split: if_splits)
  next
    fix p assume "p < n"
    then obtain g where "covers B g p"
      using t by (auto simp: is_tiling_def)
    then have "covers ?B g p \<or> covers ?B l p"
      using cov [of g p] cov [of l p] by (auto split: if_splits)
    then show "\<exists>g. covers ?B g p" by blast
  next
    fix g g' p assume g: "covers ?B g p" "covers ?B g' p"
    have inside: "x = l" if "covers B l p \<or> covers B ?u p" and "covers ?B x p" for x
      using that cov [of x p] tiling_unique [OF t, of x p l] tiling_unique [OF t, of x p ?u]
      by (auto split: if_splits)
    have outside: "covers B x p" if "\<not> (covers B l p \<or> covers B ?u p)" and "covers ?B x p" for x
      using that cov [of x p] by (auto split: if_splits)
    show "g = g'"
      using inside [of g] inside [of g'] outside [of g] outside [of g'] g
        tiling_unique [OF t, of g p g'] by blast
  qed
qed

text \<open>
  The page at which the buddy of a block begins is itself the first page of a block, and that
  block is no larger: this is what lets \<open>pmm_free\<close> trust the fields it reads there.
\<close>

lemma buddy_is_head:
  assumes t: "is_tiling n B" and h: "B h = Some (k, f)" and b: "buddy h k < n"
  obtains k' f' where "B (buddy h k) = Some (k', f')" and "k' \<le> k"
proof -
  let ?b = "buddy h k"
  from tiling_cover [OF t b] obtain g k' f' where g: "B g = Some (k', f')" "g \<le> ?b" "?b < g + 2 ^ k'"
    by blast
  note hb = tiling_block [OF t h] and gb = tiling_block [OF t g(1)]
  have "k' \<le> k"
  proof (rule ccontr)
    assume "\<not> k' \<le> k"
    then have "Suc k \<le> k'" by simp
    from hb(2) obtain l where l: "2 ^ Suc k dvd l" "l \<le> h" "h < l + 2 ^ Suc k"
      "l \<le> ?b" "?b < l + 2 ^ Suc k"
      by (rule buddy_cases) auto
    have "2 ^ Suc k dvd g"
      using gb(2) \<open>Suc k \<le> k'\<close> by (meson dvd_trans le_imp_power_dvd)
    moreover have "l < g + 2 ^ k'" using l(4) g(3) by simp
    ultimately have "l + 2 ^ Suc k \<le> g + 2 ^ k'"
      using aligned_inside [OF l(1) gb(2) \<open>Suc k \<le> k'\<close>] by simp
    moreover have "g \<le> l"
    proof (rule ccontr)
      assume "\<not> g \<le> l"
      then have "l = g"
        using aligned_start [OF \<open>2 ^ Suc k dvd g\<close> l(1)] g(2) l(5) by simp
      with \<open>\<not> g \<le> l\<close> show False by simp
    qed
    ultimately have "g = h"
      using l g(1) h by (intro tiling_unique' [OF t g(1) _ _ h, of h]) auto
    with h g(1) \<open>\<not> k' \<le> k\<close> show False by simp
  qed
  moreover have "g = ?b"
  proof (rule aligned_start [OF _ gb(2) g(2,3)])
    show "2 ^ k' dvd ?b"
      using buddy_dvd [OF hb(2)] \<open>k' \<le> k\<close> by (meson dvd_trans le_imp_power_dvd)
  qed
  ultimately show thesis using g(1) that by blast
qed

section \<open>Allocating from a tiling\<close>

text \<open>
  \<open>tsplit k j h B\<close> halves the block at \<open>h\<close> from order \<open>j\<close> down to order \<open>k\<close>,
  leaving a free upper half at every level.
\<close>

fun tsplit :: "nat \<Rightarrow> nat \<Rightarrow> nat \<Rightarrow> tiling \<Rightarrow> tiling" where
  "tsplit k j h B =
     (if k < j
      then tsplit k (j - 1) h (B(h \<mapsto> (j - 1, False), h + 2 ^ (j - 1) \<mapsto> (j - 1, True)))
      else B)"

declare tsplit.simps [simp del]

definition talloc :: "nat \<Rightarrow> nat \<Rightarrow> nat \<Rightarrow> tiling \<Rightarrow> tiling" where
  "talloc k j h B = tsplit k j h (B(h \<mapsto> (j, False)))"

definition allocated :: "tiling \<Rightarrow> (nat \<times> nat) set" where
  "allocated B = {(h, k). B h = Some (k, False)}"

lemma coalesced_split:
  assumes t: "is_tiling n B" and h: "B h = Some (Suc k, False)" and c: "coalesced B"
  shows "coalesced (B(h \<mapsto> (k, False), h + 2 ^ k \<mapsto> (k, True)))" (is "coalesced ?B")
proof -
  let ?u = "h + 2 ^ k"
  have dvd: "2 ^ Suc k dvd h" using tiling_block [OF t h] by simp
  then have "even (h div 2 ^ k)"
    by (auto elim!: dvdE)
  moreover have "2 ^ k dvd h" using dvd by (rule power_le_dvd) simp
  ultimately have hu: "buddy h k = ?u"
    by (simp add: buddy_eq)
  then have uh: "buddy ?u k = h"
    by (metis buddy_invol)
  show ?thesis unfolding coalesced_def
  proof (intro allI impI notI)
    fix g i assume g: "?B g = Some (i, True)" and i: "i < MAX_ORDER"
      and b: "?B (buddy g i) = Some (i, True)"
    show False
    proof (cases "g = ?u")
      case True
      with g uh b show False by (auto split: if_splits)
    next
      case False
      with g have "B g = Some (i, True)" by (auto split: if_splits)
      with c i have "B (buddy g i) \<noteq> Some (i, True)" by (simp add: coalesced_def)
      with b have "buddy g i = ?u" and "i = k" by (auto split: if_splits)
      then have "g = h" by (metis buddy_invol uh)
      with h \<open>B g = Some (i, True)\<close> show False by simp
    qed
  qed
qed

lemma tsplit_correct:
  assumes "is_tiling n B" and "coalesced B" and "B h = Some (j, False)" and "k \<le> j"
  shows "is_tiling n (tsplit k j h B)" and "coalesced (tsplit k j h B)"
    and "tsplit k j h B h = Some (k, False)"
    and "allocated (tsplit k j h B) = insert (h, k) (allocated B - {(h, j)})"
proof -
  have "is_tiling n (tsplit k j h B) \<and> coalesced (tsplit k j h B) \<and>
      tsplit k j h B h = Some (k, False) \<and>
      allocated (tsplit k j h B) = insert (h, k) (allocated B - {(h, j)})"
    using assms
  proof (induction k j h B rule: tsplit.induct)
    case (1 k j h B)
    show ?case
    proof (cases "k < j")
      case False
      with 1 show ?thesis by (subst (1 2 3 4) tsplit.simps) (auto simp: allocated_def)
    next
      case True
      then obtain i where j: "j = Suc i" by (cases j) auto
      let ?B = "B(h \<mapsto> (i, False), h + 2 ^ i \<mapsto> (i, True))"
      have hi: "B h = Some (Suc i, False)" using 1 j by simp
      have new: "B (h + 2 ^ i) = None"
        by (rule tiling_inner_None [OF 1(2) hi]) simp_all
      have t': "is_tiling n ?B" using 1(2) hi by (rule tiling_split)
      have c': "coalesced ?B" using 1(2) hi 1(3) by (rule coalesced_split)
      have h': "?B h = Some (i, False)" by simp
      have "k < Suc i" and "k \<le> i" using True j by simp_all
      then have IH: "is_tiling n (tsplit k i h ?B) \<and> coalesced (tsplit k i h ?B) \<and>
          tsplit k i h ?B h = Some (k, False) \<and>
          allocated (tsplit k i h ?B) = insert (h, k) (allocated ?B - {(h, i)})"
        by (rule 1(1) [unfolded j diff_Suc_1, OF _ t' c' h'])
      moreover have "allocated ?B - {(h, i)} = allocated B - {(h, j)}"
        using hi j new by (auto simp: allocated_def split: if_splits)
      ultimately show ?thesis
        using True j by (subst (1 2 3 4) tsplit.simps) simp
    qed
  qed
  then show "is_tiling n (tsplit k j h B)" and "coalesced (tsplit k j h B)"
    and "tsplit k j h B h = Some (k, False)"
    and "allocated (tsplit k j h B) = insert (h, k) (allocated B - {(h, j)})" by blast+
qed

lemma talloc_correct:
  assumes "is_tiling n B" and "coalesced B" and "B h = Some (j, True)" and "k \<le> j"
  shows "is_tiling n (talloc k j h B)" and "coalesced (talloc k j h B)"
    and "talloc k j h B h = Some (k, False)"
    and "allocated (talloc k j h B) = insert (h, k) (allocated B)"
proof -
  let ?B = "B(h \<mapsto> (j, False))"
  have t: "is_tiling n ?B" using assms(1,3) by (rule tiling_retag)
  have c: "coalesced ?B" using assms(2) by (auto simp: coalesced_def)
  have h: "?B h = Some (j, False)" by simp
  have a: "allocated ?B - {(h, j)} = allocated B"
    using assms(3) by (auto simp: allocated_def split: if_splits)
  note res = tsplit_correct [OF t c h assms(4)]
  show "is_tiling n (talloc k j h B)" and "coalesced (talloc k j h B)"
    and "talloc k j h B h = Some (k, False)"
    and "allocated (talloc k j h B) = insert (h, k) (allocated B)"
    unfolding talloc_def by (fact res(1), fact res(2), fact res(3), use res(4) a in \<open>simp only:\<close>)
qed

section \<open>Freeing into a tiling\<close>

text \<open>
  \<open>tfree j h B\<close> frees the block of order \<open>j\<close> at \<open>h\<close>, merging with its buddy as
  long as the buddy is free and of the same order.
\<close>

function tfree :: "nat \<Rightarrow> nat \<Rightarrow> tiling \<Rightarrow> tiling" where
  "tfree j h B =
     (if j < MAX_ORDER \<and> B (buddy h j) = Some (j, True)
      then tfree (Suc j) (min h (buddy h j))
             (B(max h (buddy h j) := None, min h (buddy h j) \<mapsto> (Suc j, False)))
      else B(h \<mapsto> (j, True)))"
  by pat_completeness auto
termination
  by (relation "measure (\<lambda>(j, h, B). MAX_ORDER - j)") auto

declare tfree.simps [simp del]

lemma tfree_merge:
  "j < MAX_ORDER \<Longrightarrow> B (buddy h j) = Some (j, True) \<Longrightarrow>
   tfree j h B = tfree (Suc j) (min h (buddy h j))
     (B(max h (buddy h j) := None, min h (buddy h j) \<mapsto> (Suc j, False)))"
  by (subst tfree.simps) simp

lemma tfree_stop:
  "\<not> (j < MAX_ORDER \<and> B (buddy h j) = Some (j, True)) \<Longrightarrow> tfree j h B = B(h \<mapsto> (j, True))"
  by (subst tfree.simps) (simp only: if_False)

lemma tiling_merge_buddy:
  assumes t: "is_tiling n B" and h: "B h = Some (k, f1)" and b: "B (buddy h k) = Some (k, f2)"
    and k: "k < MAX_ORDER"
  shows "is_tiling n (B(max h (buddy h k) := None, min h (buddy h k) \<mapsto> (Suc k, f)))"
proof -
  have "2 ^ k dvd h" using tiling_block [OF t h] by simp
  then show ?thesis
  proof (rule buddy_cases)
    fix l assume "2 ^ Suc k dvd l" and "h = l" and "buddy h k = l + 2 ^ k"
    then show ?thesis using tiling_merge [OF t, of l k f1 f2 f] h b k by simp
  next
    fix l assume l: "2 ^ Suc k dvd l" "h = l + 2 ^ k" "buddy h k = l"
    then show ?thesis using tiling_merge [OF t, of l k f2 f1 f] h b k by simp
  qed
qed

lemma coalesced_drop:
  assumes "coalesced B" and "\<And>g k. B' g = Some (k, True) \<Longrightarrow> B g = Some (k, True)"
  shows "coalesced B'"
  using assms unfolding coalesced_def by blast

lemma coalesced_release:
  assumes c: "coalesced B" and h: "B h = Some (j, False)"
    and b: "j < MAX_ORDER \<Longrightarrow> B (buddy h j) \<noteq> Some (j, True)"
  shows "coalesced (B(h \<mapsto> (j, True)))"
  unfolding coalesced_def
proof (intro allI impI notI)
  fix g k assume g: "(B(h \<mapsto> (j, True))) g = Some (k, True)" and k: "k < MAX_ORDER"
    and gb: "(B(h \<mapsto> (j, True))) (buddy g k) = Some (k, True)"
  show False
  proof (cases "g = h")
    case True
    with g gb k b show False by (auto simp: buddy_neq split: if_splits)
  next
    case False
    with g have "B g = Some (k, True)" by simp
    with c k gb have "buddy g k = h" and "k = j"
      by (auto simp: coalesced_def split: if_splits)
    with b k \<open>B g = _\<close> show False by (metis buddy_invol)
  qed
qed

lemma tfree_correct:
  assumes "is_tiling n B" and "coalesced B" and "B h = Some (j, False)"
  shows "is_tiling n (tfree j h B)" and "coalesced (tfree j h B)"
    and "allocated (tfree j h B) = allocated B - {(h, j)}"
proof -
  have "is_tiling n (tfree j h B) \<and> coalesced (tfree j h B) \<and>
      allocated (tfree j h B) = allocated B - {(h, j)}"
    using assms
  proof (induction j h B rule: tfree.induct)
    case (1 j h B)
    let ?b = "buddy h j"
    show ?case
    proof (cases "j < MAX_ORDER \<and> B ?b = Some (j, True)")
      case False
      have "is_tiling n (B(h \<mapsto> (j, True)))" using 1(2,4) by (rule tiling_retag)
      moreover have "coalesced (B(h \<mapsto> (j, True)))"
        using 1(3,4) False by (intro coalesced_release) auto
      moreover have "allocated (B(h \<mapsto> (j, True))) = allocated B - {(h, j)}"
        using 1(4) by (auto simp: allocated_def split: if_splits)
      moreover have "tfree j h B = B(h \<mapsto> (j, True))"
        using False by (rule tfree_stop)
      ultimately show ?thesis by (simp only:)
    next
      case True
      let ?l = "min h ?b" and ?u = "max h ?b"
      let ?B = "B(?u := None, ?l \<mapsto> (Suc j, False))"
      have lu: "?l = h \<and> ?u = ?b \<or> ?l = ?b \<and> ?u = h" by (simp add: min_def max_def)
      have t': "is_tiling n ?B"
        using 1(2,4) True by (intro tiling_merge_buddy) auto
      have c': "coalesced ?B"
        by (rule coalesced_drop [OF 1(3)]) (auto split: if_splits)
      have h': "?B ?l = Some (Suc j, False)" by simp
      have IH: "is_tiling n (tfree (Suc j) ?l ?B) \<and> coalesced (tfree (Suc j) ?l ?B) \<and>
          allocated (tfree (Suc j) ?l ?B) = allocated ?B - {(?l, Suc j)}"
        using True t' c' h' by (rule 1(1))
      have "allocated ?B - {(?l, Suc j)} = allocated B - {(h, j)}"
        using 1(4) True lu buddy_neq [of h j]
        by (auto simp: allocated_def split: if_splits)
      with IH show ?thesis using tfree_merge [of j B h] True by simp
    qed
  qed
  then show "is_tiling n (tfree j h B)" and "coalesced (tfree j h B)"
    and "allocated (tfree j h B) = allocated B - {(h, j)}" by blast+
qed

section \<open>A fully free region has one coalesced tiling\<close>

definition maximal :: "nat \<Rightarrow> tiling \<Rightarrow> bool" where
  "maximal n B \<longleftrightarrow>
     (\<forall>h k f. B h = Some (k, f) \<longrightarrow>
        f \<and> (k = MAX_ORDER \<or> \<not> 2 ^ Suc k dvd h \<or> n < h + 2 ^ Suc k))"

lemma free_block_grows:
  assumes t: "is_tiling n B" and c: "coalesced B" and a: "allocated B = {}"
  shows "B h = Some (i, f) \<Longrightarrow> 2 ^ k dvd h \<Longrightarrow> h + 2 ^ k \<le> n \<Longrightarrow> k \<le> MAX_ORDER \<Longrightarrow> k \<le> i"
proof (induction k arbitrary: h i f)
  case 0
  then show ?case by simp
next
  case (Suc k)
  have free: "fl" if "B g = Some (m, fl)" for g m fl
    using a that by (cases fl) (auto simp: allocated_def)
  have dk: "2 ^ k dvd h" using Suc.prems(2) by (rule power_le_dvd) simp
  have "(0 :: nat) < 2 ^ k" by simp
  have ki: "k \<le> i"
    using Suc.IH [OF Suc.prems(1) dk] Suc.prems(3,4) by simp
  show ?case
  proof (rule ccontr)
    assume "\<not> Suc k \<le> i"
    with ki have i: "i = k" by simp
    have "even (h div 2 ^ k)" using Suc.prems(2) by (auto elim!: dvdE)
    then have bud: "buddy h k = h + 2 ^ k" using dk by (simp add: buddy_eq)
    moreover have "h + 2 ^ k < n" using Suc.prems(3) \<open>(0 :: nat) < 2 ^ k\<close>
      unfolding power_Suc by linarith
    ultimately obtain i' f' where b: "B (h + 2 ^ k) = Some (i', f')" and "i' \<le> k"
      using buddy_is_head [OF t Suc.prems(1)] i by metis
    have "2 ^ k dvd h + 2 ^ k" using dk by simp
    with Suc.IH [OF b] Suc.prems(3,4) have "k \<le> i'" by simp
    with \<open>i' \<le> k\<close> b free have "B (buddy h k) = Some (k, True)" by (simp add: bud)
    moreover have "B h = Some (k, True)" using Suc.prems(1) i free by simp
    ultimately show False using c Suc.prems(4) by (auto simp: coalesced_def)
  qed
qed

lemma all_free_maximal:
  assumes "is_tiling n B" and "coalesced B" and "allocated B = {}"
  shows "maximal n B"
  unfolding maximal_def
proof (intro allI impI conjI)
  fix h k f assume h: "B h = Some (k, f)"
  show f using assms(3) h by (cases f) (auto simp: allocated_def)
  show "k = MAX_ORDER \<or> \<not> 2 ^ Suc k dvd h \<or> n < h + 2 ^ Suc k"
    using free_block_grows [OF assms h, of "Suc k"] tiling_block(1) [OF assms(1) h]
    by (metis Suc_leI le_neq_implies_less not_less not_less_eq_eq order_refl)
qed

lemma maximal_unique_le:
  assumes "is_tiling n B" and "maximal n B" and "is_tiling n B'" and "maximal n B'"
    and "B h = Some (k, f)" and "B' h = Some (k', f')"
  shows "k' \<le> k"
proof (rule ccontr)
  assume "\<not> k' \<le> k"
  then have "Suc k \<le> k'" by simp
  note b = tiling_block [OF assms(3,6)]
  have "2 ^ Suc k dvd h" using b(2) \<open>Suc k \<le> k'\<close> by (meson dvd_trans le_imp_power_dvd)
  moreover have "(2 :: nat) ^ Suc k \<le> 2 ^ k'" using \<open>Suc k \<le> k'\<close> by (rule power_increasing) simp
  then have "h + 2 ^ Suc k \<le> n" using b(3) by linarith
  moreover have "k \<noteq> MAX_ORDER" using b(1) \<open>Suc k \<le> k'\<close> by simp
  ultimately show False
    using assms(2,5) unfolding maximal_def by fastforce
qed

lemma maximal_unique:
  assumes t: "is_tiling n B" and m: "maximal n B" and t': "is_tiling n B'" and m': "maximal n B'"
  shows "B = B'"
proof -
  have half: "B2 h = Some x"
    if tm: "is_tiling n B1" "maximal n B1" "is_tiling n B2" "maximal n B2"
      and below: "\<And>g. g < h \<Longrightarrow> B1 g = B2 g" and h: "B1 h = Some x" for B1 B2 h x
  proof -
    obtain k f where x: "x = (k, f)" by (cases x)
    have f: f using tm(2) h x unfolding maximal_def by blast
    have "h < n" using tiling_block [OF tm(1)] h x by simp
    then obtain g k' f' where g: "B2 g = Some (k', f')" "g \<le> h" "h < g + 2 ^ k'"
      using tiling_cover [OF tm(3)] by blast
    have f': f' using tm(4) g unfolding maximal_def by blast
    have "g = h"
    proof (rule ccontr)
      assume "g \<noteq> h"
      with g(2) below g(1) have g1: "B1 g = Some (k', f')" by simp
      have hh: "B1 h = Some (k, f)" using h x by simp
      have "g = h" using tiling_unique' [OF tm(1) g1 g(2,3) hh] by simp
      with \<open>g \<noteq> h\<close> show False by simp
    qed
    moreover have "k' = k"
      using maximal_unique_le [OF tm(1-4), of h k f k' f'] h x g \<open>g = h\<close>
        maximal_unique_le [OF tm(3,4,1,2), of h k' f' k f] by simp
    ultimately show ?thesis using g x f f' by simp
  qed
  have "B h = B' h" for h
  proof (induction h rule: less_induct)
    case (less h)
    have "B h = Some x \<Longrightarrow> B' h = Some x" for x
      by (rule half [OF t m t' m']) (use less in auto)
    moreover have "B' h = Some x \<Longrightarrow> B h = Some x" for x
      by (rule half [OF t' m' t m]) (use less in auto)
    ultimately show ?case by (metis option.exhaust)
  qed
  then show ?thesis by blast
qed

end
