(* ===== verification/KMemory.thy ===== *)
theory KMemory
  imports Prelude
begin

text \<open>
  \<^verbatim>\<open>kernel/src/lib/kmemory.c\<close>: byte copies, byte fills and power-of-two alignment. The two
  copy loops run over byte-addressed memory, so overlapping arguments behave as they do in the
  code; the alignment helpers wrap at 32 bits as \<open>uintptr_t\<close> does.
\<close>

section \<open>Model\<close>

fun kmemcpy_loop :: "nat \<Rightarrow> u32 \<Rightarrow> u32 \<Rightarrow> mem \<Rightarrow> mem" where
  "kmemcpy_loop 0 dest src m = m"
| "kmemcpy_loop (Suc sz) dest src m =
     kmemcpy_loop sz (dest + 1) (src + 1) (m(dest := m src))"

definition kmemcpy :: "u32 \<Rightarrow> u32 \<Rightarrow> u32 \<Rightarrow> mem \<Rightarrow> u32 \<times> mem" where
  "kmemcpy destination source sz m =
     (if destination = NULL \<or> source = NULL then (NULL, m)
      else if destination = source \<or> sz = 0 then (destination, m)
      else (destination, kmemcpy_loop (unat sz) destination source m))"

fun kmemset_loop :: "nat \<Rightarrow> u32 \<Rightarrow> u8 \<Rightarrow> mem \<Rightarrow> mem" where
  "kmemset_loop 0 dest val m = m"
| "kmemset_loop (Suc sz) dest val m = kmemset_loop sz (dest + 1) val (m(dest := val))"

definition kmemset :: "u32 \<Rightarrow> u8 \<Rightarrow> u32 \<Rightarrow> mem \<Rightarrow> u32 \<times> mem" where
  "kmemset destination val sz m =
     (if destination = NULL then (NULL, m)
      else if sz = 0 then (destination, m)
      else (destination, kmemset_loop (unat sz) destination val m))"

definition kalign_up :: "u32 \<Rightarrow> u32 \<Rightarrow> u32" where
  "kalign_up val alignment = (val + alignment - 1) AND NOT (alignment - 1)"

definition kalign_down :: "u32 \<Rightarrow> u32 \<Rightarrow> u32" where
  "kalign_down val alignment = val AND NOT (alignment - 1)"

section \<open>Copies and fills\<close>

lemma range_step:
  assumes "Suc n \<le> 4294967296"
  shows "in_range p (Suc n) x \<longleftrightarrow> x = p \<or> in_range (p + 1) n x"
proof (cases "x = p")
  case True
  then show ?thesis by (simp add: in_range_def)
next
  case False
  then have "x - p \<noteq> 0" by simp
  then have "unat (x - p) = Suc (unat (x - p - 1))"
    by (metis Suc_pred' unat_gt_0 unat_minus_one)
  moreover have "x - p - 1 = x - (p + 1)" by simp
  ultimately show ?thesis using False by (simp add: in_range_def)
qed

lemma kmemset_loop_apply:
  "n < 4294967296 \<Longrightarrow> kmemset_loop n d v m x = (if in_range d n x then v else m x)"
proof (induction n arbitrary: d m)
  case 0
  then show ?case by (simp add: in_range_def)
next
  case (Suc n)
  then show ?case using range_step [of n d x] by auto
qed

text \<open>
  A forward copy delivers the original bytes whenever no byte is read after it was overwritten:
  the destination does not begin inside the source.
\<close>

lemma kmemcpy_loop_apply:
  assumes "n < 4294967296" and "\<not> in_range (s + 1) (n - 1) d"
  shows "kmemcpy_loop n d s m x = (if in_range d n x then m (s + (x - d)) else m x)"
  using assms
proof (induction n arbitrary: d s m)
  case 0
  then show ?case by (simp add: in_range_def)
next
  case (Suc n)
  have pre: "\<not> in_range (s + 1 + 1) (n - 1) (d + 1)"
    using Suc.prems by (simp add: in_range_def algebra_simps)
  have eq: "kmemcpy_loop (Suc n) d s m x =
      (if in_range (d + 1) n x then (m(d := m s)) (s + (x - d)) else (m(d := m s)) x)"
    using Suc.IH [OF _ pre] Suc.prems(1) by (simp add: algebra_simps)
  have "s + (x - d) \<noteq> d" if "in_range (d + 1) n x"
  proof
    assume "s + (x - d) = d"
    then have "d - (s + 1) = x - (d + 1)" by (simp add: algebra_simps)
    with that Suc.prems(2) show False by (simp add: in_range_def)
  qed
  then show ?case
    unfolding eq using range_step [of n d x] Suc.prems(1) by (auto simp: algebra_simps)
qed

lemma disjoint_forward_copy:
  assumes "disjoint_ranges d n s n"
  shows "\<not> in_range (s + 1) (n - 1) d"
proof
  assume "in_range (s + 1) (n - 1) d"
  then obtain j where "j < n - 1" and "d = s + 1 + of_nat j"
    by (rule in_rangeE)
  then have "0 < n" and "Suc j < n" and "d + of_nat 0 = s + of_nat (Suc j)"
    by simp_all
  with assms show False
    unfolding disjoint_ranges_def by blast
qed

lemma kmemcpy_apply:
  assumes "d \<noteq> NULL" and "s \<noteq> NULL" and "\<not> in_range (s + 1) (unat sz - 1) d"
  shows "snd (kmemcpy d s sz m) x = (if in_range d (unat sz) x then m (s + (x - d)) else m x)"
  using assms kmemcpy_loop_apply [OF unat_u32_lt assms(3)]
  by (auto simp: kmemcpy_def in_range_def)

lemma kmemcpy_disjoint_apply:
  assumes "d \<noteq> NULL" and "s \<noteq> NULL" and "disjoint_ranges d (unat sz) s (unat sz)"
  shows "snd (kmemcpy d s sz m) x = (if in_range d (unat sz) x then m (s + (x - d)) else m x)"
  using assms disjoint_forward_copy by (intro kmemcpy_apply) blast+

lemma read_bytes_kmemcpy:
  assumes "d \<noteq> NULL" and "s \<noteq> NULL" and "disjoint_ranges d (unat sz) s (unat sz)"
  shows "read_bytes (snd (kmemcpy d s sz m)) d (unat sz) = read_bytes m s (unat sz)"
    and "disjoint_ranges d (unat sz) q k \<Longrightarrow>
      read_bytes (snd (kmemcpy d s sz m)) q k = read_bytes m q k"
proof -
  have a: "snd (kmemcpy d s sz m) x = (if in_range d (unat sz) x then m (s + (x - d)) else m x)" for x
    by (rule kmemcpy_disjoint_apply [OF assms])
  have "in_range d (unat sz) (d + of_nat i)" if "i < unat sz" for i
    using that unat_u32_lt [of sz] by (intro in_range_offset) simp_all
  then show "read_bytes (snd (kmemcpy d s sz m)) d (unat sz) = read_bytes m s (unat sz)"
    by (simp add: read_bytes_def a)
  assume "disjoint_ranges d (unat sz) q k"
  then show "read_bytes (snd (kmemcpy d s sz m)) q k = read_bytes m q k"
    using disjoint_ranges_offset by (intro read_bytes_cong) (simp add: a)
qed

lemma kmemset_apply:
  "d \<noteq> NULL \<Longrightarrow> snd (kmemset d v sz m) x = (if in_range d (unat sz) x then v else m x)"
  by (auto simp: kmemset_def kmemset_loop_apply unat_u32_lt in_range_def)

section \<open>Alignment\<close>

lemma pow2_minus_one: "(2 :: u32) ^ k - 1 = mask k"
  by (simp add: mask_eq_exp_minus_1)

lemma unat_kalign_down: "unat (kalign_down v (2 ^ k)) = unat v div 2 ^ k * 2 ^ k"
  by (simp add: kalign_down_def pow2_minus_one unat_and_not_mask)

lemma unat_kalign_up:
  assumes "k < 32" and "unat v + 2 ^ k - 1 < 2 ^ 32"
  shows "unat (kalign_up v (2 ^ k)) = (unat v + 2 ^ k - 1) div 2 ^ k * 2 ^ k"
proof -
  have "unat (mask k :: u32) = 2 ^ k - 1"
    using unat_minus_one [of "2 ^ k :: u32"] assms(1)
    by (simp add: unat_pow2_u32 flip: pow2_minus_one)
  then have "unat (v + mask k) = unat v + 2 ^ k - 1"
    using assms(2) by (subst unat_add_nowrap) (auto simp: Suc_leI)
  moreover have "kalign_up v (2 ^ k) = (v + mask k) AND NOT (mask k)"
    by (simp add: kalign_up_def add_diff_eq flip: pow2_minus_one)
  ultimately show ?thesis
    by (simp add: unat_and_not_mask)
qed

section \<open>The copy on every input\<close>

text \<open>
  The reference: all \<open>n\<close> bytes are read before any is written. When the destination begins \<open>k < n\<close>
  bytes after the source, the forward loop reads bytes it has written, and fills the destination
  with the first \<open>k\<close> bytes of the source over and over.
\<close>

definition write_bytes :: "u32 \<Rightarrow> u8 list \<Rightarrow> mem \<Rightarrow> mem" where
  "write_bytes p bs m x = (if in_range p (length bs) x then bs ! unat (x - p) else m x)"

definition cycle_bytes :: "nat \<Rightarrow> u8 list \<Rightarrow> u8 list" where
  "cycle_bytes k bs = map (\<lambda>i. bs ! (i mod k)) [0..<length bs]"

lemma cycle_bytes_id: "length bs \<le> k \<Longrightarrow> cycle_bytes k bs = bs"
  by (intro nth_equalityI) (simp_all add: cycle_bytes_def)

lemma kmemcpy_loop_cycle:
  assumes "n < 4294967296" and "d \<noteq> s"
  shows "kmemcpy_loop n d s m x =
    (if in_range d n x then m (s + of_nat (unat (x - d) mod unat (d - s))) else m x)"
  using assms
proof (induction n arbitrary: d s m)
  case 0
  then show ?case by (simp add: in_range_def)
next
  case (Suc n)
  define k where "k = unat (d - s)"
  have k: "0 < k" "s + of_nat k = d" using Suc.prems(2) by (simp_all add: k_def unat_gt_0)
  have eq: "kmemcpy_loop (Suc n) d s m x = (if in_range (d + 1) n x
      then (m(d := m s)) (s + 1 + of_nat (unat (x - (d + 1)) mod k)) else (m(d := m s)) x)"
    using Suc.IH [of "d + 1" "s + 1"] Suc.prems by (simp add: k_def)
  have "(m(d := m s)) (s + 1 + of_nat (unat (x - (d + 1)) mod k)) = m (s + of_nat (unat (x - d) mod k))"
    if r: "in_range (d + 1) n x"
  proof -
    let ?j = "unat (x - (d + 1))"
    have "unat (x - (d + 1)) < n" using r by (simp add: in_range_def)
    then have i: "unat (x - d) = Suc ?j"
      using unat_add_nowrap [of "x - (d + 1)" 1] Suc.prems(1) by simp
    show ?thesis
    proof (cases "Suc (?j mod k) = k")
      case True
      then have "s + 1 + of_nat (?j mod k) = d" using k(2) by (metis add.assoc of_nat_Suc)
      moreover have "Suc ?j mod k = 0" using True by (simp add: mod_Suc)
      ultimately show ?thesis by (simp add: i)
    next
      case False
      then have lt: "Suc (?j mod k) < k" using k(1) mod_less_divisor [of k ?j] by linarith
      have "unat (of_nat (Suc (?j mod k)) :: u32) \<noteq> k"
        using lt unat_of_nat_u32 [of "Suc (?j mod k)"] unat_u32_lt [of "d - s"] by (simp add: k_def)
      then have "s + of_nat (Suc (?j mod k)) \<noteq> d" by (metis k_def add_diff_cancel_left')
      moreover have "s + 1 + of_nat (?j mod k) = s + of_nat (Suc (?j mod k))" by simp
      moreover have "Suc ?j mod k = Suc (?j mod k)" using False by (simp add: mod_Suc)
      ultimately show ?thesis by (simp only: fun_upd_apply i if_False)
    qed
  qed
  then show ?case
    unfolding eq k_def [symmetric] using range_step [of n d x] Suc.prems(1) by auto
qed

text \<open>
  C38. \<open>kmemcpy\<close> against the reference, on every pair of addresses. With a NULL argument it returns NULL
  and changes nothing. Otherwise it returns the destination and memory is what the reference gives
  for the source bytes, cycled with the distance between the ranges; that is the plain copy unless
  the destination begins inside the source. \<open>kmemset\<close> is the reference for \<open>n\<close> equal bytes.
\<close>

theorem kmemcpy_equiv:
  "kmemcpy d s sz m =
     (if d = NULL \<or> s = NULL then (NULL, m)
      else if d = s then (d, m)
      else (d, write_bytes d (cycle_bytes (unat (d - s)) (read_bytes m s (unat sz))) m)) \<and>
   (unat sz \<le> unat (d - s) \<longrightarrow> cycle_bytes (unat (d - s)) (read_bytes m s (unat sz)) = read_bytes m s (unat sz)) \<and>
   kmemset d v sz m = (if d = NULL then (NULL, m) else (d, write_bytes d (replicate (unat sz) v) m))"
proof (intro conjI impI)
  let ?bs = "cycle_bytes (unat (d - s)) (read_bytes m s (unat sz))"
  have "kmemcpy_loop (unat sz) d s m x = write_bytes d ?bs m x" if "d \<noteq> s" for x
  proof -
    have "?bs ! unat (x - d) = m (s + of_nat (unat (x - d) mod unat (d - s)))" if r: "in_range d (unat sz) x"
    proof -
      have lt: "unat (x - d) < unat sz" using r by (simp add: in_range_def)
      then have "unat (x - d) mod unat (d - s) < unat sz" using mod_less_eq_dividend le_less_trans by blast
      then show ?thesis using lt by (simp add: cycle_bytes_def read_bytes_def)
    qed
    then show ?thesis
      using kmemcpy_loop_cycle [OF unat_u32_lt that, of sz m x]
      by (simp add: write_bytes_def cycle_bytes_def read_bytes_def)
  qed
  then show "kmemcpy d s sz m = (if d = NULL \<or> s = NULL then (NULL, m) else if d = s then (d, m)
      else (d, write_bytes d ?bs m))"
    by (auto simp: kmemcpy_def write_bytes_def cycle_bytes_def read_bytes_def in_range_def fun_eq_iff)
next
  assume "unat sz \<le> unat (d - s)"
  then show "cycle_bytes (unat (d - s)) (read_bytes m s (unat sz)) = read_bytes m s (unat sz)"
    by (intro cycle_bytes_id) (simp add: read_bytes_def)
next
  have "kmemset_loop (unat sz) d v m x = write_bytes d (replicate (unat sz) v) m x" for x
    using kmemset_loop_apply [OF unat_u32_lt, of sz d v m x] by (auto simp: write_bytes_def in_range_def)
  then show "kmemset d v sz m = (if d = NULL then (NULL, m) else (d, write_bytes d (replicate (unat sz) v) m))"
    by (auto simp: kmemset_def write_bytes_def in_range_def fun_eq_iff)
qed

theorem kmemcpy_equiv_witness:
  "snd (kmemcpy 0x1002 0x1000 4 (\<lambda>x. ucast x)) 0x1005 = 1"
proof -
  have "kmemcpy 0x1002 0x1000 4 (\<lambda>x. ucast x) =
      (0x1002, write_bytes 0x1002 (cycle_bytes 2 (read_bytes (\<lambda>x. ucast x) 0x1000 4)) (\<lambda>x. ucast x))"
    using kmemcpy_equiv [of "0x1002" "0x1000" 4 "\<lambda>x. ucast x" 0] by simp
  then show ?thesis by (simp add: write_bytes_def in_range_def cycle_bytes_def read_bytes_def)
qed

end
