(* ===== verification/EMM.thy ===== *)
theory EMM
  imports Prelude
begin

text \<open>
  \<^verbatim>\<open>kernel/src/lib/memory/emm.c\<close>: the early allocator, a cursor that moves through the
  512 KiB heap the linker script reserves (\<^verbatim>\<open>_early_heap_start\<close> to
  \<^verbatim>\<open>_early_heap_end\<close>). Nothing is ever given back.
\<close>

record emm_state =
  g_cursor :: u32
  g_end :: u32

definition emm_alloc :: "u32 \<Rightarrow> emm_state \<Rightarrow> (u32 \<times> emm_state) res" where
  "emm_alloc sz s =
     (let current_cursor = g_cursor s;
          next_cursor = current_cursor + sz
      in if next_cursor > g_end s
         then panic ''Early boot allocator exhausted while allocating %u bytes'' [sz]
         else ret (current_cursor, s\<lparr>g_cursor := next_cursor\<rparr>))"

text \<open>The cursor stays inside the heap.\<close>

definition emm_inv :: "emm_state \<Rightarrow> bool" where
  "emm_inv s \<longleftrightarrow> g_cursor s \<le> g_end s"

lemma emm_alloc_ret_iff:
  assumes "unat (g_cursor s) + unat sz < 4294967296"
  shows "emm_alloc sz s = ret (p, s') \<longleftrightarrow>
    unat (g_cursor s) + unat sz \<le> unat (g_end s) \<and> p = g_cursor s \<and>
    s' = s\<lparr>g_cursor := g_cursor s + sz\<rparr>"
  using unat_add_nowrap [OF assms]
  by (auto simp: emm_alloc_def Let_def word_le_nat_alt word_less_nat_alt)

lemma emm_alloc_cases:
  obtains "emm_alloc sz s = panic ''Early boot allocator exhausted while allocating %u bytes'' [sz]"
    | "emm_alloc sz s = ret (g_cursor s, s\<lparr>g_cursor := g_cursor s + sz\<rparr>)"
      and "g_cursor s + sz \<le> g_end s"
  by (cases "g_end s < g_cursor s + sz") (auto simp: emm_alloc_def Let_def not_less)

lemma emm_alloc_inv: "emm_alloc sz s = ret (p, s') \<Longrightarrow> emm_inv s'"
  by (rule emm_alloc_cases [of sz s]) (auto simp: emm_inv_def)

lemma emm_alloc_end: "emm_alloc sz s = ret (p, s') \<Longrightarrow> g_end s' = g_end s"
  by (rule emm_alloc_cases [of sz s]) auto

section \<open>Room\<close>

text \<open>
  The bytes left on the early heap, and a step that takes \<open>n\<close> of them. The heap ends far enough below the top
  of the address space for the cursor not to wrap.
\<close>

definition room :: "emm_state \<Rightarrow> nat" where
  "room e = unat (g_end e) - unat (g_cursor e)"

definition takes :: "nat \<Rightarrow> emm_state \<Rightarrow> emm_state \<Rightarrow> bool" where
  "takes n e e' \<longleftrightarrow> n \<le> room e \<and> g_end e' = g_end e \<and> unat (g_cursor e') = unat (g_cursor e) + n"

lemma takes_0 [simp]: "takes 0 e e"
  by (simp add: takes_def)

lemma takes_add: "takes j e e1 \<Longrightarrow> takes k e1 e2 \<Longrightarrow> takes (j + k) e e2"
  by (auto simp: takes_def room_def)

lemma takes_room: "takes n e e' \<Longrightarrow> room e' = room e - n"
  by (simp add: takes_def room_def)

lemma takes_inv: "takes n e e' \<Longrightarrow> emm_inv e \<Longrightarrow> emm_inv e'"
  by (auto simp: takes_def room_def emm_inv_def word_le_nat_alt)

lemma emm_alloc_takes:
  assumes "unat sz \<le> room e" and "emm_inv e"
  obtains e' where "emm_alloc sz e = ret (g_cursor e, e')" and "takes (unat sz) e e'"
proof -
  have le: "unat (g_cursor e) + unat sz \<le> unat (g_end e)"
    using assms by (simp add: room_def emm_inv_def word_le_nat_alt)
  have u: "unat (g_cursor e + sz) = unat (g_cursor e) + unat sz"
    using le unat_u32_lt [of "g_end e"] by (intro unat_add_nowrap) simp
  show thesis
    using le u assms(1) by (intro that [of "e\<lparr>g_cursor := g_cursor e + sz\<rparr>"])
      (simp_all add: emm_alloc_def Let_def word_less_nat_alt takes_def)
qed

lemma emm_alloc_exhausted:
  assumes "room e < unat sz" and "emm_inv e" and "unat (g_end e) + unat sz < 4294967296"
  shows "emm_alloc sz e = panic ''Early boot allocator exhausted while allocating %u bytes'' [sz]"
proof -
  have "unat (g_cursor e) \<le> unat (g_end e)" using assms(2) by (simp add: emm_inv_def word_le_nat_alt)
  then have "unat (g_cursor e + sz) = unat (g_cursor e) + unat sz"
    using assms(3) by (intro unat_add_nowrap) simp
  then show ?thesis using assms(1) by (simp add: emm_alloc_def Let_def word_less_nat_alt room_def)
qed

text \<open>The panic of an allocation that does not fit.\<close>

definition exhausted :: "'a res \<Rightarrow> bool" where
  "exhausted r \<longleftrightarrow> (\<exists>n. r = panic ''Early boot allocator exhausted while allocating %u bytes'' [n])"

lemma exhaustedI [intro]: "exhausted (panic ''Early boot allocator exhausted while allocating %u bytes'' [n])"
  by (auto simp: exhausted_def)

lemma bindR_exhausted: "exhausted m \<Longrightarrow> exhausted (bindR m f)"
  by (auto simp: exhausted_def)

end
