(* ===== verification/Boot_Info.thy ===== *)
theory Boot_Info
  imports Prelude
begin

text \<open>
  The records of \<^verbatim>\<open>kernel/include/arch/x86/boot/multiboot2.h\<close> that hold the parsed boot
  information. The three singly linked lists are only ever appended to and walked from the
  front, so each is a HOL list; a \<open>char*\<close> that points to a copy on the early heap is the
  address of that copy.
\<close>

record boot_memory_region_t =
  base_address :: u64
  region_length :: u64

record boot_module_t =
  mod_start :: u32
  mod_end :: u32
  mod_command_line :: u32

record boot_info_t =
  bi_name :: u32
  bi_command_line :: u32
  ram_regions :: "boot_memory_region_t list"
  reserved_regions :: "boot_memory_region_t list"
  modules :: "boot_module_t list"

end
