(* ===== verification/PMM.thy ===== *)
theory PMM
  imports Buddy KMemory EMM Boot_Info
begin

text \<open>
  \<^verbatim>\<open>kernel/src/lib/memory/pmm.c\<close>: the physical memory manager, a buddy allocator over the
  RAM regions of the boot information. This theory is the model; its correctness is in
  \<^verbatim>\<open>PMM_Region\<close> and \<^verbatim>\<open>PMM_Correct\<close>.

  A \<open>pmm_block_t*\<close> always points into the \<open>block_pool\<close> of one region, so it is the
  index of the block in that array, with \<open>None\<close> for NULL; the free lists are threaded
  through the \<open>next\<close> fields exactly as in the code. The list \<open>g_regions\<close> is only
  appended to, so it is a HOL list and a \<open>pmm_region_t*\<close> is an index into it. Orders and
  loop counters stay below \<open>2\<^sup>2\<^sup>1\<close> and are natural numbers; addresses and sizes are
  32-bit words.
\<close>

section \<open>Data\<close>

definition PAGE_SIZE :: u32 where
  "PAGE_SIZE = 4096"

definition BLOCK_SIZE :: "nat \<Rightarrow> u32" where
  "BLOCK_SIZE k = push_bit k 1 * PAGE_SIZE"

definition BLOCK_COUNT :: "nat \<Rightarrow> nat" where
  "BLOCK_COUNT k = push_bit k 1"

record pmm_block_t =
  b_address :: u32
  b_order :: nat
  b_is_free :: bool
  b_next :: "nat option"

record pmm_region_t =
  free_lists :: "nat option list"
  block_pool :: "pmm_block_t list"
  block_pool_size :: u32
  r_start :: u32
  r_end :: u32

record pmm_state =
  emm :: emm_state
  g_regions :: "pmm_region_t list"

text \<open>\<open>sizeof\<close> of the two structs on the ILP32 target.\<close>

definition sizeof_pmm_region_t :: u32 where
  "sizeof_pmm_region_t = 64"

definition sizeof_pmm_block_t :: u32 where
  "sizeof_pmm_block_t = 12"

text \<open>A write through a \<open>pmm_block_t*\<close>.\<close>

definition upd_block :: "nat \<Rightarrow> (pmm_block_t \<Rightarrow> pmm_block_t) \<Rightarrow> pmm_region_t \<Rightarrow> pmm_region_t" where
  "upd_block i f r = r\<lparr>block_pool := (block_pool r)[i := f (block_pool r ! i)]\<rparr>"

section \<open>Lookups\<close>

function size_to_order_loop :: "u32 \<Rightarrow> u32 \<Rightarrow> nat \<Rightarrow> nat" where
  "size_to_order_loop sz block_size current_order =
     (if block_size < sz \<and> current_order \<le> MAX_ORDER
      then size_to_order_loop sz (push_bit 1 block_size) (current_order + 1)
      else current_order)"
  by pat_completeness auto
termination
  by (relation "measure (\<lambda>(_, _, k). MAX_ORDER + 1 - k)") auto

declare size_to_order_loop.simps [simp del]

definition size_to_order :: "u32 \<Rightarrow> nat option" where
  "size_to_order sz =
     (let current_order = size_to_order_loop sz (BLOCK_SIZE 0) 0
      in if current_order \<le> MAX_ORDER then Some current_order else None)"

fun find_region_loop :: "(pmm_region_t \<Rightarrow> bool) \<Rightarrow> pmm_region_t list \<Rightarrow> nat \<Rightarrow> nat option" where
  "find_region_loop P [] i = None"
| "find_region_loop P (r # rs) i = (if P r then Some i else find_region_loop P rs (Suc i))"

definition find_region_by_address :: "pmm_region_t list \<Rightarrow> u32 \<Rightarrow> nat option" where
  "find_region_by_address regions address =
     find_region_loop (\<lambda>r. address \<ge> r_start r \<and> address < r_end r) regions 0"

definition find_block_by_address :: "pmm_region_t option \<Rightarrow> u32 \<Rightarrow> nat option" where
  "find_block_by_address region address =
     (case region of
        None \<Rightarrow> None
      | Some r \<Rightarrow>
          if address < r_start r \<or> address \<ge> r_end r then None
          else if address AND (PAGE_SIZE - 1) \<noteq> 0 then None
          else
            let offset = address - r_start r;
                block_index = offset div PAGE_SIZE
            in if block_index \<ge> block_pool_size r then None else Some (unat block_index))"

function scan_order :: "pmm_region_t \<Rightarrow> nat \<Rightarrow> nat" where
  "scan_order r current_order =
     (if current_order \<le> MAX_ORDER
      then if free_lists r ! current_order \<noteq> None then current_order
           else scan_order r (current_order + 1)
      else current_order)"
  by pat_completeness auto
termination
  by (relation "measure (\<lambda>(_, k). MAX_ORDER + 1 - k)") auto

declare scan_order.simps [simp del]

definition find_region_for_order :: "pmm_region_t list \<Rightarrow> nat \<Rightarrow> nat option" where
  "find_region_for_order regions k = find_region_loop (\<lambda>r. scan_order r k \<le> MAX_ORDER) regions 0"

definition get_buddy_block :: "nat option \<Rightarrow> pmm_region_t option \<Rightarrow> nat \<Rightarrow> nat option" where
  "get_buddy_block block region k =
     (case (block, region) of
        (Some b, Some r) \<Rightarrow>
          let region_relative = b_address (block_pool r ! b) - r_start r;
              buddy_relative = region_relative XOR BLOCK_SIZE k;
              buddy_address = r_start r + buddy_relative
          in if buddy_address < r_start r \<or> buddy_address \<ge> r_end r then None
             else find_block_by_address (Some r) buddy_address
      | _ \<Rightarrow> None)"

section \<open>Free lists\<close>

text \<open>
  \<open>pmm_block_t** slot\<close> points to the list head of an order or to the \<open>next\<close> field of a
  block. The walk may not end on a cyclic list, so it is a partial function.
\<close>

datatype slot = HeadSlot | NextSlot nat

definition slot_read :: "pmm_region_t \<Rightarrow> nat \<Rightarrow> slot \<Rightarrow> nat option" where
  "slot_read r k s =
     (case s of HeadSlot \<Rightarrow> free_lists r ! k | NextSlot i \<Rightarrow> b_next (block_pool r ! i))"

definition slot_write :: "pmm_region_t \<Rightarrow> nat \<Rightarrow> slot \<Rightarrow> nat option \<Rightarrow> pmm_region_t" where
  "slot_write r k s v =
     (case s of
        HeadSlot \<Rightarrow> r\<lparr>free_lists := (free_lists r)[k := v]\<rparr>
      | NextSlot i \<Rightarrow> upd_block i (\<lambda>b. b\<lparr>b_next := v\<rparr>) r)"

partial_function (option) find_slot :: "pmm_region_t \<Rightarrow> nat \<Rightarrow> nat \<Rightarrow> slot \<Rightarrow> slot option" where
  "find_slot r k block s =
     (case slot_read r k s of
        None \<Rightarrow> Some s
      | Some i \<Rightarrow> if i = block then Some s else find_slot r k block (NextSlot i))"

declare find_slot.simps [code]

definition remove_from_region_freelist ::
  "nat option \<Rightarrow> pmm_region_t option \<Rightarrow> nat \<Rightarrow> (bool \<times> pmm_region_t option) res" where
  "remove_from_region_freelist block region k =
     (case (block, region) of
        (Some b, Some r) \<Rightarrow>
          (case find_slot r k b HeadSlot of
             None \<Rightarrow> None
           | Some s \<Rightarrow>
               if slot_read r k s = None then ret (False, region)
               else
                 let r1 = slot_write r k s (b_next (block_pool r ! b));
                     r2 = upd_block b (\<lambda>x. x\<lparr>b_next := None\<rparr>) r1
                 in ret (True, Some r2))
      | _ \<Rightarrow> ret (False, region))"

definition add_to_region_freelist :: "nat \<Rightarrow> pmm_region_t \<Rightarrow> nat \<Rightarrow> pmm_region_t" where
  "add_to_region_freelist block r k =
     (let r1 = upd_block block (\<lambda>b. b\<lparr>b_next := free_lists r ! k\<rparr>) r
      in r1\<lparr>free_lists := (free_lists r1)[k := Some block]\<rparr>)"

section \<open>Adding regions\<close>

function biggest_order_loop :: "nat \<Rightarrow> nat \<Rightarrow> nat \<Rightarrow> nat" where
  "biggest_order_loop pool_size offset biggest_order =
     (if biggest_order < MAX_ORDER
      then
        let next_block_count = BLOCK_COUNT (biggest_order + 1)
        in if offset mod next_block_count \<noteq> 0 then biggest_order
           else if offset + next_block_count > pool_size then biggest_order
           else biggest_order_loop pool_size offset (biggest_order + 1)
      else biggest_order)"
  by pat_completeness auto
termination
  by (relation "measure (\<lambda>(_, _, k). MAX_ORDER - k)") auto

declare biggest_order_loop.simps [simp del]

function carve_loop :: "nat \<Rightarrow> nat \<Rightarrow> pmm_region_t \<Rightarrow> pmm_region_t res" where
  "carve_loop pool_size offset region =
     (if offset < pool_size
      then
        let biggest_order = biggest_order_loop pool_size offset 0;
            address = r_start region + of_nat offset * PAGE_SIZE
        in (case find_block_by_address (Some region) address of
              None \<Rightarrow> undef ''block''
            | Some block \<Rightarrow>
                let region1 = upd_block block
                      (\<lambda>b. b\<lparr>b_order := biggest_order, b_is_free := True\<rparr>) region;
                    region2 = add_to_region_freelist block region1 biggest_order
                in carve_loop pool_size (offset + BLOCK_COUNT biggest_order) region2)
      else ret region)"
  by pat_completeness auto
termination
  by (relation "measure (\<lambda>(n, i, _). n - i)")
    (auto simp: BLOCK_COUNT_def push_bit_eq_mult intro!: diff_less_mono2)

declare carve_loop.simps [simp del]

definition pmm_add_region :: "u32 \<Rightarrow> u32 \<Rightarrow> pmm_state \<Rightarrow> pmm_state res" where
  "pmm_add_region start sz s =
     (let original_start = start;
          original_end = original_start + sz
      in if original_start \<ge> original_end
         then panic ''Memory region overflows address space (start=%p, size=%u)''
                [original_start, sz]
         else
           let aligned_start = kalign_up original_start PAGE_SIZE;
               aligned_end = kalign_down original_end PAGE_SIZE
           in if aligned_end \<le> aligned_start then ret s
              else
                let aligned_size = aligned_end - aligned_start
                in bindR (emm_alloc sizeof_pmm_region_t (emm s)) (\<lambda>(_, e1).
                     let pool_size = aligned_size div PAGE_SIZE;
                         blockpool_size = pool_size * sizeof_pmm_block_t
                     in bindR (emm_alloc blockpool_size e1) (\<lambda>(_, e2).
                          let region = \<lparr>
                                free_lists = replicate NUM_ORDERS None,
                                block_pool = map (\<lambda>index. \<lparr>
                                    b_address = aligned_start + of_nat index * PAGE_SIZE,
                                    b_order = 0, b_is_free = True, b_next = None\<rparr>)
                                  [0..<unat pool_size],
                                block_pool_size = pool_size,
                                r_start = aligned_start,
                                r_end = aligned_end\<rparr>
                          in bindR (carve_loop (unat pool_size) 0 region) (\<lambda>region'.
                               ret (s\<lparr>emm := e2, g_regions := g_regions s @ [region']\<rparr>)))))"

text \<open>
  \<open>pmm_init\<close> walks the RAM list; the assignments to \<open>uintptr_t\<close> truncate the 64-bit
  base and length.
\<close>

fun pmm_init_loop :: "boot_memory_region_t list \<Rightarrow> pmm_state \<Rightarrow> pmm_state res" where
  "pmm_init_loop [] s = ret s"
| "pmm_init_loop (current_ram # rest) s =
     (let start = ucast (base_address current_ram);
          sz = ucast (region_length current_ram)
      in bindR (pmm_add_region start sz s) (pmm_init_loop rest))"

definition pmm_init :: "boot_info_t \<Rightarrow> pmm_state \<Rightarrow> pmm_state res" where
  "pmm_init boot_info s = pmm_init_loop (ram_regions boot_info) s"

section \<open>Allocation\<close>

fun split_loop :: "nat \<Rightarrow> nat \<Rightarrow> nat \<Rightarrow> pmm_region_t \<Rightarrow> pmm_region_t res" where
  "split_loop k current_order target region =
     (if current_order > k
      then
        let cur = current_order - 1;
            buddy_address = b_address (block_pool region ! target) + BLOCK_SIZE cur
        in (case find_block_by_address (Some region) buddy_address of
              None \<Rightarrow> undef ''buddy_block''
            | Some buddy_block \<Rightarrow>
                let r1 = upd_block target (\<lambda>b. b\<lparr>b_order := cur\<rparr>) region;
                    r2 = upd_block buddy_block (\<lambda>b. b\<lparr>b_order := cur\<rparr>) r1;
                    r3 = upd_block buddy_block (\<lambda>b. b\<lparr>b_is_free := True, b_next := None\<rparr>) r2;
                    r4 = add_to_region_freelist buddy_block r3 cur
                in split_loop k cur target r4)
      else ret region)"

declare split_loop.simps [simp del]

definition pmm_alloc_order :: "nat \<Rightarrow> pmm_state \<Rightarrow> (u32 \<times> pmm_state) res" where
  "pmm_alloc_order k s =
     (if k > MAX_ORDER then panic ''Invalid target order %u for allocation'' [of_nat k]
      else
        case find_region_for_order (g_regions s) k of
          None \<Rightarrow> panic ''No free blocks available for order %u'' [of_nat k]
        | Some ri \<Rightarrow>
            let region = g_regions s ! ri;
                current_order = scan_order region k
            in if current_order > MAX_ORDER
               then panic ''No blocks available for order %u or higher'' [of_nat k]
               else
                 let target_block = free_lists region ! current_order
                 in bindR (remove_from_region_freelist target_block (Some region) current_order)
                      (\<lambda>(removed, region1).
                        if \<not> removed then panic ''Failed to remove block from free list'' []
                        else
                          case (target_block, region1) of
                            (Some t, Some r1) \<Rightarrow>
                              let r2 = upd_block t (\<lambda>b. b\<lparr>b_is_free := False\<rparr>) r1
                              in bindR (split_loop k current_order t r2) (\<lambda>r3.
                                   let r4 = upd_block t (\<lambda>b. b\<lparr>b_next := None\<rparr>) r3
                                   in ret (b_address (block_pool r4 ! t),
                                           s\<lparr>g_regions := (g_regions s)[ri := r4]\<rparr>))
                          | _ \<Rightarrow> undef ''target_block''))"

definition pmm_alloc_size :: "u32 \<Rightarrow> pmm_state \<Rightarrow> (u32 \<times> pmm_state) res" where
  "pmm_alloc_size sz s =
     (if sz = 0 then ret (NULL, s)
      else
        case size_to_order sz of
          None \<Rightarrow>
            panic ''Requested allocation size %u is too large to be handled by the buddy allocator'' [sz]
        | Some k \<Rightarrow> pmm_alloc_order k s)"

definition pmm_alloc_pages :: "u32 \<Rightarrow> pmm_state \<Rightarrow> (u32 \<times> pmm_state) res" where
  "pmm_alloc_pages num_pages s =
     (if num_pages = 0 then ret (NULL, s)
      else if num_pages > (- 1) div PAGE_SIZE
      then panic ''Requested page count %u causes size overflow'' [num_pages]
      else pmm_alloc_size (num_pages * PAGE_SIZE) s)"

section \<open>Release\<close>

function coalesce_loop :: "nat \<Rightarrow> nat \<Rightarrow> pmm_region_t \<Rightarrow> (nat \<times> nat \<times> pmm_region_t) res" where
  "coalesce_loop k block region =
     (if k < MAX_ORDER
      then
        case get_buddy_block (Some block) (Some region) k of
          None \<Rightarrow> ret (k, block, region)
        | Some buddy_block \<Rightarrow>
            if \<not> b_is_free (block_pool region ! buddy_block) \<or>
               b_order (block_pool region ! buddy_block) \<noteq> k
            then ret (k, block, region)
            else
              bindR (remove_from_region_freelist (Some buddy_block) (Some region) k)
                (\<lambda>(removed, region1).
                  if \<not> removed
                  then panic ''Failed to remove buddy block from free list during coalescing'' []
                  else
                    case region1 of
                      None \<Rightarrow> undef ''region''
                    | Some r1 \<Rightarrow>
                        let block' = (if b_address (block_pool r1 ! buddy_block)
                                           < b_address (block_pool r1 ! block)
                                      then buddy_block else block);
                            r2 = upd_block buddy_block
                                   (\<lambda>b. b\<lparr>b_is_free := False, b_next := None\<rparr>) r1;
                            r3 = upd_block block'
                                   (\<lambda>b. b\<lparr>b_order := k + 1, b_is_free := True\<rparr>) r2
                        in coalesce_loop (k + 1) block' r3)
      else ret (k, block, region))"
  by pat_completeness auto
termination
  by (relation "measure (\<lambda>(k, _, _). MAX_ORDER - k)") auto

declare coalesce_loop.simps [simp del]

definition pmm_free :: "u32 \<Rightarrow> pmm_state \<Rightarrow> pmm_state res" where
  "pmm_free start_address s =
     (if start_address = NULL then ret s
      else if start_address AND (PAGE_SIZE - 1) \<noteq> 0
      then panic ''Attempted to free a pointer %p that is not properly aligned'' [start_address]
      else
        case find_region_by_address (g_regions s) start_address of
          None \<Rightarrow>
            panic ''Attempted to free memory at address %p which does not belong to any region''
              [start_address]
        | Some ri \<Rightarrow>
            let region = g_regions s ! ri
            in case find_block_by_address (Some region) start_address of
                 None \<Rightarrow>
                   panic ''Attempted to free memory at address %p which does not belong to any block''
                     [start_address]
               | Some block \<Rightarrow>
                   let b = block_pool region ! block
                   in if b_is_free b
                      then panic ''Double free detected for pointer %p'' [start_address]
                      else if b_order b > MAX_ORDER
                      then panic ''Attempted to free pointer %p with invalid block order %u''
                             [start_address, of_nat (b_order b)]
                      else if (start_address - r_start region) mod BLOCK_SIZE (b_order b) \<noteq> 0
                      then panic ''Attempted to free non-block-aligned pointer %p'' [start_address]
                      else
                        let r1 = upd_block block (\<lambda>x. x\<lparr>b_is_free := True\<rparr>) region
                        in bindR (coalesce_loop (b_order b) block r1) (\<lambda>(k, block', r2).
                             let r3 = add_to_region_freelist block' r2 k
                             in ret (s\<lparr>g_regions := (g_regions s)[ri := r3]\<rparr>)))"

end
