(* ===== verification/PMM_Region.thy ===== *)
theory PMM_Region
  imports PMM
begin

text \<open>
  One region of the physical memory manager against the buddy system of \<^verbatim>\<open>Buddy\<close>: what it
  means that a region's arrays represent a tiling (addresses, order and free tags, the threaded
  free lists), and that each step of the allocator's code performs the corresponding move on the
  tiling.
\<close>

section \<open>Addresses\<close>

lemma PAGE_SIZE_unat [simp]: "unat PAGE_SIZE = 4096"
  by (simp add: PAGE_SIZE_def)

lemma PAGE_SIZE_mask: "PAGE_SIZE - 1 = mask 12"
  by (simp add: PAGE_SIZE_def mask_eq_exp_minus_1)

definition page_addr :: "pmm_region_t \<Rightarrow> nat \<Rightarrow> u32" where
  "page_addr r i = r_start r + of_nat i * PAGE_SIZE"

text \<open>The shape of a region: what \<open>pmm_add_region\<close> sets up and nothing later changes.\<close>

definition region_geom :: "pmm_region_t \<Rightarrow> bool" where
  "region_geom r \<longleftrightarrow>
     0 < length (block_pool r) \<and>
     unat (block_pool_size r) = length (block_pool r) \<and>
     4096 dvd unat (r_start r) \<and>
     unat (r_end r) = unat (r_start r) + length (block_pool r) * 4096 \<and>
     length (free_lists r) = NUM_ORDERS \<and>
     (\<forall>i < length (block_pool r). b_address (block_pool r ! i) = page_addr r i)"

lemma geom_bound:
  assumes "region_geom r"
  shows "unat (r_start r) + length (block_pool r) * 4096 < 4294967296"
    and "length (block_pool r) < 1048576"
proof -
  show *: "unat (r_start r) + length (block_pool r) * 4096 < 4294967296"
    using assms unat_u32_lt [of "r_end r"] by (simp add: region_geom_def)
  then show "length (block_pool r) < 1048576" by linarith
qed

lemma unat_of_nat_mult_page:
  "i < 1048576 \<Longrightarrow> unat (of_nat i * PAGE_SIZE) = i * 4096"
  by (subst unat_mult_nowrap) (simp_all add: unat_of_nat_u32)

lemma unat_page_addr:
  assumes "i < 1048576" and "unat (r_start r) + i * 4096 < 4294967296"
  shows "unat (page_addr r i) = unat (r_start r) + i * 4096"
  unfolding page_addr_def using assms
  by (subst unat_add_nowrap) (simp_all add: unat_of_nat_mult_page)

lemma geom_page_addr:
  assumes "region_geom r" and "i \<le> length (block_pool r)"
  shows "unat (page_addr r i) = unat (r_start r) + i * 4096"
proof (rule unat_page_addr)
  show "i < 1048576" using geom_bound(2) [OF assms(1)] assms(2) by simp
  have "i * 4096 \<le> length (block_pool r) * 4096" using assms(2) by simp
  then show "unat (r_start r) + i * 4096 < 4294967296"
    using geom_bound(1) [OF assms(1)] by linarith
qed

lemma find_block_page_addr:
  assumes g: "region_geom r" and i: "i < length (block_pool r)"
  shows "find_block_by_address (Some r) (page_addr r i) = Some i"
proof -
  have u: "unat (page_addr r i) = unat (r_start r) + i * 4096"
    using g i by (intro geom_page_addr) simp_all
  have "unat (r_start r) \<le> unat (page_addr r i)" and "unat (page_addr r i) < unat (r_end r)"
    using g i u by (simp_all add: region_geom_def)
  moreover have "page_addr r i AND (PAGE_SIZE - 1) = 0"
    unfolding PAGE_SIZE_mask and_mask_eq_0_iff_dvd using g by (simp add: u region_geom_def)
  moreover have "unat ((page_addr r i - r_start r) div PAGE_SIZE) = i"
    using u by (simp add: unat_div unat_sub_nowrap)
  moreover have "\<not> block_pool_size r \<le> (page_addr r i - r_start r) div PAGE_SIZE"
    using g i calculation(4) by (simp add: word_le_nat_alt region_geom_def)
  ultimately show ?thesis
    by (simp add: find_block_by_address_def Let_def word_le_nat_alt word_less_nat_alt)
qed

lemma find_block_SomeD:
  assumes g: "region_geom r" and f: "find_block_by_address (Some r) a = Some i"
  shows "i < length (block_pool r)" and "a = page_addr r i"
proof -
  have b: "r_start r \<le> a" "a < r_end r" "a AND (PAGE_SIZE - 1) = 0"
    and i: "i = unat ((a - r_start r) div PAGE_SIZE)"
    using f by (auto simp: find_block_by_address_def Let_def not_less split: if_splits)
  have d: "unat (a - r_start r) = unat a - unat (r_start r)"
    using b(1) by (simp add: unat_sub)
  have "4096 dvd unat a"
    using b(3) unfolding PAGE_SIZE_mask and_mask_eq_0_iff_dvd by simp
  then have "4096 dvd unat a - unat (r_start r)"
    using g by (simp add: region_geom_def dvd_diff_nat)
  then have i2: "i * 4096 = unat a - unat (r_start r)"
    using i d by (simp add: unat_div)
  moreover have "unat (r_start r) \<le> unat a" "unat a < unat (r_end r)"
    using b by (simp_all add: word_le_nat_alt word_less_nat_alt)
  ultimately show "i < length (block_pool r)"
    using g by (simp add: region_geom_def)
  with g i2 \<open>unat (r_start r) \<le> unat a\<close> have "unat a = unat (page_addr r i)"
    by (simp add: geom_page_addr)
  then show "a = page_addr r i" by (rule unsigned_word_eqI)
qed

lemma xor_less_exp: "(a :: nat) < 2 ^ m \<Longrightarrow> b < 2 ^ m \<Longrightarrow> a XOR b < 2 ^ m"
  by (metis take_bit_nat_eq_self_iff take_bit_xor)

lemma buddy_relative:
  "of_nat h * PAGE_SIZE XOR BLOCK_SIZE k = of_nat (buddy h k) * PAGE_SIZE"
proof -
  have "(of_nat h * PAGE_SIZE :: u32) = of_nat (push_bit 12 h)"
    by (simp add: PAGE_SIZE_def push_bit_eq_mult)
  moreover have "BLOCK_SIZE k = of_nat (push_bit 12 (2 ^ k))"
    by (simp add: BLOCK_SIZE_def PAGE_SIZE_def push_bit_eq_mult)
  ultimately have "of_nat h * PAGE_SIZE XOR BLOCK_SIZE k
      = of_nat (push_bit 12 h XOR push_bit 12 (2 ^ k))"
    by (simp only: of_nat_xor_eq)
  also have "\<dots> = of_nat (push_bit 12 (buddy h k))"
    by (simp add: buddy_def push_bit_xor)
  finally show ?thesis
    by (simp add: PAGE_SIZE_def push_bit_eq_mult)
qed

text \<open>The buddy computed on addresses is the buddy of the page index, if the region has it.\<close>

lemma get_buddy_block_eq:
  assumes g: "region_geom r" and h: "h < length (block_pool r)" and k: "k < MAX_ORDER"
  shows "get_buddy_block (Some h) (Some r) k =
    (if buddy h k < length (block_pool r) then Some (buddy h k) else None)"
proof -
  let ?n = "length (block_pool r)" and ?b = "buddy h k"
  let ?a = "r_start r + ((b_address (block_pool r ! h) - r_start r) XOR BLOCK_SIZE k)"
  have a: "?a = page_addr r ?b"
    using g h by (simp add: region_geom_def page_addr_def buddy_relative)
  have "(2 :: nat) ^ k < 2 ^ 20"
    using k by (intro power_strict_increasing) (simp_all add: MAX_ORDER_def)
  then have b20: "?b < 1048576"
    unfolding buddy_def using geom_bound(2) [OF g] h xor_less_exp [of h 20 "2 ^ k"] by simp
  show ?thesis
  proof (cases "?b < ?n")
    case True
    then have "unat (page_addr r ?b) = unat (r_start r) + ?b * 4096"
      using g by (intro geom_page_addr) simp_all
    then have "r_start r \<le> page_addr r ?b" and "page_addr r ?b < r_end r"
      using g True by (simp_all add: word_le_nat_alt word_less_nat_alt region_geom_def)
    then show ?thesis
      using True a find_block_page_addr [OF g True]
      by (simp add: get_buddy_block_def Let_def not_less not_le)
  next
    case False
    have "page_addr r ?b < r_start r \<or> r_end r \<le> page_addr r ?b"
    proof (cases "unat (r_start r) + ?b * 4096 < 4294967296")
      case True
      then have "unat (page_addr r ?b) = unat (r_start r) + ?b * 4096"
        using b20 by (intro unat_page_addr) simp_all
      then have "unat (r_end r) \<le> unat (page_addr r ?b)"
        using g False by (simp add: region_geom_def)
      then show ?thesis by (simp add: word_le_nat_alt)
    next
      case wrap: False
      have "unat (page_addr r ?b) = unat (r_start r) + ?b * 4096 - 4294967296"
        unfolding page_addr_def using wrap b20
        by (subst unat_add_wrap) (simp_all add: unat_of_nat_mult_page)
      then have "unat (page_addr r ?b) < unat (r_start r)"
        using wrap b20 by simp
      then show ?thesis by (simp add: word_less_nat_alt)
    qed
    then show ?thesis
      using False a by (auto simp: get_buddy_block_def Let_def)
  qed
qed

section \<open>Threaded lists\<close>

fun chain :: "pmm_block_t list \<Rightarrow> nat option \<Rightarrow> nat list \<Rightarrow> bool" where
  "chain pool p [] \<longleftrightarrow> p = None"
| "chain pool p (i # is) \<longleftrightarrow> p = Some i \<and> i < length pool \<and> chain pool (b_next (pool ! i)) is"

lemma chain_cong:
  assumes "length pool' = length pool"
    and "\<And>i. i \<in> set xs \<Longrightarrow> b_next (pool' ! i) = b_next (pool ! i)"
  shows "chain pool' p xs = chain pool p xs"
  using assms(2) by (induction xs arbitrary: p) (auto simp: assms(1))

lemma chain_next_last:
  "chain pool p (ys @ h # zs) \<Longrightarrow> ys \<noteq> [] \<Longrightarrow> b_next (pool ! last ys) = Some h"
  by (induction ys arbitrary: p) (auto split: if_splits)

lemma chain_range: "chain pool p xs \<Longrightarrow> i \<in> set xs \<Longrightarrow> i < length pool"
  by (induction xs arbitrary: p) auto

definition slot_after :: "nat list \<Rightarrow> slot" where
  "slot_after xs = (if xs = [] then HeadSlot else NextSlot (last xs))"

lemma slot_read_after:
  assumes "chain (block_pool r) (slot_read r k s) (x # xs)"
  shows "slot_read r k (NextSlot x) = b_next (block_pool r ! x)"
    and "chain (block_pool r) (slot_read r k (NextSlot x)) xs"
  using assms by (auto simp: slot_read_def)

text \<open>The walk over a finite list stops at the slot that holds the block.\<close>

lemma find_slot_chain:
  assumes "chain (block_pool r) (slot_read r k s) (xs @ b # ys)" and "b \<notin> set xs"
  shows "find_slot r k b s = Some (if xs = [] then s else NextSlot (last xs))"
  using assms
proof (induction xs arbitrary: s)
  case Nil
  then show ?case by (subst find_slot.simps) simp
next
  case (Cons x xs)
  have c: "chain (block_pool r) (slot_read r k (NextSlot x)) (xs @ b # ys)"
    using Cons.prems(1) slot_read_after(2) [of r k s x "xs @ b # ys"] by simp
  have "slot_read r k s = Some x" and "x \<noteq> b" using Cons.prems by auto
  then have "find_slot r k b s = find_slot r k b (NextSlot x)"
    by (subst find_slot.simps) simp
  also have "\<dots> = Some (if xs = [] then NextSlot x else NextSlot (last xs))"
    using Cons.IH [OF c] Cons.prems(2) by simp
  finally show ?case by simp
qed

lemma find_slot_absent:
  assumes "chain (block_pool r) (slot_read r k s) xs" and "b \<notin> set xs"
  obtains s' where "find_slot r k b s = Some s'" and "slot_read r k s' = None"
  using assms
proof (induction xs arbitrary: s thesis)
  case Nil
  then show ?case by (simp add: find_slot.simps)
next
  case (Cons x xs)
  obtain s' where "find_slot r k b (NextSlot x) = Some s'" and "slot_read r k s' = None"
    using Cons.IH [of "NextSlot x"] Cons.prems slot_read_after(2) [of r k s x xs] by auto
  moreover have "find_slot r k b s = find_slot r k b (NextSlot x)"
    using Cons.prems by (subst find_slot.simps) auto
  ultimately show ?case using Cons.prems(1) by simp
qed

lemma upd_block_fields [simp]:
  "free_lists (upd_block i f r) = free_lists r"
  "block_pool_size (upd_block i f r) = block_pool_size r"
  "r_start (upd_block i f r) = r_start r"
  "r_end (upd_block i f r) = r_end r"
  "block_pool (upd_block i f r) = (block_pool r)[i := f (block_pool r ! i)]"
  by (simp_all add: upd_block_def)

text \<open>
  Unlinking \<open>b\<close>: the list of order \<open>k\<close> loses exactly \<open>b\<close>, the \<open>next\<close> field of \<open>b\<close>
  becomes NULL, and every other \<open>next\<close> field off the list is untouched.
\<close>

lemma chain_unlink:
  assumes c: "chain pool p (xs @ b # ys)" and d: "distinct (xs @ b # ys)" and ne: "xs \<noteq> []"
    and pool': "pool' = (pool[last xs := (pool ! last xs)\<lparr>b_next := b_next (pool ! b)\<rparr>])
                  [b := v]"
  shows "chain pool' p (xs @ ys)"
  using c d ne pool'
proof (induction xs arbitrary: p)
  case Nil
  then show ?case by simp
next
  case (Cons x xs)
  show ?case
  proof (cases "xs = []")
    case True
    have tail: "chain pool' q ys = chain pool q ys" for q
    proof (rule chain_cong)
      fix i assume "i \<in> set ys"
      then have "i \<noteq> x" and "i \<noteq> b" using Cons.prems(2) by auto
      then show "b_next (pool' ! i) = b_next (pool ! i)" using True Cons.prems(4) by simp
    qed (simp add: Cons.prems(4))
    have "b_next (pool' ! x) = b_next (pool ! b)"
      using Cons.prems True Cons.prems(4) by auto
    then show ?thesis using Cons.prems True tail by auto
  next
    case False
    then have l: "last (x # xs) = last xs" and "last xs \<in> set xs" by simp_all
    then have "x \<noteq> last xs" and "x \<noteq> b" using Cons.prems(2) by auto
    then have "b_next (pool' ! x) = b_next (pool ! x)"
      using Cons.prems(4) l by simp
    moreover have "chain pool' (b_next (pool ! x)) (xs @ ys)"
      using Cons.IH [of "b_next (pool ! x)"] Cons.prems False l by simp
    ultimately show ?thesis using Cons.prems(1,4) by auto
  qed
qed

section \<open>A region represents a tiling\<close>

definition free_list_ok :: "pmm_region_t \<Rightarrow> tiling \<Rightarrow> nat \<Rightarrow> bool" where
  "free_list_ok r B k \<longleftrightarrow>
     (\<exists>xs. chain (block_pool r) (free_lists r ! k) xs \<and> distinct xs \<and>
           set xs = {h. B h = Some (k, True)})"

definition tags_ok :: "nat set \<Rightarrow> pmm_block_t list \<Rightarrow> tiling \<Rightarrow> bool" where
  "tags_ok pend pool B \<longleftrightarrow>
     (\<forall>h k f. B h = Some (k, f) \<longrightarrow>
        b_order (pool ! h) = k \<and> b_is_free (pool ! h) = (f \<or> h \<in> pend))"

text \<open>
  \<open>pend\<close> holds the blocks in flight: tagged free but not linked into a list, as the code has
  them between two statements. The fields of pages inside a block are not constrained.
\<close>

definition region_core :: "nat set \<Rightarrow> pmm_region_t \<Rightarrow> tiling \<Rightarrow> bool" where
  "region_core pend r B \<longleftrightarrow>
     region_geom r \<and> is_tiling (length (block_pool r)) B \<and>
     tags_ok pend (block_pool r) B \<and> (\<forall>k \<le> MAX_ORDER. free_list_ok r B k)"

definition region_inv :: "pmm_region_t \<Rightarrow> tiling \<Rightarrow> bool" where
  "region_inv r B \<longleftrightarrow> region_core {} r B \<and> coalesced B"

lemma region_coreD:
  assumes "region_core pend r B"
  shows "region_geom r" and "is_tiling (length (block_pool r)) B"
    and "tags_ok pend (block_pool r) B" and "k \<le> MAX_ORDER \<Longrightarrow> free_list_ok r B k"
  using assms by (simp_all add: region_core_def)

text \<open>Any rewrite of the pool that keeps the addresses and the links of listed blocks.\<close>

lemma region_core_pool:
  assumes core: "region_core pend r B"
    and len: "length pool' = length (block_pool r)"
    and addr: "\<And>i. i < length (block_pool r) \<Longrightarrow>
                 b_address (pool' ! i) = b_address (block_pool r ! i)"
    and nxt: "\<And>h k. B h = Some (k, True) \<Longrightarrow> b_next (pool' ! h) = b_next (block_pool r ! h)"
    and same: "\<And>h k. B' h = Some (k, True) \<longleftrightarrow> B h = Some (k, True)"
    and til: "is_tiling (length (block_pool r)) B'"
    and tags: "tags_ok pend' pool' B'"
  shows "region_core pend' (r\<lparr>block_pool := pool'\<rparr>) B'"
proof -
  note D = region_coreD [OF core]
  have "region_geom (r\<lparr>block_pool := pool'\<rparr>)"
    using D(1) len addr by (simp add: region_geom_def page_addr_def)
  moreover have "free_list_ok (r\<lparr>block_pool := pool'\<rparr>) B' k" if k: "k \<le> MAX_ORDER" for k
  proof -
    obtain xs where xs: "chain (block_pool r) (free_lists r ! k) xs" "distinct xs"
      "set xs = {h. B h = Some (k, True)}"
      using D(4) [OF k] by (auto simp: free_list_ok_def)
    have "chain pool' (free_lists r ! k) xs"
      using xs chain_cong [OF len, of xs] nxt by simp
    then show ?thesis
      using xs same by (auto simp: free_list_ok_def)
  qed
  ultimately show ?thesis
    using len til tags by (simp add: region_core_def)
qed

lemma upd_block_eq: "upd_block i f r = r\<lparr>block_pool := (block_pool r)[i := f (block_pool r ! i)]\<rparr>"
  by (simp add: upd_block_def)

lemma tags_okD:
  "tags_ok pend pool B \<Longrightarrow> B h = Some (k, f) \<Longrightarrow> b_order (pool ! h) = k"
  "tags_ok pend pool B \<Longrightarrow> B h = Some (k, f) \<Longrightarrow> b_is_free (pool ! h) = (f \<or> h \<in> pend)"
  by (auto simp: tags_ok_def)

text \<open>Only the heads of blocks matter in the set of blocks in flight.\<close>

lemma core_weaken:
  assumes "region_core pend r B" and "\<And>h k f. B h = Some (k, f) \<Longrightarrow> h \<in> pend \<longleftrightarrow> h \<in> pend'"
  shows "region_core pend' r B"
  using assms unfolding region_core_def tags_ok_def by blast

text \<open>Setting and clearing the free tag of a block that is not listed.\<close>

lemma core_set_free:
  assumes core: "region_core pend r B" and h: "B h = Some (k, False)"
    and p': "pend' = (if v then insert h pend else pend - {h})"
  shows "region_core pend' (upd_block h (\<lambda>b. b\<lparr>b_is_free := v\<rparr>) r) B"
  unfolding upd_block_eq
proof (rule region_core_pool [OF core])
  note D = region_coreD [OF core]
  have "h < length (block_pool r)" using tiling_block(4) [OF D(2) h] .
  then show "tags_ok pend' ((block_pool r)[h := (block_pool r ! h)\<lparr>b_is_free := v\<rparr>]) B"
    using D(3) h unfolding tags_ok_def p' by (auto simp: nth_upd)
qed (use region_coreD(2) [OF core] in \<open>auto simp: nth_upd\<close>)

lemma core_clear_next:
  assumes core: "region_core pend r B" and h: "B h = Some (k, False)"
  shows "region_core pend (upd_block h (\<lambda>b. b\<lparr>b_next := v\<rparr>) r) B"
  unfolding upd_block_eq
proof (rule region_core_pool [OF core])
  note D = region_coreD [OF core]
  show "tags_ok pend ((block_pool r)[h := (block_pool r ! h)\<lparr>b_next := v\<rparr>]) B"
    using D(3) tiling_block(4) [OF D(2)] unfolding tags_ok_def by (auto simp: nth_upd)
qed (use region_coreD(2) [OF core] h in \<open>auto simp: nth_upd\<close>)

text \<open>Linking a block in flight into the list of its order.\<close>

lemma core_add:
  assumes core: "region_core pend r B" and h: "B h = Some (k, False)" and p: "h \<in> pend"
  shows "region_core (pend - {h}) (add_to_region_freelist h r k) (B(h \<mapsto> (k, True)))"
proof -
  let ?r = "add_to_region_freelist h r k" and ?B = "B(h \<mapsto> (k, True))"
  let ?pool = "(block_pool r)[h := (block_pool r ! h)\<lparr>b_next := free_lists r ! k\<rparr>]"
  note D = region_coreD [OF core]
  note hb = tiling_block [OF D(2) h]
  have r: "block_pool ?r = ?pool" "free_lists ?r = (free_lists r)[k := Some h]"
    "block_pool_size ?r = block_pool_size r" "r_start ?r = r_start r" "r_end ?r = r_end r"
    by (simp_all add: add_to_region_freelist_def Let_def)
  have fl: "k < length (free_lists r)"
    using D(1) hb(1) by (simp add: region_geom_def NUM_ORDERS_def)
  have geom: "region_geom ?r"
    using D(1) by (auto simp: region_geom_def r page_addr_def nth_upd)
  have "tags_ok (pend - {h}) ?pool ?B"
    using D(3) h hb(4) p unfolding tags_ok_def by (auto simp: nth_upd)
  moreover have "free_list_ok ?r ?B j" if j: "j \<le> MAX_ORDER" for j
  proof -
    obtain xs where xs: "chain (block_pool r) (free_lists r ! j) xs" "distinct xs"
      "set xs = {g. B g = Some (j, True)}"
      using D(4) [OF j] by (auto simp: free_list_ok_def)
    have "h \<notin> set xs" using xs(3) h by simp
    then have c: "chain ?pool q xs = chain (block_pool r) q xs" for q
      by (intro chain_cong) (auto simp: nth_upd)
    show ?thesis
    proof (cases "j = k")
      case True
      have "chain ?pool (Some h) (h # xs)" using c xs(1) True hb(4) by simp
      moreover have "set (h # xs) = {g. ?B g = Some (j, True)}" using xs(3) True by auto
      ultimately show ?thesis
        using \<open>h \<notin> set xs\<close> xs(2) True fl hb(4) unfolding free_list_ok_def r
        by (intro exI [of _ "h # xs"]) simp
    next
      case False
      then have "set xs = {g. ?B g = Some (j, True)}" using xs(3) h by auto
      then show ?thesis
        using c xs(1,2) False unfolding free_list_ok_def r by (intro exI [of _ xs]) simp
    qed
  qed
  ultimately show ?thesis
    using geom tiling_retag [OF D(2) h] by (simp add: region_core_def r)
qed

text \<open>Unlinking a free block.\<close>

lemma core_relink:
  assumes core: "region_core pend r B" and h: "B h = Some (k, True)"
    and len: "length pool' = length (block_pool r)" "length fl' = length (free_lists r)"
    and keep: "\<And>i. i < length (block_pool r) \<Longrightarrow>
       b_address (pool' ! i) = b_address (block_pool r ! i) \<and>
       b_order (pool' ! i) = b_order (block_pool r ! i) \<and>
       b_is_free (pool' ! i) = b_is_free (block_pool r ! i)"
    and heads: "\<And>j. j \<noteq> k \<Longrightarrow> fl' ! j = free_lists r ! j"
    and nxt: "\<And>g. B g \<noteq> Some (k, True) \<Longrightarrow> b_next (pool' ! g) = b_next (block_pool r ! g)"
    and xs': "chain pool' (fl' ! k) xs'" "distinct xs'"
      "set xs' = {g. B g = Some (k, True)} - {h}"
  shows "region_core (insert h pend) (r\<lparr>free_lists := fl', block_pool := pool'\<rparr>)
           (B(h \<mapsto> (k, False)))"
proof -
  let ?r = "r\<lparr>free_lists := fl', block_pool := pool'\<rparr>" and ?B = "B(h \<mapsto> (k, False))"
  note D = region_coreD [OF core]
  have "region_geom ?r"
    using D(1) len keep by (simp add: region_geom_def page_addr_def)
  moreover have "tags_ok (insert h pend) pool' ?B"
    unfolding tags_ok_def
  proof (intro allI impI)
    fix g j f assume g: "?B g = Some (j, f)"
    show "b_order (pool' ! g) = j \<and> b_is_free (pool' ! g) = (f \<or> g \<in> insert h pend)"
      using g D(3) keep [of g] tiling_block(4) [OF D(2)] h
      unfolding tags_ok_def by (auto split: if_splits)
  qed
  moreover have "free_list_ok ?r ?B j" if j: "j \<le> MAX_ORDER" for j
  proof (cases "j = k")
    case True
    have "set xs' = {g. ?B g = Some (j, True)}" using xs'(3) True by auto
    then show ?thesis using xs' True by (auto simp: free_list_ok_def)
  next
    case False
    obtain xs where xs: "chain (block_pool r) (free_lists r ! j) xs" "distinct xs"
      "set xs = {g. B g = Some (j, True)}"
      using D(4) [OF j] by (auto simp: free_list_ok_def)
    have "chain pool' (fl' ! j) xs = chain (block_pool r) (fl' ! j) xs"
      using xs(3) False by (intro chain_cong [OF len(1)] nxt) auto
    moreover have "set xs = {g. ?B g = Some (j, True)}" using xs(3) False h by auto
    ultimately show ?thesis using xs(1,2) heads [OF False] by (auto simp: free_list_ok_def)
  qed
  ultimately show ?thesis
    using tiling_retag [OF D(2) h] len by (simp add: region_core_def)
qed

definition same_frame :: "pmm_region_t \<Rightarrow> pmm_region_t \<Rightarrow> bool" where
  "same_frame r r' \<longleftrightarrow> r_start r' = r_start r \<and> r_end r' = r_end r \<and>
     length (block_pool r') = length (block_pool r)"

lemma core_remove:
  assumes core: "region_core pend r B" and h: "B h = Some (k, True)"
  obtains r' where "remove_from_region_freelist (Some h) (Some r) k = ret (True, Some r')"
    and "region_core (insert h pend) r' (B(h \<mapsto> (k, False)))" and "same_frame r r'"
    and "block_pool r' ! h = (block_pool r ! h)\<lparr>b_next := None\<rparr>"
    and "\<And>g. B g \<noteq> Some (k, True) \<Longrightarrow> block_pool r' ! g = block_pool r ! g"
    and "\<And>g. b_order (block_pool r' ! g) = b_order (block_pool r ! g)"
proof -
  note D = region_coreD [OF core]
  note hb = tiling_block [OF D(2) h]
  let ?P = "block_pool r" and ?F = "free_lists r"
  have fl: "k < length ?F" using D(1) hb(1) by (simp add: region_geom_def NUM_ORDERS_def)
  obtain xs where xs: "chain ?P (?F ! k) xs" "distinct xs" "set xs = {g. B g = Some (k, True)}"
    using D(4) [OF hb(1)] by (auto simp: free_list_ok_def)
  then have "h \<in> set xs" using h by simp
  then obtain ys zs where sp: "xs = ys @ h # zs" by (meson split_list)
  have hn: "h \<notin> set ys" "h \<notin> set zs" using xs(2) sp by auto
  have hd: "slot_read r k HeadSlot = ?F ! k" by (simp add: slot_read_def)
  have fs: "find_slot r k h HeadSlot = Some (slot_after ys)"
    using find_slot_chain [of r k HeadSlot ys h zs] xs(1) hn hd
    by (simp add: sp slot_after_def)
  have set': "set (ys @ zs) = {g. B g = Some (k, True)} - {h}"
    using xs(3) hn unfolding sp by auto
  have dist: "distinct (ys @ zs)" using xs(2) unfolding sp by auto
  show thesis
  proof (cases "ys = []")
    case True
    let ?fl = "?F[k := b_next (?P ! h)]" and ?pool = "?P[h := (?P ! h)\<lparr>b_next := None\<rparr>]"
    have "chain ?pool (?fl ! k) (ys @ zs)"
    proof -
      have "chain ?pool (b_next (?P ! h)) zs = chain ?P (b_next (?P ! h)) zs"
        using hn by (intro chain_cong) (auto simp: nth_upd)
      then show ?thesis using xs(1) True fl by (simp add: sp)
    qed
    then have rc: "region_core (insert h pend) (r\<lparr>free_lists := ?fl, block_pool := ?pool\<rparr>)
        (B(h \<mapsto> (k, False)))"
      using dist set' h by (intro core_relink [OF core h]) (auto simp: nth_upd)
    have rm: "remove_from_region_freelist (Some h) (Some r) k =
        ret (True, Some (r\<lparr>free_lists := ?fl, block_pool := ?pool\<rparr>))"
      using fs True xs(1)
      by (simp add: remove_from_region_freelist_def slot_after_def slot_read_def slot_write_def
          Let_def sp upd_block_eq)
    show thesis by (rule that [OF rm rc]) (use h hb(4) in \<open>auto simp: same_frame_def nth_upd\<close>)
  next
    case False
    let ?l = "last ys"
    let ?pool = "(?P[?l := (?P ! ?l)\<lparr>b_next := b_next (?P ! h)\<rparr>])[h := (?P ! h)\<lparr>b_next := None\<rparr>]"
    have l: "?l \<in> set ys" using False by simp
    then have lh: "?l \<noteq> h" "B ?l = Some (k, True)" using hn xs(3) unfolding sp by auto
    have "chain ?pool (?F ! k) (ys @ zs)"
      using xs(1,2) unfolding sp by (rule chain_unlink) (use False in simp_all)
    then have rc: "region_core (insert h pend) (r\<lparr>free_lists := ?F, block_pool := ?pool\<rparr>)
        (B(h \<mapsto> (k, False)))"
      using dist set' h lh by (intro core_relink [OF core h]) (auto simp: nth_upd)
    have "b_next (?P ! ?l) = Some h"
      using xs(1) False chain_next_last [of ?P "?F ! k" ys h zs] by (simp add: sp)
    then have rm: "remove_from_region_freelist (Some h) (Some r) k =
        ret (True, Some (r\<lparr>free_lists := ?F, block_pool := ?pool\<rparr>))"
      using fs False lh
      by (simp add: remove_from_region_freelist_def slot_after_def slot_read_def slot_write_def
          Let_def upd_block_eq nth_upd)
    show thesis by (rule that [OF rm rc]) (use h hb(4) lh in \<open>auto simp: same_frame_def nth_upd\<close>)
  qed
qed

section \<open>Splitting\<close>

lemma page_addr_add: "page_addr r i + BLOCK_SIZE k = page_addr r (i + 2 ^ k)"
  by (simp add: page_addr_def BLOCK_SIZE_def push_bit_one_eq algebra_simps)

lemma core_addr:
  "region_core pend r B \<Longrightarrow> B h = Some (k, f) \<Longrightarrow> b_address (block_pool r ! h) = page_addr r h"
  using tiling_block(4) by (auto simp: region_core_def region_geom_def)

lemma core_find:
  "region_core pend r B \<Longrightarrow> B h = Some (k, f) \<Longrightarrow>
   find_block_by_address (Some r) (page_addr r h) = Some h"
  using tiling_block(4) find_block_page_addr by (auto simp: region_core_def)

lemma core_split:
  assumes core: "region_core {} r B" and t: "B t = Some (Suc c, False)"
    and u: "u = t + 2 ^ c"
    and r3: "r3 = upd_block u (\<lambda>b. b\<lparr>b_is_free := True, b_next := None\<rparr>)
               (upd_block u (\<lambda>b. b\<lparr>b_order := c\<rparr>) (upd_block t (\<lambda>b. b\<lparr>b_order := c\<rparr>) r))"
  shows "find_block_by_address (Some r) (b_address (block_pool r ! t) + BLOCK_SIZE c) = Some u"
    and "region_core {} (add_to_region_freelist u r3 c) (B(t \<mapsto> (c, False), u \<mapsto> (c, True)))"
proof -
  note D = region_coreD [OF core]
  note tb = tiling_block [OF D(2) t]
  let ?B = "B(t \<mapsto> (c, False), u \<mapsto> (c, False))"
  have un: "u < length (block_pool r)" using tb(3) u zero_less_power [of "2 :: nat" c]
    unfolding power_Suc by linarith
  have uN: "B u = None" unfolding u by (rule tiling_inner_None [OF D(2) t]) simp_all
  have ut: "u \<noteq> t" by (simp add: u)
  show "find_block_by_address (Some r) (b_address (block_pool r ! t) + BLOCK_SIZE c) = Some u"
    using find_block_page_addr [OF D(1) un] core_addr [OF core t] by (simp add: page_addr_add u)
  have "region_core {u} (r\<lparr>block_pool := block_pool r3\<rparr>) ?B"
  proof (rule region_core_pool [OF core])
    show "is_tiling (length (block_pool r)) ?B"
      unfolding u by (rule tiling_split [OF D(2) t])
    show "tags_ok {u} (block_pool r3) ?B"
      using D(3) t tb(4) un ut unfolding tags_ok_def r3 by (auto simp: nth_upd split: if_splits)
    show "b_next (block_pool r3 ! h) = b_next (block_pool r ! h)"
      if "B h = Some (k, True)" for h k
      using that t uN by (auto simp: r3 nth_upd)
    show "(?B h = Some (k, True)) = (B h = Some (k, True))" for h k
      using t uN by auto
  qed (simp_all add: r3 nth_upd)
  moreover have "r\<lparr>block_pool := block_pool r3\<rparr> = r3"
    by (simp add: r3 upd_block_eq)
  ultimately have "region_core {u} r3 ?B" by simp
  from core_add [OF this, of u c]
  show "region_core {} (add_to_region_freelist u r3 c) (B(t \<mapsto> (c, False), u \<mapsto> (c, True)))"
    by simp
qed

lemma same_frame_refl: "same_frame r r"
  by (simp add: same_frame_def)

lemma same_frame_trans: "same_frame r r' \<Longrightarrow> same_frame r' r'' \<Longrightarrow> same_frame r r''"
  by (simp add: same_frame_def)

lemma same_frame_upd [simp]: "same_frame r (upd_block i f r)"
  by (simp add: same_frame_def)

lemma same_frame_add [simp]: "same_frame r (add_to_region_freelist i r k)"
  by (simp add: same_frame_def add_to_region_freelist_def Let_def)

lemma split_stop: "j \<le> k \<Longrightarrow> split_loop k j t r = ret r" "j \<le> k \<Longrightarrow> tsplit k j t B = B"
  by (simp_all add: split_loop.simps [of k j] tsplit.simps [of k j])

lemma split_loop_correct:
  assumes "region_core {} r B" and "B t = Some (j, False)" and "k \<le> j"
  shows "\<exists>r'. split_loop k j t r = ret r' \<and> region_core {} r' (tsplit k j t B) \<and> same_frame r r'"
  using assms
proof (induction j arbitrary: r B)
  case 0
  then show ?case by (simp add: split_stop same_frame_def)
next
  case (Suc c)
  show ?case
  proof (cases "k < Suc c")
    case False
    then show ?thesis using Suc.prems by (simp add: split_stop same_frame_def)
  next
    case True
    let ?u = "t + 2 ^ c"
    let ?r3 = "upd_block ?u (\<lambda>b. b\<lparr>b_is_free := True, b_next := None\<rparr>)
       (upd_block ?u (\<lambda>b. b\<lparr>b_order := c\<rparr>) (upd_block t (\<lambda>b. b\<lparr>b_order := c\<rparr>) r))"
    let ?r4 = "add_to_region_freelist ?u ?r3 c"
    let ?B = "B(t \<mapsto> (c, False), ?u \<mapsto> (c, True))"
    note sp = core_split [OF Suc.prems(1,2) refl refl]
    have s1: "split_loop k (Suc c) t r = split_loop k c t ?r4"
      using True sp(1) by (subst split_loop.simps) (simp add: Let_def)
    have s2: "tsplit k (Suc c) t B = tsplit k c t ?B"
      using True by (subst tsplit.simps) simp
    have fr: "same_frame r ?r4"
      by (rule same_frame_trans [OF _ same_frame_add]) (simp add: same_frame_def)
    have "?B t = Some (c, False)" and "k \<le> c" using True by simp_all
    then obtain r' where "split_loop k c t ?r4 = ret r'" and "region_core {} r' (tsplit k c t ?B)"
      and "same_frame ?r4 r'"
      using Suc.IH [OF sp(2)] by blast
    then show ?thesis
      using same_frame_trans [OF fr] unfolding s1 s2 by blast
  qed
qed

section \<open>Coalescing\<close>

lemma core_add1:
  "region_core {h} r B \<Longrightarrow> B h = Some (k, False) \<Longrightarrow>
   region_core {} (add_to_region_freelist h r k) (B(h \<mapsto> (k, True)))"
  using core_add [of "{h}" r B h k] by simp

lemma core_merge:
  assumes core: "region_core {h, b} r B" and h: "B h = Some (k, False)"
    and bB: "B b = Some (k, False)" and b: "b = buddy h k" and k: "k < MAX_ORDER"
    and r3: "r3 = upd_block (min h b) (\<lambda>x. x\<lparr>b_order := k + 1, b_is_free := True\<rparr>)
               (upd_block b (\<lambda>x. x\<lparr>b_is_free := False, b_next := None\<rparr>) r)"
  shows "region_core {min h b} r3 (B(max h b := None, min h b \<mapsto> (Suc k, False)))"
proof -
  note D = region_coreD [OF core]
  let ?B = "B(max h b := None, min h b \<mapsto> (Suc k, False))"
  have hb: "h \<noteq> b" using b buddy_neq by metis
  have n: "h < length (block_pool r)" "b < length (block_pool r)"
    using tiling_block(4) [OF D(2) h] tiling_block(4) [OF D(2) bB] by simp_all
  have "region_core {min h b} (r\<lparr>block_pool := block_pool r3\<rparr>) ?B"
  proof (rule region_core_pool [OF core])
    show "is_tiling (length (block_pool r)) ?B"
      using tiling_merge_buddy [OF D(2) h bB [unfolded b] k] by (simp add: b)
    show "tags_ok {min h b} (block_pool r3) ?B"
      using D(3) n hb unfolding tags_ok_def r3
      by (auto simp: nth_upd min_def max_def split: if_splits)
    show "b_next (block_pool r3 ! g) = b_next (block_pool r ! g)"
      if "B g = Some (j, True)" for g j
      using that h bB by (auto simp: r3 nth_upd min_def)
    show "(?B g = Some (j, True)) = (B g = Some (j, True))" for g j
      using h bB by (auto simp: min_def max_def)
  qed (simp_all add: r3 nth_upd)
  moreover have "r\<lparr>block_pool := block_pool r3\<rparr> = r3"
    by (simp add: r3 upd_block_eq)
  ultimately show ?thesis by simp
qed

lemma page_addr_less_iff:
  assumes "region_geom r" and "i < length (block_pool r)" and "j < length (block_pool r)"
  shows "page_addr r i < page_addr r j \<longleftrightarrow> i < j"
  using assms by (simp add: word_less_nat_alt geom_page_addr)

lemma coalesce_stop:
  assumes core: "region_core {h} r B" and h: "B h = Some (k, False)"
    and stop: "\<not> (k < MAX_ORDER \<and> B (buddy h k) = Some (k, True))"
  shows "coalesce_loop k h r = ret (k, h, r)"
proof (cases "k < MAX_ORDER")
  case False
  then show ?thesis by (subst coalesce_loop.simps) simp
next
  case k: True
  note D = region_coreD [OF core]
  let ?b = "buddy h k" and ?n = "length (block_pool r)"
  have gb: "get_buddy_block (Some h) (Some r) k = (if ?b < ?n then Some ?b else None)"
    by (rule get_buddy_block_eq [OF D(1) tiling_block(4) [OF D(2) h] k])
  show ?thesis
  proof (cases "?b < ?n")
    case True
    then obtain k' f' where b: "B ?b = Some (k', f')" using buddy_is_head [OF D(2) h] by blast
    have "\<not> b_is_free (block_pool r ! ?b) \<or> b_order (block_pool r ! ?b) \<noteq> k"
      using tags_okD [OF D(3) b] b stop k buddy_neq [of h k] by auto
    then show ?thesis using k gb True by (subst coalesce_loop.simps) simp
  next
    case False
    then show ?thesis using k gb by (subst coalesce_loop.simps) simp
  qed
qed

text \<open>One merge: only descriptors of pages aligned to the order change, and an order only grows.\<close>

lemma coalesce_step:
  assumes core: "region_core {h} r B" and h: "B h = Some (k, False)"
    and k: "k < MAX_ORDER" and bB: "B (buddy h k) = Some (k, True)"
  obtains r' where "coalesce_loop k h r = coalesce_loop (Suc k) (min h (buddy h k)) r'"
    and "region_core {min h (buddy h k)} r' (B(max h (buddy h k) := None, min h (buddy h k) \<mapsto> (Suc k, False)))"
    and "same_frame r r'" and "\<And>i. \<not> 2 ^ k dvd i \<Longrightarrow> block_pool r' ! i = block_pool r ! i"
    and "\<And>i. b_order (block_pool r' ! i) = b_order (block_pool r ! i) \<or> k < b_order (block_pool r' ! i)"
    and "h < buddy h k \<Longrightarrow> block_pool r' ! buddy h k =
      (block_pool r ! buddy h k)\<lparr>b_is_free := False, b_next := None\<rparr>"
    and "b_order (block_pool r' ! min h (buddy h k)) = Suc k"
proof -
  note D = region_coreD [OF core]
  let ?b = "buddy h k" and ?n = "length (block_pool r)"
  have hn: "h < ?n" and bn: "?b < ?n" and dv: "2 ^ k dvd h" "2 ^ k dvd ?b"
    using tiling_block [OF D(2) h] tiling_block [OF D(2) bB] by simp_all
  have gb: "get_buddy_block (Some h) (Some r) k = Some ?b"
    using get_buddy_block_eq [OF D(1) hn k] bn by simp
  obtain r1 where rm: "remove_from_region_freelist (Some ?b) (Some r) k = ret (True, Some r1)"
    and c0: "region_core (insert ?b {h}) r1 (B(?b \<mapsto> (k, False)))" and f1: "same_frame r r1"
    and nb: "block_pool r1 ! ?b = (block_pool r ! ?b)\<lparr>b_next := None\<rparr>"
    and keep: "\<And>g. B g \<noteq> Some (k, True) \<Longrightarrow> block_pool r1 ! g = block_pool r ! g"
    and ord: "\<And>g. b_order (block_pool r1 ! g) = b_order (block_pool r ! g)"
    by (rule core_remove [OF core bB]) blast
  have c1: "region_core {h, ?b} r1 (B(?b \<mapsto> (k, False)))" using c0 by (simp add: insert_commute)
  let ?l = "min h ?b"
  let ?r2 = "upd_block ?b (\<lambda>x. x\<lparr>b_is_free := False, b_next := None\<rparr>) r1"
  let ?r3 = "upd_block ?l (\<lambda>x. x\<lparr>b_order := k + 1, b_is_free := True\<rparr>) ?r2"
  have ne: "?b \<noteq> h" by (rule buddy_neq)
  have n1: "length (block_pool r1) = ?n" using f1 by (simp add: same_frame_def)
  have hB: "(B(?b \<mapsto> (k, False))) h = Some (k, False)" using h ne by simp
  have "region_core {?l} ?r3 ((B(?b \<mapsto> (k, False)))(max h ?b := None, ?l \<mapsto> (Suc k, False)))"
    by (rule core_merge [OF c1 hB _ refl k refl]) simp
  moreover have "(B(?b \<mapsto> (k, False)))(max h ?b := None, ?l \<mapsto> (Suc k, False)) =
      B(max h ?b := None, ?l \<mapsto> (Suc k, False))" by (auto simp: fun_eq_iff min_def max_def)
  ultimately have c3: "region_core {?l} ?r3 (B(max h ?b := None, ?l \<mapsto> (Suc k, False)))" by simp
  have adr: "(b_address (block_pool r1 ! ?b) < b_address (block_pool r1 ! h)) = (?b < h)"
    using page_addr_less_iff [OF region_coreD(1) [OF c1], of ?b h] bn hn n1
      core_addr [OF c1 hB] core_addr [OF c1, of ?b k False] by simp
  have "b_is_free (block_pool r ! ?b)" and "b_order (block_pool r ! ?b) = k"
    using tags_okD [OF D(3) bB] by simp_all
  then have s1: "coalesce_loop k h r = coalesce_loop (Suc k) ?l ?r3"
    using k gb rm adr
    by (subst coalesce_loop.simps) (simp add: Let_def min_def not_less split: if_splits)
  show thesis
  proof (rule that [OF s1 c3])
    show "same_frame r ?r3" using f1 by (simp add: same_frame_def)
    show "block_pool ?r3 ! i = block_pool r ! i" if i: "\<not> 2 ^ k dvd i" for i
    proof -
      have "i \<noteq> h" "i \<noteq> ?b" using i dv by auto
      moreover have "B i \<noteq> Some (k, True)" using i tiling_block(2) [OF D(2), of i k True] by auto
      ultimately show ?thesis using keep [of i] by (auto simp: nth_upd min_def)
    qed
    show "b_order (block_pool ?r3 ! i) = b_order (block_pool r ! i) \<or> k < b_order (block_pool ?r3 ! i)" for i
      using ord [of i] by (auto simp: nth_upd)
    show "b_order (block_pool ?r3 ! ?l) = Suc k" using hn bn n1 by (simp add: nth_upd min_def)
    assume "h < ?b"
    then show "block_pool ?r3 ! ?b = (block_pool r ! ?b)\<lparr>b_is_free := False, b_next := None\<rparr>"
      using bn n1 nb by (simp add: nth_upd)
  qed
qed

text \<open>
  The loop of \<open>pmm_free\<close>: it returns, and the block it hands back, once linked, makes the
  region represent the merged tiling.
\<close>

lemma coalesce_loop_correct:
  assumes "region_core {h} r B" and "B h = Some (k, False)"
  shows "\<exists>k' h' r'. coalesce_loop k h r = ret (k', h', r') \<and> same_frame r r' \<and>
    region_core {} (add_to_region_freelist h' r' k') (tfree k h B) \<and> k \<le> k' \<and> 2 ^ k' dvd h' \<and>
    (\<forall>i. \<not> 2 ^ k dvd i \<longrightarrow> block_pool r' ! i = block_pool r ! i) \<and>
    (\<forall>i. b_order (block_pool r' ! i) = b_order (block_pool r ! i) \<or> k < b_order (block_pool r' ! i))"
  using assms
proof (induction "MAX_ORDER - k" arbitrary: k h r B rule: less_induct)
  case less
  show ?case
  proof (cases "k < MAX_ORDER \<and> B (buddy h k) = Some (k, True)")
    case False
    have "2 ^ k dvd h" using tiling_block(2) [OF region_coreD(2) [OF less.prems(1)] less.prems(2)] .
    then show ?thesis
      using coalesce_stop [OF less.prems False] tfree_stop [where B = B and h = h and j = k, OF False] core_add1 [OF less.prems] same_frame_refl by simp
  next
    case True
    let ?b = "buddy h k" and ?l = "min h (buddy h k)"
    let ?B = "B(max h ?b := None, ?l \<mapsto> (Suc k, False))"
    obtain r3 where s: "coalesce_loop k h r = coalesce_loop (Suc k) ?l r3" "region_core {?l} r3 ?B" "same_frame r r3"
      and keep: "\<And>i. \<not> 2 ^ k dvd i \<Longrightarrow> block_pool r3 ! i = block_pool r ! i"
      and ord: "\<And>i. b_order (block_pool r3 ! i) = b_order (block_pool r ! i) \<or> k < b_order (block_pool r3 ! i)"
      by (rule coalesce_step [OF less.prems]) (use True in blast)+
    obtain k' h' r' where c: "coalesce_loop (Suc k) ?l r3 = ret (k', h', r')" "same_frame r3 r'"
      "region_core {} (add_to_region_freelist h' r' k') (tfree (Suc k) ?l ?B)" "Suc k \<le> k'" "2 ^ k' dvd h'"
      and keep': "\<And>i. \<not> 2 ^ Suc k dvd i \<Longrightarrow> block_pool r' ! i = block_pool r3 ! i"
      and ord': "\<And>i. b_order (block_pool r' ! i) = b_order (block_pool r3 ! i) \<or> Suc k < b_order (block_pool r' ! i)"
      using less.hyps [OF _ s(2)] True by fastforce
    have "\<not> 2 ^ Suc k dvd i" if "\<not> 2 ^ k dvd i" for i :: nat
      using that by (meson dvd_trans le_imp_power_dvd le_SucI order_refl)
    then have "block_pool r' ! i = block_pool r ! i" if "\<not> 2 ^ k dvd i" for i
      using keep keep' that by simp
    moreover have "b_order (block_pool r' ! i) = b_order (block_pool r ! i) \<or> k < b_order (block_pool r' ! i)" for i
      using ord [of i] ord' [of i] by auto
    moreover have "tfree k h B = tfree (Suc k) ?l ?B" using True by (intro tfree_merge) simp_all
    ultimately show ?thesis
      using c s(1) same_frame_trans [OF s(3)] by (intro exI [of _ k'] exI [of _ h'] exI [of _ r']) simp
  qed
qed

section \<open>Setting up a region\<close>

lemma biggest_order_loop_spec:
  assumes "k \<le> MAX_ORDER" and "2 ^ k dvd m" and "m + 2 ^ k \<le> n"
  defines "g \<equiv> biggest_order_loop n m k"
  shows "g \<le> MAX_ORDER \<and> 2 ^ g dvd m \<and> m + 2 ^ g \<le> n \<and>
    (g = MAX_ORDER \<or> \<not> 2 ^ Suc g dvd m \<or> n < m + 2 ^ Suc g)"
  using assms(1-3) unfolding g_def
proof (induction n m k rule: biggest_order_loop.induct)
  case (1 n m k)
  have bc: "BLOCK_COUNT (Suc k) = 2 ^ Suc k" by (simp add: BLOCK_COUNT_def push_bit_eq_mult)
  show ?case
  proof (cases "k < MAX_ORDER \<and> m mod 2 ^ Suc k = 0 \<and> m + 2 ^ Suc k \<le> n")
    case True
    then have "biggest_order_loop n m k = biggest_order_loop n m (Suc k)"
      by (subst biggest_order_loop.simps) (simp add: bc Let_def)
    moreover have "2 ^ Suc k dvd m" using True by (simp add: dvd_eq_mod_eq_0)
    ultimately show ?thesis using 1(1) [OF _ refl] True by (simp add: bc)
  next
    case False
    then have "biggest_order_loop n m k = k"
      by (subst biggest_order_loop.simps) (auto simp: bc Let_def)
    then show ?thesis using 1(2-4) False by (auto simp: dvd_eq_mod_eq_0)
  qed
qed

text \<open>
  Before carving, every page is a block of order 0 in flight. One round fuses the next pages
  into the largest aligned block that fits and links it.
\<close>

definition fuse :: "nat \<Rightarrow> nat \<Rightarrow> tiling \<Rightarrow> tiling" where
  "fuse m g B p = (if p = m then Some (g, False) else if m < p \<and> p < m + 2 ^ g then None else B p)"

lemma tiling_fuse:
  assumes t: "is_tiling n B" and s: "\<And>p. m \<le> p \<Longrightarrow> p < m + 2 ^ g \<Longrightarrow> B p = Some (0, False)"
    and g: "g \<le> MAX_ORDER" "2 ^ g dvd m" "m + 2 ^ g \<le> n"
  shows "is_tiling n (fuse m g B)"
proof -
  have cov: "covers (fuse m g B) h p \<longleftrightarrow>
      (if m \<le> p \<and> p < m + 2 ^ g then h = m else covers B h p)" for h p
  proof (cases "m \<le> p \<and> p < m + 2 ^ g")
    case True
    then have "covers B p p" using s by (auto simp: covers_def)
    then have "covers B h p \<Longrightarrow> h = p" using tiling_unique [OF t] by blast
    then show ?thesis using True by (auto simp: covers_def fuse_def split: if_splits)
  next
    case False
    have "\<not> covers B h p" if "m \<le> h" "h < m + 2 ^ g"
      using s [OF that] that False by (auto simp: covers_def)
    then show ?thesis using False by (auto simp: covers_def fuse_def)
  qed
  show ?thesis unfolding is_tiling_def
  proof (intro conjI allI impI)
    fix h k f assume "fuse m g B h = Some (k, f)"
    then show "k \<le> MAX_ORDER" and "2 ^ k dvd h" and "h + 2 ^ k \<le> n"
      using g tiling_block [OF t, of h k f] by (auto simp: fuse_def split: if_splits)
  next
    fix p assume "p < n"
    then obtain h where "covers B h p" using t by (auto simp: is_tiling_def)
    then have "covers (fuse m g B) (if m \<le> p \<and> p < m + 2 ^ g then m else h) p"
      unfolding cov by simp
    then show "\<exists>h. covers (fuse m g B) h p" by blast
  next
    fix h h' p assume "covers (fuse m g B) h p" and "covers (fuse m g B) h' p"
    then show "h = h'" using tiling_unique [OF t] unfolding cov by (auto split: if_splits)
  qed
qed

definition maximal_below :: "nat \<Rightarrow> nat \<Rightarrow> tiling \<Rightarrow> bool" where
  "maximal_below n m B \<longleftrightarrow>
     (\<forall>h k f. h < m \<longrightarrow> B h = Some (k, f) \<longrightarrow>
        f \<and> (k = MAX_ORDER \<or> \<not> 2 ^ Suc k dvd h \<or> n < h + 2 ^ Suc k))"

lemma maximal_coalesced:
  assumes t: "is_tiling n B" and m: "maximal n B"
  shows "coalesced B"
  unfolding coalesced_def
proof (intro allI impI notI)
  fix h k assume h: "B h = Some (k, True)" and k: "k < MAX_ORDER"
    and b: "B (buddy h k) = Some (k, True)"
  have "2 ^ k dvd h" using tiling_block [OF t h] by simp
  then obtain l where "2 ^ Suc k dvd l" and "B l = Some (k, True)" and "B (l + 2 ^ k) = Some (k, True)"
    by (rule buddy_cases) (use h b in auto)
  moreover from this(3) have "l + 2 ^ Suc k \<le> n" using tiling_block(3) [OF t] by fastforce
  ultimately show False using m k unfolding maximal_def by fastforce
qed

lemma carve_step:
  assumes core: "region_core {m..<length (block_pool r)} r B"
    and singles: "\<And>p. m \<le> p \<Longrightarrow> p < length (block_pool r) \<Longrightarrow> B p = Some (0, False)"
    and g: "g \<le> MAX_ORDER" "2 ^ g dvd m" "m + 2 ^ g \<le> length (block_pool r)"
    and r1: "r1 = upd_block m (\<lambda>b. b\<lparr>b_order := g, b_is_free := True\<rparr>) r"
  shows "region_core {m + 2 ^ g..<length (block_pool r)} (add_to_region_freelist m r1 g)
           ((fuse m g B)(m \<mapsto> (g, True)))"
proof -
  let ?n = "length (block_pool r)"
  note D = region_coreD [OF core]
  have mn: "m < ?n" using g(3) zero_less_power [of "2 :: nat" g] by linarith
  have inside: "B p = Some (0, False)" if "m \<le> p" "p < m + 2 ^ g" for p
    using singles that g(3) by simp
  have "region_core {m..<?n} r1 (fuse m g B)"
    unfolding r1 upd_block_eq
  proof (rule region_core_pool [OF core])
    show "is_tiling ?n (fuse m g B)" by (rule tiling_fuse [OF D(2) inside g])
    show "tags_ok {m..<?n} ((block_pool r)[m := (block_pool r ! m)\<lparr>b_order := g, b_is_free := True\<rparr>])
            (fuse m g B)"
      using D(3) mn unfolding tags_ok_def fuse_def by (auto simp: nth_upd)
    show "(fuse m g B h = Some (k, True)) = (B h = Some (k, True))" for h k
      using inside [of h] by (auto simp: fuse_def)
  qed (simp_all add: nth_upd)
  then have "region_core ({m..<?n} - {m}) (add_to_region_freelist m r1 g)
      ((fuse m g B)(m \<mapsto> (g, True)))"
    using mn by (intro core_add) (simp_all add: fuse_def)
  then show ?thesis
    by (rule core_weaken) (auto simp: fuse_def split: if_splits)
qed

lemma carve_loop_correct:
  assumes "region_core {m..<n} r B" and "n = length (block_pool r)" and "m \<le> n"
    and "\<And>p. m \<le> p \<Longrightarrow> p < n \<Longrightarrow> B p = Some (0, False)" and "maximal_below n m B"
  shows "\<exists>r' B'. carve_loop n m r = ret r' \<and> same_frame r r' \<and> region_core {} r' B' \<and> maximal n B'"
  using assms
proof (induction "n - m" arbitrary: m r B rule: less_induct)
  case (less m r B)
  note D = region_coreD [OF less.prems(1)]
  show ?case
  proof (cases "m < n")
    case False
    then have "m = n" using less.prems(3) by simp
    then have "region_core {} r B" and "maximal n B"
      using less.prems(1,5) tiling_block(4) [OF D(2)] less.prems(2)
      by (simp_all add: maximal_def maximal_below_def) blast
    then show ?thesis
      using False same_frame_refl by (subst carve_loop.simps) auto
  next
    case True
    let ?g = "biggest_order_loop n m 0"
    let ?r1 = "upd_block m (\<lambda>b. b\<lparr>b_order := ?g, b_is_free := True\<rparr>) r"
    let ?r2 = "add_to_region_freelist m ?r1 ?g"
    let ?B = "(fuse m ?g B)(m \<mapsto> (?g, True))"
    have g: "?g \<le> MAX_ORDER" "2 ^ ?g dvd m" "m + 2 ^ ?g \<le> n"
      "?g = MAX_ORDER \<or> \<not> 2 ^ Suc ?g dvd m \<or> n < m + 2 ^ Suc ?g"
      using biggest_order_loop_spec [of 0 m n] True by simp_all
    have fr: "same_frame r ?r2"
      by (rule same_frame_trans [OF same_frame_upd same_frame_add])
    have "find_block_by_address (Some r) (page_addr r m) = Some m"
      using find_block_page_addr [OF D(1)] True less.prems(2) by simp
    then have step: "carve_loop n m r = carve_loop n (m + 2 ^ ?g) ?r2"
      using True by (subst carve_loop.simps)
        (simp add: Let_def page_addr_def BLOCK_COUNT_def push_bit_eq_mult)
    have core: "region_core {m + 2 ^ ?g..<n} ?r2 ?B"
      using carve_step [OF less.prems(1) [unfolded less.prems(2)]] less.prems(2,4) g(1-3) by simp
    have "maximal_below n (m + 2 ^ ?g) ?B"
      unfolding maximal_below_def
    proof (intro allI impI)
      fix h k f assume "h < m + 2 ^ ?g" and h: "?B h = Some (k, f)"
      then have "h = m \<and> k = ?g \<and> f \<or> h < m \<and> B h = Some (k, f)"
        by (auto simp: fuse_def split: if_splits)
      then show "f \<and> (k = MAX_ORDER \<or> \<not> 2 ^ Suc k dvd h \<or> n < h + 2 ^ Suc k)"
        using less.prems(5) g(4) unfolding maximal_below_def by blast
    qed
    moreover have "?B p = Some (0, False)" if "m + 2 ^ ?g \<le> p" "p < n" for p
    proof -
      have "(0 :: nat) < 2 ^ ?g" by simp
      with that(1) have "m < p" by linarith
      with that show ?thesis using less.prems(4) [of p] by (simp add: fuse_def)
    qed
    moreover have "n = length (block_pool ?r2)"
      using fr less.prems(2) by (simp add: same_frame_def)
    moreover have "n - (m + 2 ^ ?g) < n - m"
      using True by (intro diff_less_mono2) simp_all
    ultimately obtain r' B' where "carve_loop n (m + 2 ^ ?g) ?r2 = ret r'" "same_frame ?r2 r'"
      "region_core {} r' B'" "maximal n B'"
      using less.hyps [OF _ core] g(3) by blast
    then show ?thesis using step same_frame_trans [OF fr] by auto
  qed
qed

lemma fresh_region_core:
  assumes g: "region_geom r" and fl: "free_lists r = replicate NUM_ORDERS None"
    and p: "\<And>i. i < length (block_pool r) \<Longrightarrow>
       b_order (block_pool r ! i) = 0 \<and> b_is_free (block_pool r ! i)"
  shows "region_core {0..<length (block_pool r)} r
           (\<lambda>i. if i < length (block_pool r) then Some (0, False) else None)" (is "region_core _ _ ?B")
proof -
  let ?n = "length (block_pool r)"
  have "covers ?B h i \<longleftrightarrow> h = i \<and> i < ?n" for h i
    by (auto simp: covers_def split: if_splits)
  then have "is_tiling ?n ?B" by (auto simp: is_tiling_def split: if_splits)
  moreover have "free_list_ok r ?B k" if "k \<le> MAX_ORDER" for k
  proof -
    have "free_lists r ! k = None"
      unfolding fl by (rule nth_replicate) (use that in \<open>simp add: NUM_ORDERS_def\<close>)
    then show ?thesis by (simp add: free_list_ok_def)
  qed
  ultimately show ?thesis
    using g p by (auto simp: region_core_def tags_ok_def split: if_splits)
qed

section \<open>Searching the free lists\<close>

lemma scan_order_ge: "k \<le> scan_order r k"
  by (induction r k rule: scan_order.induct) (subst scan_order.simps, auto)

lemma scan_order_spec:
  "scan_order r k \<le> MAX_ORDER \<Longrightarrow> free_lists r ! scan_order r k \<noteq> None"
  "k \<le> j \<Longrightarrow> j < scan_order r k \<Longrightarrow> j \<le> MAX_ORDER \<Longrightarrow> free_lists r ! j = None"
proof (induction r k rule: scan_order.induct)
  case (1 r k)
  {
    case 1
    then show ?case using "1.IH"(1) by (subst scan_order.simps) (subst (asm) scan_order.simps,
        auto split: if_splits)
  next
    case 2
    then show ?case using "1.IH"(2) by (cases "j = k") (subst (asm) scan_order.simps,
        auto split: if_splits)+
  }
qed

lemma core_head:
  assumes core: "region_core {} r B" and k: "k \<le> MAX_ORDER"
  shows "free_lists r ! k = Some h \<Longrightarrow> B h = Some (k, True)"
    and "free_lists r ! k = None \<Longrightarrow> B h \<noteq> Some (k, True)"
proof -
  obtain xs where xs: "chain (block_pool r) (free_lists r ! k) xs" "distinct xs"
    "set xs = {g. B g = Some (k, True)}"
    using region_coreD(4) [OF core k] by (auto simp: free_list_ok_def)
  show "free_lists r ! k = Some h \<Longrightarrow> B h = Some (k, True)"
    using xs by (cases xs) auto
  show "free_lists r ! k = None \<Longrightarrow> B h \<noteq> Some (k, True)"
    using xs by (cases xs) auto
qed

text \<open>The search finds a list exactly when some free block is large enough.\<close>

lemma scan_order_iff:
  assumes core: "region_core {} r B"
  shows "scan_order r k \<le> MAX_ORDER \<longleftrightarrow> (\<exists>h j. k \<le> j \<and> B h = Some (j, True))"
proof
  assume s: "scan_order r k \<le> MAX_ORDER"
  then obtain h where "free_lists r ! scan_order r k = Some h" using scan_order_spec(1) by blast
  then have "B h = Some (scan_order r k, True)" using core_head(1) [OF core s] by simp
  then show "\<exists>h j. k \<le> j \<and> B h = Some (j, True)" using scan_order_ge by blast
next
  assume "\<exists>h j. k \<le> j \<and> B h = Some (j, True)"
  then obtain h j where j: "k \<le> j" "B h = Some (j, True)" by blast
  then have "j \<le> MAX_ORDER" using tiling_block(1) region_coreD(2) [OF core] by blast
  show "scan_order r k \<le> MAX_ORDER"
  proof (rule ccontr)
    assume "\<not> ?thesis"
    then have "free_lists r ! j = None"
      using scan_order_spec(2) j(1) \<open>j \<le> MAX_ORDER\<close> by simp
    with core_head(2) [OF core \<open>j \<le> MAX_ORDER\<close>] j(2) show False by blast
  qed
qed

end
