(* ===== verification/PMM_Correct.thy ===== *)
theory PMM_Correct
  imports PMM_Region
begin

text \<open>
  Correctness of the physical memory manager as a whole: the tiling of a region is read off its
  block pool, the invariant of the manager says that every region represents its tiling and that
  regions do not overlap, and each entry point of \<^verbatim>\<open>pmm.c\<close> is shown to act on the set of live
  blocks as an allocator must. The locale \<open>page_allocator\<close> is the contract its clients use.
\<close>

section \<open>The tiling of a region\<close>

text \<open>The blocks of a pool, found by walking from block to block.\<close>

function blocks_from :: "pmm_block_t list \<Rightarrow> nat \<Rightarrow> (nat \<times> nat \<times> bool) list" where
  "blocks_from pool h =
     (if h < length pool
      then (h, b_order (pool ! h), b_is_free (pool ! h))
             # blocks_from pool (h + 2 ^ b_order (pool ! h))
      else [])"
  by pat_completeness auto
termination
  by (relation "measure (\<lambda>(pool, h). length pool - h)") (auto intro!: diff_less_mono2)

declare blocks_from.simps [simp del]

definition tiling_of :: "pmm_region_t \<Rightarrow> tiling" where
  "tiling_of r = map_of (blocks_from (block_pool r) 0)"

lemma tiling_next_head:
  assumes t: "is_tiling n B" and h: "B h = Some (k, f)" and n: "h + 2 ^ k < n"
  shows "B (h + 2 ^ k) \<noteq> None"
proof -
  let ?u = "h + 2 ^ k"
  obtain g k' f' where g: "B g = Some (k', f')" "g \<le> ?u" "?u < g + 2 ^ k'"
    using tiling_cover [OF t n] by blast
  have "g = ?u"
  proof (rule ccontr)
    assume "g \<noteq> ?u"
    with g(2) have "g < ?u" by simp
    have "\<not> h < g" using tiling_inner_None [OF t h, of g] g(1) \<open>g < ?u\<close> by auto
    then have "g = h" using tiling_unique' [OF t g(1) _ _ h, of h] g(3) by simp
    with h g(1,3) show False by simp
  qed
  with g(1) show ?thesis by simp
qed

lemma blocks_from_eq:
  assumes t: "is_tiling (length pool) B" and tag: "tags_ok {} pool B"
    and h: "h < length pool \<Longrightarrow> B h \<noteq> None"
  shows "map_of (blocks_from pool h) g = (if h \<le> g then B g else None)"
  using h
proof (induction "length pool - h" arbitrary: h rule: less_induct)
  case less
  show ?case
  proof (cases "h < length pool")
    case False
    then have "B g = None" if "h \<le> g"
      using that tiling_block(4) [OF t, of g] by (cases "B g") fastforce+
    then show ?thesis using False by (subst blocks_from.simps) simp
  next
    case True
    then obtain k f where h: "B h = Some (k, f)" using less.prems by auto
    let ?u = "h + 2 ^ k"
    have tg: "b_order (pool ! h) = k" "b_is_free (pool ! h) = f"
      using tags_okD [OF tag h] by simp_all
    have "length pool - ?u < length pool - h" using True by (intro diff_less_mono2) simp_all
    moreover have "?u < length pool \<Longrightarrow> B ?u \<noteq> None" by (rule tiling_next_head [OF t h])
    ultimately have IH: "map_of (blocks_from pool ?u) g = (if ?u \<le> g then B g else None)"
      by (rule less.hyps)
    have "map_of (blocks_from pool h) g = (if g = h then Some (k, f) else map_of (blocks_from pool ?u) g)"
      using True tg by (subst blocks_from.simps) simp
    also have "\<dots> = (if h \<le> g then B g else None)"
      using h IH tiling_inner_None [OF t h, of g] by auto
    finally show ?thesis .
  qed
qed

lemma tiling_of_eq:
  assumes "region_core {} r B"
  shows "tiling_of r = B"
proof
  fix g
  note D = region_coreD [OF assms]
  have "B 0 \<noteq> None" if "0 < length (block_pool r)"
  proof -
    from that obtain h k f where "B h = Some (k, f)" "h \<le> 0" using tiling_cover [OF D(2)] by blast
    then show ?thesis by simp
  qed
  then show "tiling_of r g = B g"
    unfolding tiling_of_def using blocks_from_eq [OF D(2,3), of 0 g] by simp
qed

definition region_ok :: "pmm_region_t \<Rightarrow> bool" where
  "region_ok r \<longleftrightarrow> region_inv r (tiling_of r)"

lemma region_okI: "region_core {} r B \<Longrightarrow> coalesced B \<Longrightarrow> region_ok r \<and> tiling_of r = B"
  using tiling_of_eq [of r B] by (simp add: region_ok_def region_inv_def)

lemma region_okD:
  assumes "region_ok r"
  shows "region_core {} r (tiling_of r)" and "coalesced (tiling_of r)" and "region_geom r"
    and "is_tiling (length (block_pool r)) (tiling_of r)"
  using assms by (auto simp: region_ok_def region_inv_def region_core_def)

section \<open>The manager's invariant and its live blocks\<close>

definition regions_apart :: "pmm_region_t \<Rightarrow> pmm_region_t \<Rightarrow> bool" where
  "regions_apart r r' \<longleftrightarrow> r_end r \<le> r_start r' \<or> r_end r' \<le> r_start r"

definition pmm_inv :: "pmm_state \<Rightarrow> bool" where
  "pmm_inv s \<longleftrightarrow>
     (\<forall>r \<in> set (g_regions s). region_ok r) \<and>
     (\<forall>i < length (g_regions s). \<forall>j < i. regions_apart (g_regions s ! i) (g_regions s ! j))"

definition region_live :: "pmm_region_t \<Rightarrow> (u32 \<times> nat) set" where
  "region_live r = (\<lambda>(h, k). (page_addr r h, k)) ` allocated (tiling_of r)"

definition live :: "pmm_state \<Rightarrow> (u32 \<times> nat) set" where
  "live s = (\<Union>r \<in> set (g_regions s). region_live r)"

text \<open>A block of order \<open>k\<close> at \<open>a\<close> and one of order \<open>j\<close> at \<open>b\<close> share no byte.\<close>

definition blocks_apart :: "u32 \<times> nat \<Rightarrow> u32 \<times> nat \<Rightarrow> bool" where
  "blocks_apart x y \<longleftrightarrow>
     (case (x, y) of ((a, k), (b, j)) \<Rightarrow>
        unat a + 2 ^ k * 4096 \<le> unat b \<or> unat b + 2 ^ j * 4096 \<le> unat a)"

lemma region_live_cases:
  assumes "region_ok r" and "(a, k) \<in> region_live r"
  obtains h where "tiling_of r h = Some (k, False)" and "a = page_addr r h"
    and "unat a = unat (r_start r) + h * 4096" and "h + 2 ^ k \<le> length (block_pool r)"
    and "k \<le> MAX_ORDER" and "2 ^ k dvd h"
proof -
  note D = region_okD [OF assms(1)]
  from assms(2) obtain h where h: "tiling_of r h = Some (k, False)" "a = page_addr r h"
    by (auto simp: region_live_def allocated_def)
  note b = tiling_block [OF D(4) h(1)]
  show thesis
    by (rule that) (use h b geom_page_addr [OF D(3), of h] in simp_all)
qed

lemma region_live_bounds:
  assumes "region_ok r" and "(a, k) \<in> region_live r"
  shows "unat (r_start r) \<le> unat a" and "unat a + 2 ^ k * 4096 \<le> unat (r_end r)"
    and "4096 dvd unat a" and "k \<le> MAX_ORDER"
proof -
  obtain h where h: "unat a = unat (r_start r) + h * 4096" "h + 2 ^ k \<le> length (block_pool r)"
    "k \<le> MAX_ORDER"
    by (rule region_live_cases [OF assms])
  have g: "region_geom r" by (rule region_okD [OF assms(1)])
  show "unat (r_start r) \<le> unat a" "k \<le> MAX_ORDER" using h by simp_all
  show "4096 dvd unat a" using h(1) g by (simp add: region_geom_def)
  have "(h + 2 ^ k) * 4096 \<le> length (block_pool r) * 4096" using h(2) by (rule mult_le_mono1)
  then show "unat a + 2 ^ k * 4096 \<le> unat (r_end r)"
    using h(1) g by (simp add: region_geom_def algebra_simps)
qed

lemma region_live_inside:
  assumes "region_ok r" and "(a, k) \<in> region_live r"
  shows "r_start r \<le> a" and "a < r_end r"
proof -
  have "0 < (2 :: nat) ^ k * 4096" by simp
  then have "unat a < unat (r_end r)" using region_live_bounds(2) [OF assms] by linarith
  then show "a < r_end r" by (simp add: word_less_nat_alt)
  show "r_start r \<le> a" using region_live_bounds(1) [OF assms] by (simp add: word_le_nat_alt)
qed

lemma region_live_apart:
  assumes ok: "region_ok r" and x: "x \<in> region_live r" and y: "y \<in> region_live r" and "x \<noteq> y"
  shows "blocks_apart x y"
proof -
  obtain a k b j where xy: "x = (a, k)" "y = (b, j)" by (cases x; cases y)
  note D = region_okD [OF ok]
  obtain h where h: "tiling_of r h = Some (k, False)" "a = page_addr r h"
    "unat a = unat (r_start r) + h * 4096"
    using x xy region_live_cases [OF ok] by metis
  obtain g where g: "tiling_of r g = Some (j, False)" "b = page_addr r g"
    "unat b = unat (r_start r) + g * 4096"
    using y xy region_live_cases [OF ok] by metis
  have "h \<noteq> g" using h g xy \<open>x \<noteq> y\<close> by auto
  have "h + 2 ^ k \<le> g \<or> g + 2 ^ j \<le> h"
  proof (rule ccontr)
    assume "\<not> ?thesis"
    then have "h < g + 2 ^ j" and "g < h + 2 ^ k" by simp_all
    then have "h = g"
      using tiling_unique' [OF D(4) h(1) _ _ g(1), of "max h g"] by (simp add: max_def split: if_splits)
    with \<open>h \<noteq> g\<close> show False by simp
  qed
  then have "(h + 2 ^ k) * 4096 \<le> g * 4096 \<or> (g + 2 ^ j) * 4096 \<le> h * 4096" by auto
  then show ?thesis unfolding blocks_apart_def xy using h(3) g(3) by (auto simp: algebra_simps)
qed

lemma pmm_inv_region: "pmm_inv s \<Longrightarrow> r \<in> set (g_regions s) \<Longrightarrow> region_ok r"
  by (simp add: pmm_inv_def)

lemma pmm_inv_apart:
  "pmm_inv s \<Longrightarrow> i < length (g_regions s) \<Longrightarrow> j < length (g_regions s) \<Longrightarrow> i \<noteq> j \<Longrightarrow>
   regions_apart (g_regions s ! i) (g_regions s ! j)"
  unfolding pmm_inv_def regions_apart_def by (metis linorder_neqE_nat)

lemma live_apart:
  assumes inv: "pmm_inv s" and "x \<in> live s" and "y \<in> live s" and "x \<noteq> y"
  shows "blocks_apart x y"
proof -
  from assms(2,3) obtain i j where i: "i < length (g_regions s)" "x \<in> region_live (g_regions s ! i)"
    and j: "j < length (g_regions s)" "y \<in> region_live (g_regions s ! j)"
    by (auto simp: live_def in_set_conv_nth)
  have ok: "region_ok (g_regions s ! i)" "region_ok (g_regions s ! j)"
    using inv i(1) j(1) by (simp_all add: pmm_inv_def)
  show ?thesis
  proof (cases "i = j")
    case True
    then show ?thesis using region_live_apart [OF ok(1) i(2)] j(2) \<open>x \<noteq> y\<close> by simp
  next
    case False
    obtain a k b l where xy: "x = (a, k)" "y = (b, l)" by (cases x; cases y)
    show ?thesis
      using pmm_inv_apart [OF inv i(1) j(1) False] region_live_bounds [OF ok(1), of a k]
        region_live_bounds [OF ok(2), of b l] i(2) j(2)
      by (auto simp: xy blocks_apart_def regions_apart_def word_le_nat_alt)
  qed
qed

section \<open>Replacing one region\<close>

lemma page_addr_frame: "same_frame r r' \<Longrightarrow> page_addr r' h = page_addr r h"
  by (simp add: same_frame_def page_addr_def)

lemma region_live_frame:
  "same_frame r r' \<Longrightarrow> tiling_of r' = B \<Longrightarrow>
   region_live r' = (\<lambda>(h, k). (page_addr r h, k)) ` allocated B"
  by (simp add: region_live_def page_addr_frame case_prod_beta)

lemma page_addr_inj:
  assumes "region_geom r" and "h < length (block_pool r)" and "g < length (block_pool r)"
    and "page_addr r h = page_addr r g"
  shows "h = g"
proof -
  have "unat (r_start r) + h * 4096 = unat (page_addr r g)"
    unfolding assms(4) [symmetric] by (rule geom_page_addr [symmetric]) (use assms in simp_all)
  also have "\<dots> = unat (r_start r) + g * 4096"
    by (rule geom_page_addr) (use assms in simp_all)
  finally show ?thesis by simp
qed

lemma region_live_iff:
  assumes ok: "region_ok r" and h: "h < length (block_pool r)"
  shows "(page_addr r h, k) \<in> region_live r \<longleftrightarrow> tiling_of r h = Some (k, False)"
proof
  assume "(page_addr r h, k) \<in> region_live r"
  then obtain g where g: "tiling_of r g = Some (k, False)" "page_addr r h = page_addr r g"
    by (auto simp: region_live_def allocated_def)
  moreover have "g < length (block_pool r)" by (rule tiling_block(4) [OF region_okD(4) [OF ok] g(1)])
  ultimately show "tiling_of r h = Some (k, False)"
    using page_addr_inj [OF region_okD(3) [OF ok] h, of g] by simp
next
  assume "tiling_of r h = Some (k, False)"
  then have "(h, k) \<in> allocated (tiling_of r)" by (simp add: allocated_def)
  then show "(page_addr r h, k) \<in> region_live r" unfolding region_live_def by (rule rev_image_eqI) simp
qed

lemma pmm_inv_update:
  assumes inv: "pmm_inv s" and i: "i < length (g_regions s)" and ok: "region_ok r'"
    and fr: "same_frame (g_regions s ! i) r'"
  shows "pmm_inv (s\<lparr>g_regions := (g_regions s)[i := r']\<rparr>)"
proof -
  have "region_ok r" if "r \<in> set ((g_regions s)[i := r'])" for r
    using that ok pmm_inv_region [OF inv] set_update_subset_insert [of "g_regions s" i r'] by blast
  moreover have "regions_apart ((g_regions s)[i := r'] ! a) ((g_regions s)[i := r'] ! b)"
    if "a < length (g_regions s)" and "b < a" for a b
    using pmm_inv_apart [OF inv, of a b] that fr
    by (auto simp: nth_upd regions_apart_def same_frame_def)
  ultimately show ?thesis by (simp add: pmm_inv_def)
qed

text \<open>The extent of each region, which no operation but \<open>pmm_add_region\<close> changes.\<close>

definition frames :: "pmm_state \<Rightarrow> (u32 \<times> u32 \<times> nat) list" where
  "frames s = map (\<lambda>r. (r_start r, r_end r, length (block_pool r))) (g_regions s)"

lemma frames_update:
  "same_frame (g_regions s ! i) r' \<Longrightarrow> frames (s\<lparr>g_regions := (g_regions s)[i := r']\<rparr>) = frames s"
  by (rule nth_equalityI) (auto simp: frames_def same_frame_def nth_upd)

lemma in_live_iff: "x \<in> live s \<longleftrightarrow> (\<exists>j < length (g_regions s). x \<in> region_live (g_regions s ! j))"
  unfolding live_def by (metis UN_iff in_set_conv_nth)

lemma in_live_split:
  "i < length (g_regions s) \<Longrightarrow> x \<in> live s \<longleftrightarrow>
     x \<in> region_live (g_regions s ! i) \<or>
     (\<exists>j < length (g_regions s). j \<noteq> i \<and> x \<in> region_live (g_regions s ! j))"
  by (auto simp: in_live_iff)

lemma in_live_update:
  assumes i: "i < length (g_regions s)"
  shows "x \<in> live (s\<lparr>g_regions := (g_regions s)[i := r']\<rparr>) \<longleftrightarrow>
    x \<in> region_live r' \<or> (\<exists>j < length (g_regions s). j \<noteq> i \<and> x \<in> region_live (g_regions s ! j))"
proof
  assume "x \<in> live (s\<lparr>g_regions := (g_regions s)[i := r']\<rparr>)"
  then obtain j where "j < length (g_regions s)" "x \<in> region_live ((g_regions s)[i := r'] ! j)"
    by (auto simp: in_live_iff)
  then show "x \<in> region_live r' \<or> (\<exists>j < length (g_regions s). j \<noteq> i \<and> x \<in> region_live (g_regions s ! j))"
    by (auto simp: nth_upd split: if_splits)
next
  assume "x \<in> region_live r' \<or> (\<exists>j < length (g_regions s). j \<noteq> i \<and> x \<in> region_live (g_regions s ! j))"
  then obtain j where "j < length (g_regions s)" "x \<in> region_live ((g_regions s)[i := r'] ! j)"
    using i by (auto simp: nth_upd intro: that)
  then show "x \<in> live (s\<lparr>g_regions := (g_regions s)[i := r']\<rparr>)"
    by (auto simp: in_live_iff)
qed

lemma live_add:
  assumes "i < length (g_regions s)" and "region_live r' = insert x (region_live (g_regions s ! i))"
  shows "live (s\<lparr>g_regions := (g_regions s)[i := r']\<rparr>) = insert x (live s)"
  unfolding set_eq_iff in_live_update [OF assms(1)] insert_iff in_live_split [OF assms(1)] assms(2)
  by simp

text \<open>A page of one region belongs to no block of another.\<close>

lemma live_region_unique:
  assumes inv: "pmm_inv s" and i: "i < length (g_regions s)" and j: "j < length (g_regions s)"
    and a: "r_start (g_regions s ! i) \<le> a" "a < r_end (g_regions s ! i)"
    and x: "(a, k) \<in> region_live (g_regions s ! j)"
  shows "i = j"
proof (rule ccontr)
  assume "i \<noteq> j"
  have ok: "region_ok (g_regions s ! j)" using inv j by (simp add: pmm_inv_def)
  show False
    using pmm_inv_apart [OF inv i j \<open>i \<noteq> j\<close>] region_live_inside [OF ok x] a
    by (auto simp: regions_apart_def)
qed

lemma live_remove:
  assumes inv: "pmm_inv s" and i: "i < length (g_regions s)"
    and x: "(a, k) \<in> region_live (g_regions s ! i)"
    and r': "region_live r' = region_live (g_regions s ! i) - {(a, k)}"
  shows "live (s\<lparr>g_regions := (g_regions s)[i := r']\<rparr>) = live s - {(a, k)}"
proof -
  have ok: "region_ok (g_regions s ! i)" using inv i by (simp add: pmm_inv_def)
  note u = live_region_unique [OF inv i _ region_live_inside [OF ok x]]
  show ?thesis
    unfolding set_eq_iff in_live_update [OF i] Diff_iff in_live_split [OF i] r' using u by auto
qed

section \<open>Searching the regions\<close>

lemma find_region_loop_Some:
  "find_region_loop P rs i = Some j \<Longrightarrow> i \<le> j \<and> j - i < length rs \<and> P (rs ! (j - i))"
  by (induction P rs i rule: find_region_loop.induct)
    (fastforce simp: nth_Cons' Suc_diff_Suc split: if_splits)+

lemma find_region_loop_None: "find_region_loop P rs i = None \<longleftrightarrow> (\<forall>r \<in> set rs. \<not> P r)"
  by (induction P rs i rule: find_region_loop.induct) auto

lemma find_region_for_order_Some:
  "find_region_for_order rs k = Some i \<Longrightarrow> i < length rs \<and> scan_order (rs ! i) k \<le> MAX_ORDER"
  unfolding find_region_for_order_def by (drule find_region_loop_Some) simp

lemma find_region_by_address_Some:
  "find_region_by_address rs a = Some i \<Longrightarrow> i < length rs \<and> r_start (rs ! i) \<le> a \<and> a < r_end (rs ! i)"
  unfolding find_region_by_address_def by (drule find_region_loop_Some) simp

text \<open>\<open>can_alloc k s\<close>: some free block is large enough for order \<open>k\<close>.\<close>

definition can_alloc :: "nat \<Rightarrow> pmm_state \<Rightarrow> bool" where
  "can_alloc k s \<longleftrightarrow>
     (\<exists>r \<in> set (g_regions s). \<exists>h j. k \<le> j \<and> tiling_of r h = Some (j, True))"

lemma find_region_for_order_None:
  assumes "pmm_inv s"
  shows "find_region_for_order (g_regions s) k = None \<longleftrightarrow> \<not> can_alloc k s"
  using scan_order_iff [OF region_okD(1) [OF pmm_inv_region [OF assms]]]
  unfolding find_region_for_order_def find_region_loop_None can_alloc_def by auto

section \<open>\<open>pmm_alloc_order\<close>\<close>

text \<open>The work of \<open>pmm_alloc_order\<close> inside the region it has chosen.\<close>

lemma region_alloc:
  assumes ok: "region_ok r" and j: "j = scan_order r k" "j \<le> MAX_ORDER"
  obtains t r1 r3 r4 where "free_lists r ! j = Some t"
    and "remove_from_region_freelist (Some t) (Some r) j = ret (True, Some r1)"
    and "split_loop k j t (upd_block t (\<lambda>b. b\<lparr>b_is_free := False\<rparr>) r1) = ret r3"
    and "r4 = upd_block t (\<lambda>b. b\<lparr>b_next := None\<rparr>) r3"
    and "b_address (block_pool r4 ! t) = page_addr r t"
    and "same_frame r r4" and "region_ok r4" and "(page_addr r t, k) \<notin> region_live r"
    and "region_live r4 = insert (page_addr r t, k) (region_live r)"
proof -
  let ?B = "tiling_of r"
  note D = region_okD [OF ok]
  obtain t where t: "free_lists r ! j = Some t" using scan_order_spec(1) [of r k] j by auto
  have Bt: "?B t = Some (j, True)" by (rule core_head(1) [OF D(1) j(2) t])
  note tb = tiling_block [OF D(4) Bt]
  obtain r1 where r1: "remove_from_region_freelist (Some t) (Some r) j = ret (True, Some r1)"
    "region_core {t} r1 (?B(t \<mapsto> (j, False)))" "same_frame r r1"
    using core_remove [OF D(1) Bt] by metis
  let ?r2 = "upd_block t (\<lambda>b. b\<lparr>b_is_free := False\<rparr>) r1"
  have "region_core {} ?r2 (?B(t \<mapsto> (j, False)))"
    by (rule core_set_free [OF r1(2), of _ j]) simp_all
  then obtain r3 where r3: "split_loop k j t ?r2 = ret r3"
    "region_core {} r3 (talloc k j t ?B)" "same_frame ?r2 r3"
    using split_loop_correct [of ?r2 "?B(t \<mapsto> (j, False))" t j k] scan_order_ge [of k r] j
    unfolding talloc_def by auto
  note ta = talloc_correct [OF D(4,2) Bt scan_order_ge [of k r, folded j(1)]]
  let ?r4 = "upd_block t (\<lambda>b. b\<lparr>b_next := None\<rparr>) r3"
  have core4: "region_core {} ?r4 (talloc k j t ?B)" by (rule core_clear_next [OF r3(2) ta(3)])
  have fr: "same_frame r ?r4"
    by (meson r1(3) r3(3) same_frame_trans same_frame_upd)
  have ok4: "region_ok ?r4" "tiling_of ?r4 = talloc k j t ?B" using region_okI [OF core4 ta(2)] by auto
  show thesis
  proof (rule that [OF t r1(1) r3(1) refl _ fr ok4(1)])
    show "b_address (block_pool ?r4 ! t) = page_addr r t"
      unfolding core_addr [OF core4 ta(3)] by (rule page_addr_frame [OF fr])
    show "(page_addr r t, k) \<notin> region_live r"
      unfolding region_live_iff [OF ok tb(4)] using Bt by simp
    show "region_live ?r4 = insert (page_addr r t, k) (region_live r)"
      unfolding region_live_frame [OF fr ok4(2)] ta(4) by (simp add: region_live_def)
  qed
qed

lemma pmm_alloc_order_ok:
  assumes inv: "pmm_inv s" and k: "k \<le> MAX_ORDER" and av: "can_alloc k s"
  obtains a s' where "pmm_alloc_order k s = ret (a, s')" and "pmm_inv s'"
    and "(a, k) \<notin> live s" and "live s' = insert (a, k) (live s)" and "frames s' = frames s"
proof -
  obtain i where i: "find_region_for_order (g_regions s) k = Some i"
    using av find_region_for_order_None [OF inv] by fastforce
  let ?r = "g_regions s ! i"
  have il: "i < length (g_regions s)" and sc: "scan_order ?r k \<le> MAX_ORDER"
    using find_region_for_order_Some [OF i] by simp_all
  have ok: "region_ok ?r" using inv il by (simp add: pmm_inv_def)
  obtain t r1 r3 r4 where t: "free_lists ?r ! scan_order ?r k = Some t"
    and r1: "remove_from_region_freelist (Some t) (Some ?r) (scan_order ?r k) = ret (True, Some r1)"
    and r3: "split_loop k (scan_order ?r k) t (upd_block t (\<lambda>b. b\<lparr>b_is_free := False\<rparr>) r1) = ret r3"
    and r4: "r4 = upd_block t (\<lambda>b. b\<lparr>b_next := None\<rparr>) r3"
    and a: "b_address (block_pool r4 ! t) = page_addr ?r t" and fr: "same_frame ?r r4"
    and ok4: "region_ok r4" and new: "(page_addr ?r t, k) \<notin> region_live ?r"
    and lv: "region_live r4 = insert (page_addr ?r t, k) (region_live ?r)"
    by (rule region_alloc [OF ok refl sc])
  let ?s' = "s\<lparr>g_regions := (g_regions s)[i := r4]\<rparr>"
  have mem: "(page_addr ?r t, k) \<in> region_live r4" using lv by simp
  have "(page_addr ?r t, k) \<notin> live s"
    using live_region_unique [OF inv il, of _ "page_addr ?r t" k] new
      region_live_inside [OF ok4 mem] fr
    unfolding in_live_iff same_frame_def by metis
  moreover have "pmm_alloc_order k s = ret (page_addr ?r t, ?s')"
    using k sc a by (simp add: pmm_alloc_order_def Let_def i t r1 r3 r4)
  ultimately show thesis
    using that pmm_inv_update [OF inv il ok4 fr] live_add [OF il lv] frames_update [OF fr] by simp
qed

lemma pmm_alloc_order_none:
  assumes "pmm_inv s" and "k \<le> MAX_ORDER" and "\<not> can_alloc k s"
  shows "pmm_alloc_order k s = panic ''No free blocks available for order %u'' [of_nat k]"
  using assms find_region_for_order_None [OF assms(1), of k] by (simp add: pmm_alloc_order_def)

lemma pmm_alloc_order_invalid:
  "MAX_ORDER < k \<Longrightarrow>
   pmm_alloc_order k s = panic ''Invalid target order %u for allocation'' [of_nat k]"
  by (simp add: pmm_alloc_order_def)

lemma pmm_alloc_order_cases:
  assumes inv: "pmm_inv s" and "pmm_alloc_order k s = ret (a, s')"
  shows "pmm_inv s'" and "(a, k) \<notin> live s" and "live s' = insert (a, k) (live s)"
    and "k \<le> MAX_ORDER" and "can_alloc k s" and "frames s' = frames s"
proof -
  show k: "k \<le> MAX_ORDER" using assms(2) by (simp add: pmm_alloc_order_def split: if_splits)
  show av: "can_alloc k s" using assms(2) pmm_alloc_order_none [OF inv k] by fastforce
  show "pmm_inv s'" "(a, k) \<notin> live s" "live s' = insert (a, k) (live s)" "frames s' = frames s"
    by (rule pmm_alloc_order_ok [OF inv k av]; use assms(2) in simp)+
qed

section \<open>\<open>pmm_free\<close>\<close>

lemma page_aligned_iff: "a AND (PAGE_SIZE - 1) = 0 \<longleftrightarrow> 4096 dvd unat a"
  unfolding PAGE_SIZE_mask and_mask_eq_0_iff_dvd by simp

lemma find_region_of:
  assumes inv: "pmm_inv s" and i: "i < length (g_regions s)"
    and a: "r_start (g_regions s ! i) \<le> a" "a < r_end (g_regions s ! i)"
  shows "find_region_by_address (g_regions s) a = Some i"
proof -
  have "find_region_by_address (g_regions s) a \<noteq> None"
    using a nth_mem [OF i] unfolding find_region_by_address_def find_region_loop_None by blast
  then obtain j where j: "find_region_by_address (g_regions s) a = Some j" by blast
  note J = find_region_by_address_Some [OF j]
  have "j = i"
  proof (rule ccontr)
    assume "j \<noteq> i"
    then show False using pmm_inv_apart [OF inv _ i, of j] J a by (auto simp: regions_apart_def)
  qed
  with j show ?thesis by simp
qed

lemma unat_BLOCK_SIZE:
  assumes "k \<le> MAX_ORDER"
  shows "unat (BLOCK_SIZE k) = 2 ^ k * 4096"
proof -
  have "(2 :: nat) ^ k \<le> 2 ^ 10" using assms by (intro power_increasing) (simp_all add: MAX_ORDER_def)
  moreover have "unat (push_bit k 1 :: u32) = 2 ^ k"
    using assms by (intro unat_push_bit_one) (simp add: MAX_ORDER_def)
  ultimately show ?thesis by (simp add: BLOCK_SIZE_def unat_mult_nowrap PAGE_SIZE_def)
qed

lemma block_offset_aligned:
  assumes g: "region_geom r" and h: "h < length (block_pool r)" "2 ^ k dvd h" and k: "k \<le> MAX_ORDER"
  shows "(page_addr r h - r_start r) mod BLOCK_SIZE k = 0"
proof -
  have "unat (page_addr r h - r_start r) = h * 4096"
    using geom_page_addr [OF g, of h] h(1) by (simp add: unat_sub_nowrap)
  moreover have "unat (BLOCK_SIZE k) = 2 ^ k * 4096" by (rule unat_BLOCK_SIZE [OF k])
  moreover have "2 ^ k * 4096 dvd h * 4096" using h(2) by (rule mult_dvd_mono) simp
  ultimately have "unat ((page_addr r h - r_start r) mod BLOCK_SIZE k) = 0"
    by (simp add: unat_mod)
  then show ?thesis by (simp add: unat_eq_0)
qed

lemma region_free:
  assumes ok: "region_ok r" and h: "tiling_of r h = Some (k, False)"
  obtains k' h' r' r4 where
    "coalesce_loop k h (upd_block h (\<lambda>b. b\<lparr>b_is_free := True\<rparr>) r) = ret (k', h', r')"
    and "r4 = add_to_region_freelist h' r' k'" and "same_frame r r4" and "region_ok r4"
    and "region_live r4 = region_live r - {(page_addr r h, k)}"
proof -
  let ?B = "tiling_of r" and ?r1 = "upd_block h (\<lambda>b. b\<lparr>b_is_free := True\<rparr>) r"
  note D = region_okD [OF ok]
  have "region_core {h} ?r1 ?B" by (rule core_set_free [OF D(1) h]) simp
  then obtain k' h' r' where c: "coalesce_loop k h ?r1 = ret (k', h', r')" "same_frame ?r1 r'"
    "region_core {} (add_to_region_freelist h' r' k') (tfree k h ?B)"
    using coalesce_loop_correct h by blast
  let ?r4 = "add_to_region_freelist h' r' k'"
  note tf = tfree_correct [OF D(4,2) h]
  have fr: "same_frame r ?r4" using c(2) by (meson same_frame_add same_frame_trans same_frame_upd)
  have ok4: "region_ok ?r4" "tiling_of ?r4 = tfree k h ?B" using region_okI [OF c(3) tf(2)] by auto
  let ?f = "\<lambda>(h, k). (page_addr r h, k)"
  have "inj_on ?f (allocated ?B)"
    using page_addr_inj [OF D(3)] tiling_block(4) [OF D(4)]
    unfolding inj_on_def allocated_def by clarsimp metis
  then have "?f ` (allocated ?B - {(h, k)}) = ?f ` allocated ?B - ?f ` {(h, k)}"
    by (rule inj_on_image_set_diff) (use h in \<open>auto simp: allocated_def\<close>)
  then have "region_live ?r4 = region_live r - {(page_addr r h, k)}"
    unfolding region_live_frame [OF fr ok4(2)] tf(3) by (simp add: region_live_def)
  then show thesis using that [OF c(1) refl fr ok4(1)] by simp
qed

lemma pmm_free_at:
  assumes inv: "pmm_inv s" and i: "i < length (g_regions s)" and r: "r = g_regions s ! i"
    and h: "tiling_of r h = Some (k, False)" and nz: "page_addr r h \<noteq> NULL"
    and c: "coalesce_loop k h (upd_block h (\<lambda>b. b\<lparr>b_is_free := True\<rparr>) r) = ret (k', h', r')"
  shows "pmm_free (page_addr r h) s =
    ret (s\<lparr>g_regions := (g_regions s)[i := add_to_region_freelist h' r' k']\<rparr>)"
proof -
  let ?a = "page_addr r h"
  have ok: "region_ok r" using inv i r by (simp add: pmm_inv_def)
  have x: "(?a, k) \<in> region_live r" using h by (auto simp: region_live_def allocated_def)
  note D = region_okD [OF ok] and T = tiling_block [OF region_okD(4) [OF ok] h]
  have tg: "b_order (block_pool r ! h) = k" "\<not> b_is_free (block_pool r ! h)"
    using tags_okD [OF region_coreD(3) [OF D(1)] h] by simp_all
  have "find_region_by_address (g_regions s) ?a = Some i"
    using find_region_of [OF inv i] region_live_inside [OF ok x] r by simp
  moreover have "?a AND (PAGE_SIZE - 1) = 0"
    using region_live_bounds(3) [OF ok x] by (simp only: page_aligned_iff)
  moreover have "find_block_by_address (Some r) ?a = Some h" by (rule core_find [OF D(1) h])
  moreover have "(?a - r_start r) mod BLOCK_SIZE k = 0" by (rule block_offset_aligned [OF D(3) T(4,2,1)])
  ultimately show ?thesis using nz tg T(1) r c by (simp add: pmm_free_def Let_def not_less)
qed

lemma pmm_free_ok:
  assumes inv: "pmm_inv s" and x: "(a, k) \<in> live s" and nz: "a \<noteq> NULL"
  obtains s' where "pmm_free a s = ret s'" and "pmm_inv s'" and "live s' = live s - {(a, k)}"
    and "frames s' = frames s"
proof -
  obtain i where i: "i < length (g_regions s)" and xi: "(a, k) \<in> region_live (g_regions s ! i)"
    using x in_live_iff by blast
  let ?r = "g_regions s ! i"
  have ok: "region_ok ?r" using inv i by (simp add: pmm_inv_def)
  obtain h where h: "tiling_of ?r h = Some (k, False)" "a = page_addr ?r h" by (rule region_live_cases [OF ok xi])
  obtain k' h' r' r4 where
    c: "coalesce_loop k h (upd_block h (\<lambda>b. b\<lparr>b_is_free := True\<rparr>) ?r) = ret (k', h', r')"
    and r4: "r4 = add_to_region_freelist h' r' k'" and fr: "same_frame ?r r4" and ok4: "region_ok r4"
    and lv: "region_live r4 = region_live ?r - {(a, k)}"
    using region_free [OF ok h(1)] h(2) by metis
  have "pmm_free a s = ret (s\<lparr>g_regions := (g_regions s)[i := r4]\<rparr>)"
    using pmm_free_at [OF inv i refl h(1) _ c] nz h(2) r4 by simp
  then show thesis
    using that pmm_inv_update [OF inv i ok4 fr] live_remove [OF inv i xi lv] frames_update [OF fr] by simp
qed

text \<open>The panics of \<open>pmm_free\<close>.\<close>

lemma pmm_free_errors:
  shows pmm_free_NULL: "pmm_free NULL s = ret s"
    and pmm_free_unaligned: "\<not> 4096 dvd unat a \<Longrightarrow> pmm_free a s =
      panic ''Attempted to free a pointer %p that is not properly aligned'' [a]"
    and pmm_free_outside: "a \<noteq> NULL \<Longrightarrow> 4096 dvd unat a \<Longrightarrow>
      (\<And>r. r \<in> set (g_regions s) \<Longrightarrow> a < r_start r \<or> r_end r \<le> a) \<Longrightarrow> pmm_free a s =
      panic ''Attempted to free memory at address %p which does not belong to any region'' [a]"
proof -
  show "pmm_free NULL s = ret s" by (simp add: pmm_free_def)
  show "pmm_free a s = panic ''Attempted to free a pointer %p that is not properly aligned'' [a]"
    if "\<not> 4096 dvd unat a"
    unfolding pmm_free_def page_aligned_iff using that by auto
  assume a: "a \<noteq> NULL" "4096 dvd unat a"
    and o': "\<And>r. r \<in> set (g_regions s) \<Longrightarrow> a < r_start r \<or> r_end r \<le> a"
  have "find_region_by_address (g_regions s) a = None"
    unfolding find_region_by_address_def find_region_loop_None using o' by fastforce
  then show "pmm_free a s =
      panic ''Attempted to free memory at address %p which does not belong to any region'' [a]"
    unfolding pmm_free_def page_aligned_iff using a by simp
qed

lemma pmm_free_free_block:
  assumes inv: "pmm_inv s" and r: "r \<in> set (g_regions s)" and h: "tiling_of r h = Some (k, True)"
    and nz: "page_addr r h \<noteq> NULL"
  shows "pmm_free (page_addr r h) s =
    panic ''Double free detected for pointer %p'' [page_addr r h]"
proof -
  let ?a = "page_addr r h"
  obtain i where i: "i < length (g_regions s)" "r = g_regions s ! i" using r by (metis in_set_conv_nth)
  have ok: "region_ok r" by (rule pmm_inv_region [OF inv r])
  note D = region_okD [OF ok]
  have hl: "h < length (block_pool r)" by (rule tiling_block(4) [OF D(4) h])
  have u: "unat ?a = unat (r_start r) + h * 4096" using D(3) hl by (intro geom_page_addr) simp_all
  have "r_start r \<le> ?a" "?a < r_end r"
    using u hl D(3) by (simp_all add: word_le_nat_alt word_less_nat_alt region_geom_def)
  then have "find_region_by_address (g_regions s) ?a = Some i"
    using find_region_of [OF inv i(1)] i(2) by simp
  moreover have "4096 dvd unat ?a" using u D(3) by (simp add: region_geom_def)
  moreover have "find_block_by_address (Some r) ?a = Some h" by (rule core_find [OF D(1) h])
  moreover have "b_is_free (block_pool r ! h)"
    using tags_okD(2) [OF region_coreD(3) [OF D(1)] h] by simp
  ultimately show ?thesis
    unfolding pmm_free_def page_aligned_iff using nz i(2) by (simp add: Let_def)
qed

section \<open>\<open>pmm_add_region\<close> and \<open>pmm_init\<close>\<close>

text \<open>The whole pages inside \<open>sz\<close> bytes from \<open>start\<close>, as byte bounds.\<close>

definition first_page :: "u32 \<Rightarrow> nat" where
  "first_page start = (unat start + 4095) div 4096 * 4096"

definition last_page :: "u32 \<Rightarrow> u32 \<Rightarrow> nat" where
  "last_page start sz = (unat start + unat sz) div 4096 * 4096"

definition region_pages :: "u32 \<Rightarrow> u32 \<Rightarrow> nat" where
  "region_pages start sz = (last_page start sz - first_page start) div 4096"

text \<open>What a caller must provide: a non-empty range that does not wrap.\<close>

definition ram_range_ok :: "u32 \<Rightarrow> u32 \<Rightarrow> bool" where
  "ram_range_ok start sz \<longleftrightarrow>
     0 < unat sz \<and> unat start + unat sz < 4294967296 \<and> unat start + 4095 < 4294967296"

lemma ram_range_bounds:
  assumes "ram_range_ok start sz"
  shows "unat (start + sz) = unat start + unat sz" and "\<not> start + sz \<le> start"
    and "unat (kalign_up start PAGE_SIZE) = first_page start"
    and "unat (kalign_down (start + sz) PAGE_SIZE) = last_page start sz"
proof -
  show e: "unat (start + sz) = unat start + unat sz"
    using assms by (intro unat_add_nowrap) (simp add: ram_range_ok_def)
  then show "\<not> start + sz \<le> start"
    using assms unfolding word_le_nat_alt ram_range_ok_def by linarith
  have P: "PAGE_SIZE = 2 ^ 12" by (simp add: PAGE_SIZE_def)
  show "unat (kalign_up start PAGE_SIZE) = first_page start"
    unfolding P using assms by (subst unat_kalign_up) (simp_all add: first_page_def ram_range_ok_def)
  show "unat (kalign_down (start + sz) PAGE_SIZE) = last_page start sz"
    unfolding P by (subst unat_kalign_down) (simp add: last_page_def e)
qed

lemma pmm_add_region_small:
  assumes "ram_range_ok start sz" and "last_page start sz \<le> first_page start"
  shows "pmm_add_region start sz s = ret s"
  using ram_range_bounds [OF assms(1)] assms(2)
  by (simp add: pmm_add_region_def Let_def word_le_nat_alt)

lemma pmm_add_region_overflow:
  assumes "4294967296 \<le> unat start + unat sz \<or> sz = 0"
  shows "pmm_add_region start sz s =
    panic ''Memory region overflows address space (start=%p, size=%u)'' [start, sz]"
proof -
  have "start + sz \<le> start"
  proof (cases "sz = 0")
    case False
    then have "unat (start + sz) = unat start + unat sz - 4294967296"
      using assms by (intro unat_add_wrap) simp
    then show ?thesis using unat_u32_lt [of sz] by (simp add: word_le_nat_alt)
  qed simp
  then show ?thesis by (simp add: pmm_add_region_def)
qed

definition heap_space :: "nat \<Rightarrow> pmm_state \<Rightarrow> bool" where
  "heap_space n s \<longleftrightarrow> unat (g_cursor (emm s)) + n \<le> unat (g_end (emm s))"

lemma emm_alloc_space:
  assumes "unat (g_cursor e) + unat sz \<le> unat (g_end e)"
  shows "emm_alloc sz e = ret (g_cursor e, e\<lparr>g_cursor := g_cursor e + sz\<rparr>)"
    and "unat (g_cursor e + sz) = unat (g_cursor e) + unat sz"
proof -
  have *: "unat (g_cursor e) + unat sz < 4294967296" using assms unat_u32_lt [of "g_end e"] by linarith
  show "emm_alloc sz e = ret (g_cursor e, e\<lparr>g_cursor := g_cursor e + sz\<rparr>)"
    using assms emm_alloc_ret_iff [OF *] by blast
  show "unat (g_cursor e + sz) = unat (g_cursor e) + unat sz" by (rule unat_add_nowrap [OF *])
qed

lemma fresh_region_carved:
  assumes n: "0 < n" "unat pool_size = n" and e: "unat e = unat a + n * 4096" and a: "4096 dvd unat a"
  defines "r \<equiv> \<lparr>free_lists = replicate NUM_ORDERS None,
      block_pool = map (\<lambda>index. \<lparr>b_address = a + of_nat index * PAGE_SIZE, b_order = 0,
        b_is_free = True, b_next = None\<rparr>) [0..<n],
      block_pool_size = pool_size, r_start = a, r_end = e\<rparr>"
  obtains r' where "carve_loop n 0 r = ret r'" and "r_start r' = a" and "r_end r' = e"
    and "length (block_pool r') = n" and "region_ok r'" and "maximal n (tiling_of r')"
proof -
  have len: "length (block_pool r) = n" by (simp add: r_def)
  have g: "region_geom r"
    using n e a by (simp add: region_geom_def r_def page_addr_def)
  have "region_core {0..<n} r (\<lambda>i. if i < n then Some (0, False) else None)"
    using fresh_region_core [OF g] by (simp add: len) (simp add: r_def)
  from carve_loop_correct [OF this len [symmetric]]
  obtain r' B where r': "carve_loop n 0 r = ret r'" "same_frame r r'" "region_core {} r' B" "maximal n B"
    by (auto simp: maximal_below_def)
  have len': "length (block_pool r') = n" using r'(2) len by (simp add: same_frame_def)
  have "coalesced B"
    using maximal_coalesced [OF region_coreD(2) [OF r'(3)]] r'(4) len' by simp
  then have "region_ok r'" "tiling_of r' = B" using region_okI [OF r'(3)] by simp_all
  moreover have "r_start r' = a" "r_end r' = e" using r'(2) by (simp_all add: same_frame_def r_def)
  ultimately show thesis using that [OF r'(1) _ _ len'] r'(4) by simp
qed

text \<open>A maximal tiling has every block free.\<close>

lemma maximal_live: "maximal n (tiling_of r) \<Longrightarrow> region_live r = {}"
  by (auto simp: region_live_def allocated_def maximal_def)

lemma pmm_inv_append:
  assumes "pmm_inv s" and "region_ok r" and "\<And>q. q \<in> set (g_regions s) \<Longrightarrow> regions_apart r q"
  shows "pmm_inv (s\<lparr>emm := e, g_regions := g_regions s @ [r]\<rparr>)"
  using assms nth_mem unfolding pmm_inv_def
  by (auto simp: nth_append less_Suc_eq)

lemma pmm_add_region_ok:
  assumes inv: "pmm_inv s" and rng: "ram_range_ok start sz"
    and ne: "first_page start < last_page start sz"
    and heap: "heap_space (64 + 12 * region_pages start sz) s"
    and apart: "\<And>r. r \<in> set (g_regions s) \<Longrightarrow>
      unat (r_end r) \<le> first_page start \<or> last_page start sz \<le> unat (r_start r)"
  obtains r s' where "pmm_add_region start sz s = ret s'" and "g_regions s' = g_regions s @ [r]"
    and "pmm_inv s'" and "live s' = live s"
    and "unat (r_start r) = first_page start" and "unat (r_end r) = last_page start sz"
    and "maximal (region_pages start sz) (tiling_of r)"
    and "unat (g_cursor (emm s')) = unat (g_cursor (emm s)) + 64 + 12 * region_pages start sz"
    and "g_end (emm s') = g_end (emm s)"
proof -
  let ?n = "region_pages start sz" and ?e = "emm s"
  note R = ram_range_bounds [OF rng]
  define a where "a = kalign_up start PAGE_SIZE"
  define e where "e = kalign_down (start + sz) PAGE_SIZE"
  have ae: "unat a = first_page start" "unat e = last_page start sz" using R by (simp_all add: a_def e_def)
  have al: "4096 dvd first_page start" "4096 dvd last_page start sz"
    by (simp_all add: first_page_def last_page_def)
  have diff: "unat (e - a) = last_page start sz - first_page start"
    using ae ne by (simp add: unat_sub_nowrap)
  then have ps: "unat ((e - a) div PAGE_SIZE) = ?n" by (simp add: unat_div region_pages_def)
  have n: "0 < ?n" "last_page start sz = first_page start + ?n * 4096"
    using al ne by (auto simp: region_pages_def dvd_diff_nat elim!: dvdE)
  have "?n * 4096 < 4294967296" using n(2) ae(2) unat_u32_lt [of e] by linarith
  then have bs: "unat ((e - a) div PAGE_SIZE * sizeof_pmm_block_t) = 12 * ?n"
    by (subst unat_mult_nowrap) (simp_all add: ps sizeof_pmm_block_t_def)
  let ?e1 = "?e\<lparr>g_cursor := g_cursor ?e + sizeof_pmm_region_t\<rparr>"
  have h1: "unat (g_cursor ?e) + unat sizeof_pmm_region_t \<le> unat (g_end ?e)"
    using heap by (simp add: heap_space_def sizeof_pmm_region_t_def)
  have h2: "unat (g_cursor ?e1) + unat ((e - a) div PAGE_SIZE * sizeof_pmm_block_t) \<le> unat (g_end ?e1)"
    using heap emm_alloc_space(2) [OF h1] bs by (simp add: heap_space_def sizeof_pmm_region_t_def)
  note A1 = emm_alloc_space [OF h1] and A2 = emm_alloc_space [OF h2]
  obtain r where r: "carve_loop ?n 0 \<lparr>free_lists = replicate NUM_ORDERS None,
      block_pool = map (\<lambda>index. \<lparr>b_address = a + of_nat index * PAGE_SIZE, b_order = 0,
        b_is_free = True, b_next = None\<rparr>) [0..<?n],
      block_pool_size = (e - a) div PAGE_SIZE, r_start = a, r_end = e\<rparr> = ret r"
    and fr: "r_start r = a" "r_end r = e" and ok: "region_ok r" and mx: "maximal ?n (tiling_of r)"
    by (rule fresh_region_carved [OF n(1) ps, of e a]) (use ae n al in simp_all)
  let ?c = "g_cursor ?e + sizeof_pmm_region_t + (e - a) div PAGE_SIZE * sizeof_pmm_block_t"
  let ?s' = "s\<lparr>emm := ?e\<lparr>g_cursor := ?c\<rparr>, g_regions := g_regions s @ [r]\<rparr>"
  have "pmm_add_region start sz s = ret ?s'"
    using R(2) ne ae A1(1) A2(1) r ps
    by (simp add: pmm_add_region_def Let_def word_le_nat_alt flip: a_def e_def)
  moreover have "pmm_inv ?s'"
    using apart by (intro pmm_inv_append [OF inv ok]) (simp add: regions_apart_def word_le_nat_alt fr ae disj_commute)
  moreover have "live ?s' = live s" using maximal_live [OF mx] by (simp add: live_def)
  moreover have "unat ?c = unat (g_cursor ?e) + 64 + 12 * ?n"
    using A1(2) A2(2) bs by (simp add: sizeof_pmm_region_t_def)
  ultimately show thesis using that [of ?s' r] fr ae mx by simp
qed

text \<open>The bytes the manager hands out.\<close>

definition managed :: "pmm_state \<Rightarrow> nat set" where
  "managed s = (\<Union>r \<in> set (g_regions s). {unat (r_start r)..<unat (r_end r)})"

lemma managed_frames: "frames s' = frames s \<Longrightarrow> managed s' = managed s"
proof -
  have "managed s = (\<Union>(a, e, n) \<in> set (frames s). {unat a..<unat e})" for s
    by (simp add: managed_def frames_def)
  then show "frames s' = frames s \<Longrightarrow> managed s' = managed s" by simp
qed

lemma live_managed:
  assumes "pmm_inv s" and "(a, k) \<in> live s"
  shows "4096 dvd unat a \<and> {unat a..<unat a + 2 ^ k * 4096} \<subseteq> managed s"
proof -
  obtain r where r: "r \<in> set (g_regions s)" "(a, k) \<in> region_live r"
    using assms(2) by (auto simp: live_def)
  note B = region_live_bounds [OF pmm_inv_region [OF assms(1) r(1)] r(2)]
  have "{unat a..<unat a + 2 ^ k * 4096} \<subseteq> {unat (r_start r)..<unat (r_end r)}" using B by auto
  then show ?thesis using B(3) r(1) by (auto simp: managed_def)
qed

text \<open>
  A RAM region as the loader reports it, in 64 bits: its first and last byte bounds, and the whole
  pages inside it.
\<close>

definition ram_start :: "boot_memory_region_t \<Rightarrow> nat" where
  "ram_start r = unat (base_address r)"

definition ram_end :: "boot_memory_region_t \<Rightarrow> nat" where
  "ram_end r = unat (base_address r) + unat (region_length r)"

definition ram_first :: "boot_memory_region_t \<Rightarrow> nat" where
  "ram_first r = (ram_start r + 4095) div 4096 * 4096"

definition ram_last :: "boot_memory_region_t \<Rightarrow> nat" where
  "ram_last r = ram_end r div 4096 * 4096"

definition ram_pages :: "boot_memory_region_t \<Rightarrow> nat set" where
  "ram_pages r = {ram_first r..<ram_last r}"

text \<open>
  What \<open>pmm_init\<close> needs of the list: regions that are not empty, end below 4 GiB, do not start in the
  last page there, and do not overlap.
\<close>

definition ram_ok :: "boot_memory_region_t \<Rightarrow> bool" where
  "ram_ok r \<longleftrightarrow> region_length r \<noteq> 0 \<and> ram_end r < 4294967296 \<and> ram_start r + 4095 < 4294967296"

definition ram_apart :: "boot_memory_region_t \<Rightarrow> boot_memory_region_t \<Rightarrow> bool" where
  "ram_apart p q \<longleftrightarrow> ram_end p \<le> ram_start q \<or> ram_end q \<le> ram_start p"

fun ram_list_ok :: "boot_memory_region_t list \<Rightarrow> bool" where
  "ram_list_ok [] \<longleftrightarrow> True"
| "ram_list_ok (r # rs) \<longleftrightarrow> ram_ok r \<and> (\<forall>q \<in> set rs. ram_apart r q) \<and> ram_list_ok rs"

definition ram_metadata :: "boot_memory_region_t list \<Rightarrow> nat" where
  "ram_metadata rs = (\<Sum>r\<leftarrow>rs. 64 + 12 * ((ram_last r - ram_first r) div 4096))"

lemma ram_bounds: "ram_start r \<le> ram_first r" "ram_last r \<le> ram_end r"
proof -
  show "ram_last r \<le> ram_end r" by (simp add: ram_last_def)
  show "ram_start r \<le> ram_first r" unfolding ram_first_def by linarith
qed

text \<open>The 32-bit start and size \<open>pmm_init\<close> passes on stand for the region.\<close>

lemma ram_seen:
  assumes "ram_ok r"
  defines "a \<equiv> ucast (base_address r) :: u32" and "n \<equiv> ucast (region_length r) :: u32"
  shows "ram_range_ok a n" and "first_page a = ram_first r" and "last_page a n = ram_last r"
    and "region_pages a n = (ram_last r - ram_first r) div 4096"
proof -
  have "unat (base_address r) < 4294967296" "unat (region_length r) < 4294967296"
    using assms(1) by (simp_all add: ram_ok_def ram_end_def)
  then have u: "unat a = unat (base_address r)" "unat n = unat (region_length r)"
    unfolding a_def n_def by (simp_all add: unsigned_ucast_eq take_bit_eq_mod)
  show "ram_range_ok a n"
    using assms(1) by (simp add: ram_range_ok_def u ram_ok_def ram_end_def ram_start_def unat_gt_0)
  show f: "first_page a = ram_first r" "last_page a n = ram_last r"
    by (simp_all add: first_page_def last_page_def u ram_first_def ram_last_def ram_start_def ram_end_def)
  show "region_pages a n = (ram_last r - ram_first r) div 4096" by (simp add: region_pages_def f)
qed

definition ram_free_of :: "pmm_state \<Rightarrow> boot_memory_region_t \<Rightarrow> bool" where
  "ram_free_of s q \<longleftrightarrow>
     (\<forall>r \<in> set (g_regions s). unat (r_end r) \<le> ram_start q \<or> ram_end q \<le> unat (r_start r))"

lemma pmm_init_step:
  assumes inv: "pmm_inv s" and rng: "ram_ok q" and heap: "heap_space (ram_metadata [q] + m) s"
    and free: "ram_free_of s q"
  obtains s' where "pmm_add_region (ucast (base_address q)) (ucast (region_length q)) s = ret s'" and "pmm_inv s'"
    and "live s' = live s" and "managed s' = managed s \<union> ram_pages q" and "heap_space m s'"
    and "\<And>p. ram_free_of s p \<Longrightarrow> ram_apart q p \<Longrightarrow> ram_free_of s' p"
proof (cases "ram_first q < ram_last q")
  case False
  then have "pmm_add_region (ucast (base_address q)) (ucast (region_length q)) s = ret s" and "ram_pages q = {}"
    using pmm_add_region_small [OF ram_seen(1) [OF rng]] by (simp_all add: ram_pages_def ram_seen [OF rng])
  with that [of s] inv heap show thesis by (simp add: heap_space_def)
next
  case True
  note S = ram_seen [OF rng] and B = ram_bounds [of q]
  have apart: "unat (r_end r) \<le> ram_first q \<or> ram_last q \<le> unat (r_start r)" if "r \<in> set (g_regions s)" for r
    using free B that unfolding ram_free_of_def by fastforce
  obtain r s' where s': "pmm_add_region (ucast (base_address q)) (ucast (region_length q)) s = ret s'"
    "g_regions s' = g_regions s @ [r]" "pmm_inv s'" "live s' = live s"
    and r: "unat (r_start r) = ram_first q" "unat (r_end r) = ram_last q"
    and e: "unat (g_cursor (emm s')) = unat (g_cursor (emm s)) + ram_metadata [q]" "g_end (emm s') = g_end (emm s)"
    by (rule pmm_add_region_ok [OF inv S(1)])
      (use True heap apart in \<open>auto simp: S heap_space_def ram_metadata_def\<close>)
  have "managed s' = managed s \<union> ram_pages q" by (auto simp: managed_def s' r ram_pages_def)
  moreover have "heap_space m s'" using heap e by (simp add: heap_space_def)
  moreover have "ram_free_of s' p" if "ram_free_of s p" and "ram_apart q p" for p
    using that B by (auto simp: ram_free_of_def ram_apart_def s' r)
  ultimately show thesis using that s' by blast
qed

lemma pmm_init_loop_ok:
  assumes "pmm_inv s" and "ram_list_ok rs" and "heap_space (ram_metadata rs) s"
    and "\<And>q. q \<in> set rs \<Longrightarrow> ram_free_of s q"
  shows "\<exists>s'. pmm_init_loop rs s = ret s' \<and> pmm_inv s' \<and> live s' = live s \<and>
    managed s' = managed s \<union> (\<Union>r \<in> set rs. ram_pages r)"
  using assms
proof (induction rs arbitrary: s)
  case (Cons q rs)
  have rng: "ram_ok q" and ok: "ram_list_ok rs" and ap: "\<forall>p \<in> set rs. ram_apart q p"
    using Cons.prems(2) by simp_all
  have "heap_space (ram_metadata [q] + ram_metadata rs) s"
    using Cons.prems(3) by (simp add: ram_metadata_def)
  then obtain s1 where s1: "pmm_add_region (ucast (base_address q)) (ucast (region_length q)) s = ret s1" "pmm_inv s1"
    "live s1 = live s" "managed s1 = managed s \<union> ram_pages q" "heap_space (ram_metadata rs) s1"
    and fr: "\<And>p. ram_free_of s p \<Longrightarrow> ram_apart q p \<Longrightarrow> ram_free_of s1 p"
    using pmm_init_step [OF Cons.prems(1) rng _ Cons.prems(4) [of q]] by (metis list.set_intros(1))
  obtain s' where "pmm_init_loop rs s1 = ret s'" "pmm_inv s'" "live s' = live s1"
    "managed s' = managed s1 \<union> (\<Union>r \<in> set rs. ram_pages r)"
    using Cons.IH [OF s1(2) ok s1(5)] fr ap Cons.prems(4) by (metis list.set_intros(2))
  with s1 show ?case by (auto simp: Un_assoc)
qed simp

lemma pmm_init_fresh:
  assumes "g_regions s = []" and "ram_list_ok (ram_regions bi)"
    and "heap_space (ram_metadata (ram_regions bi)) s"
  shows "\<exists>s'. pmm_init bi s = ret s' \<and> pmm_inv s' \<and> live s' = {} \<and>
    managed s' = (\<Union>r \<in> set (ram_regions bi). ram_pages r)"
proof -
  have "pmm_inv s" "live s = {}" "managed s = {}" "ram_free_of s q" for q
    using assms(1) by (simp_all add: pmm_inv_def live_def managed_def ram_free_of_def)
  then show ?thesis using pmm_init_loop_ok [OF _ assms(2,3)] by (simp add: pmm_init_def)
qed

text \<open>
  The code only looks at the low 32 bits of a region: it sees \<open>wrapped r\<close>, which is the region itself
  when it ends below 4 GiB.
\<close>

definition wrapped :: "boot_memory_region_t \<Rightarrow> boot_memory_region_t" where
  "wrapped r = r\<lparr>base_address := take_bit 32 (base_address r), region_length := take_bit 32 (region_length r)\<rparr>"

lemma pmm_init_loop_wrapped: "pmm_init_loop (map wrapped rs) s = pmm_init_loop rs s"
proof -
  have "(ucast (take_bit 32 w) :: u32) = ucast w" for w :: u64
    by (rule bit_word_eqI) (simp add: bit_ucast_iff bit_take_bit_iff)
  then have w: "(ucast (base_address (wrapped r)) :: u32) = ucast (base_address r)"
    "(ucast (region_length (wrapped r)) :: u32) = ucast (region_length r)" for r
    by (simp_all add: wrapped_def)
  have "pmm_init_loop (map wrapped rs) = pmm_init_loop rs"
  proof (induction rs)
    case (Cons r rs)
    then show ?case by (intro ext) (simp add: w)
  qed simp
  then show ?thesis by simp
qed

lemma wrapped_id: "ram_end r < 4294967296 \<Longrightarrow> wrapped r = r"
proof -
  have "take_bit 32 w = w" if "unat w < 4294967296" for w :: u64
    using that by (simp add: word_unat_eq_iff unsigned_take_bit_eq take_bit_nat_eq_self)
  then show "ram_end r < 4294967296 \<Longrightarrow> wrapped r = r" by (simp add: wrapped_def ram_end_def)
qed

lemma managed_below: "x \<in> managed s \<Longrightarrow> x < 4294967296"
  by (auto simp: managed_def intro: less_trans [OF _ unat_u32_lt])

section \<open>Sizes and orders\<close>

lemma size_to_order_loop_spec:
  assumes "c \<le> Suc MAX_ORDER" and "unat bs = 2 ^ c * 4096" and "c = 0 \<or> 2 ^ (c - 1) * 4096 < unat sz"
    and "k = size_to_order_loop sz bs c"
  shows "k \<le> Suc MAX_ORDER \<and> (k \<le> MAX_ORDER \<longrightarrow> unat sz \<le> 2 ^ k * 4096) \<and>
    (k = 0 \<or> 2 ^ (k - 1) * 4096 < unat sz)"
  using assms
proof (induction sz bs c rule: size_to_order_loop.induct)
  case (1 sz bs c)
  show ?case
  proof (cases "bs < sz \<and> c \<le> MAX_ORDER")
    case False
    then have "k = c" unfolding "1.prems"(4) by (subst size_to_order_loop.simps) (simp only: if_False)
    then show ?thesis using False "1.prems"(1-3) by (auto simp: word_less_nat_alt)
  next
    case True
    have "(2 :: nat) ^ c \<le> 2 ^ 10" using True by (intro power_increasing) (simp_all add: MAX_ORDER_def)
    then have "unat (push_bit 1 bs) = 2 ^ Suc c * 4096"
      using "1.prems"(2) by (simp add: push_bit_eq_mult) (subst unat_mult_nowrap, simp_all)
    moreover have "2 ^ c * 4096 < unat sz" using True "1.prems"(2) by (simp add: word_less_nat_alt)
    moreover have "k = size_to_order_loop sz (push_bit 1 bs) (c + 1)"
      unfolding "1.prems"(4) using True by (subst size_to_order_loop.simps) simp
    ultimately show ?thesis using "1.IH" [OF True] True by simp
  qed
qed

text \<open>\<open>size_to_order\<close> picks the least order whose blocks hold \<open>sz\<close> bytes.\<close>

lemma size_to_order_Some:
  assumes "size_to_order sz = Some k"
  shows "k \<le> MAX_ORDER" and "unat sz \<le> 2 ^ k * 4096" and "j < k \<Longrightarrow> 2 ^ j * 4096 < unat sz"
proof -
  let ?k = "size_to_order_loop sz (BLOCK_SIZE 0) 0"
  have k: "k = ?k" "k \<le> MAX_ORDER" using assms by (auto simp: size_to_order_def Let_def split: if_splits)
  note S = size_to_order_loop_spec [OF _ _ _ k(1)]
  show "k \<le> MAX_ORDER" "unat sz \<le> 2 ^ k * 4096" using S k by (simp_all add: unat_BLOCK_SIZE)
  assume "j < k"
  then have "(2 :: nat) ^ j \<le> 2 ^ (k - 1)" by (intro power_increasing) simp_all
  moreover have "2 ^ (k - 1) * 4096 < unat sz" using S \<open>j < k\<close> by (simp add: unat_BLOCK_SIZE)
  ultimately show "2 ^ j * 4096 < unat sz" by linarith
qed

lemma size_to_order_None:
  "size_to_order sz = None \<longleftrightarrow> 2 ^ MAX_ORDER * 4096 < unat sz"
proof -
  let ?k = "size_to_order_loop sz (BLOCK_SIZE 0) 0"
  have S: "?k \<le> Suc MAX_ORDER \<and> (?k \<le> MAX_ORDER \<longrightarrow> unat sz \<le> 2 ^ ?k * 4096) \<and>
    (?k = 0 \<or> 2 ^ (?k - 1) * 4096 < unat sz)"
    by (rule size_to_order_loop_spec) (simp_all add: unat_BLOCK_SIZE)
  have "unat sz \<le> 2 ^ MAX_ORDER * 4096" if k: "?k \<le> MAX_ORDER"
  proof -
    have "(2 :: nat) ^ ?k \<le> 2 ^ MAX_ORDER" using k by (intro power_increasing) simp_all
    moreover have "unat sz \<le> 2 ^ ?k * 4096" using S k by simp
    ultimately show ?thesis by linarith
  qed
  moreover have "2 ^ MAX_ORDER * 4096 < unat sz" if "\<not> ?k \<le> MAX_ORDER"
  proof -
    have "?k = Suc MAX_ORDER" using that S by simp
    with S show ?thesis by simp
  qed
  ultimately show ?thesis by (auto simp: size_to_order_def Let_def not_less)
qed

lemma pmm_alloc_size_eq:
  "0 < unat sz \<Longrightarrow> size_to_order sz = Some k \<Longrightarrow> pmm_alloc_size sz s = pmm_alloc_order k s"
  by (auto simp: pmm_alloc_size_def)

lemma pmm_alloc_pages_eq:
  assumes "0 < unat n" and "unat n \<le> 1024"
  shows "pmm_alloc_pages n s = pmm_alloc_size (n * PAGE_SIZE) s" and "unat (n * PAGE_SIZE) = unat n * 4096"
proof -
  have "\<not> (- 1) div PAGE_SIZE < n"
    using assms(2) by (simp add: word_less_nat_alt PAGE_SIZE_def unat_div)
  then show "pmm_alloc_pages n s = pmm_alloc_size (n * PAGE_SIZE) s"
    using assms(1) by (auto simp: pmm_alloc_pages_def)
  show "unat (n * PAGE_SIZE) = unat n * 4096"
    using assms(2) by (subst unat_mult_nowrap) (simp_all add: PAGE_SIZE_def)
qed

section \<open>The contract of a page allocator\<close>

text \<open>
  A client keeps a ledger of the blocks it holds: it enters what \<open>alloc\<close> returns and strikes
  what it passes to \<open>free\<close>. It frees only blocks it holds, and never frame 0, whose
  address is NULL.
\<close>

inductive client_step ::
  "(nat \<Rightarrow> 's \<Rightarrow> (u32 \<times> 's) res) \<Rightarrow> (u32 \<Rightarrow> 's \<Rightarrow> 's res) \<Rightarrow>
   (u32 \<times> nat) set \<times> 's \<Rightarrow> (u32 \<times> nat) set \<times> 's \<Rightarrow> bool"
  for al fr where
  client_alloc: "al k s = ret (a, s') \<Longrightarrow> client_step al fr (L, s) (insert (a, k) L, s')"
| client_free: "(a, k) \<in> L \<Longrightarrow> a \<noteq> NULL \<Longrightarrow> fr a s = ret s' \<Longrightarrow>
    client_step al fr (L, s) (L - {(a, k)}, s')"

inductive_cases client_stepE: "client_step al fr (L, s) (L', s')"

abbreviation client_run ::
  "(nat \<Rightarrow> 's \<Rightarrow> (u32 \<times> 's) res) \<Rightarrow> (u32 \<Rightarrow> 's \<Rightarrow> 's res) \<Rightarrow>
   (u32 \<times> nat) set \<times> 's \<Rightarrow> (u32 \<times> nat) set \<times> 's \<Rightarrow> bool" where
  "client_run al fr \<equiv> (client_step al fr)\<^sup>*\<^sup>*"

locale page_allocator =
  fixes inv :: "'s \<Rightarrow> bool" and lv :: "'s \<Rightarrow> (u32 \<times> nat) set"
    and al :: "nat \<Rightarrow> 's \<Rightarrow> (u32 \<times> 's) res" and fr :: "u32 \<Rightarrow> 's \<Rightarrow> 's res"
  assumes al_inv: "inv s \<Longrightarrow> al k s = ret (a, s') \<Longrightarrow> inv s'"
    and al_new: "inv s \<Longrightarrow> al k s = ret (a, s') \<Longrightarrow> (a, k) \<notin> lv s"
    and al_live: "inv s \<Longrightarrow> al k s = ret (a, s') \<Longrightarrow> lv s' = insert (a, k) (lv s)"
    and fr_ret: "inv s \<Longrightarrow> (a, k) \<in> lv s \<Longrightarrow> a \<noteq> NULL \<Longrightarrow> \<exists>s'. fr a s = ret s'"
    and fr_inv: "inv s \<Longrightarrow> (a, k) \<in> lv s \<Longrightarrow> a \<noteq> NULL \<Longrightarrow> fr a s = ret s' \<Longrightarrow> inv s'"
    and fr_live: "inv s \<Longrightarrow> (a, k) \<in> lv s \<Longrightarrow> a \<noteq> NULL \<Longrightarrow> fr a s = ret s' \<Longrightarrow> lv s' = lv s - {(a, k)}"
    and lv_apart: "inv s \<Longrightarrow> x \<in> lv s \<Longrightarrow> y \<in> lv s \<Longrightarrow> x \<noteq> y \<Longrightarrow> blocks_apart x y"
begin

lemma step_ledger:
  assumes "client_step al fr (L, s) (L', s')" and "inv s" and "lv s = L \<union> K" and "L \<inter> K = {}"
  shows "inv s' \<and> lv s' = L' \<union> K \<and> L' \<inter> K = {}"
  using assms
  by (elim client_stepE) (auto dest: al_inv al_new al_live fr_inv fr_live)

text \<open>What the others hold, \<open>K\<close>, is never handed out and never taken away.\<close>

lemma run_ledger:
  assumes "client_run al fr (L, s) (L', s')" and "inv s" and "lv s = L \<union> K" and "L \<inter> K = {}"
  shows "inv s' \<and> lv s' = L' \<union> K \<and> L' \<inter> K = {}"
  using assms(1)
proof (induction "(L', s')" arbitrary: L' s' rule: rtranclp_induct)
  case base
  then show ?case using assms(2-) by simp
next
  case (step y)
  obtain M t where y: "y = (M, t)" by (cases y)
  then show ?case using step step_ledger [of M t L' s' K] by simp
qed

lemma run_apart:
  assumes "client_run al fr ({}, s) (L, s')" and "inv s" and "x \<in> L" and "y \<in> L \<union> lv s" and "x \<noteq> y"
  shows "blocks_apart x y"
proof -
  have "inv s'" and "lv s' = L \<union> lv s" using run_ledger [OF assms(1,2), of "lv s"] by simp_all
  then show ?thesis using lv_apart [of s' x y] assms(3-) by simp
qed

lemma run_free:
  assumes "client_run al fr ({}, s) (L, s')" and "inv s" and "(a, k) \<in> L" and "a \<noteq> NULL"
  shows "\<exists>s''. fr a s' = ret s'' \<and> client_step al fr (L, s') (L - {(a, k)}, s'')"
  using run_ledger [OF assms(1,2), of "lv s"] fr_ret [of s' a k] assms(3-) client_free by fastforce

end

interpretation pmm: page_allocator pmm_inv live pmm_alloc_order pmm_free
proof (unfold_locales, goal_cases)
  case (4 s a k)
  then show ?case by (metis pmm_free_ok)
next
  case (5 s a k s')
  show ?case by (rule pmm_free_ok [OF 5(1-3)]) (use 5(4) in simp)
next
  case (6 s a k s')
  show ?case by (rule pmm_free_ok [OF 6(1-3)]) (use 6(4) in simp)
qed (simp_all add: pmm_alloc_order_cases live_apart)

section \<open>Giving everything back\<close>

lemma step_frames:
  assumes "client_step pmm_alloc_order pmm_free (L, s) (L', s')" and "pmm_inv s" and "L \<subseteq> live s"
  shows "frames s' = frames s"
  using assms
proof (elim client_stepE)
  fix k a assume "pmm_alloc_order k s = ret (a, s')"
  then show ?thesis using pmm_alloc_order_cases(6) [OF \<open>pmm_inv s\<close>] by blast
next
  fix a k assume "(a, k) \<in> L" "a \<noteq> NULL" "pmm_free a s = ret s'"
  then show ?thesis using pmm_free_ok [OF \<open>pmm_inv s\<close>, of a k] assms(3) by auto
qed

lemma run_frames:
  assumes "client_run pmm_alloc_order pmm_free ({}, s) (L, s')" and "pmm_inv s"
  shows "frames s' = frames s"
  using assms(1)
proof (induction "(L, s')" arbitrary: L s' rule: rtranclp_induct)
  case (step y)
  obtain M t where y: "y = (M, t)" by (cases y)
  have "pmm_inv t" "M \<subseteq> live t"
    using pmm.run_ledger [of "{}" s M t "live s"] step(1) assms(2) by (auto simp: y)
  then show ?case using step step_frames [of M t L s'] by (simp add: y)
qed simp

lemma idle_tilings:
  assumes "pmm_inv s" "pmm_inv s'" and "live s = {}" "live s' = {}" and "frames s' = frames s"
  shows "map tiling_of (g_regions s') = map tiling_of (g_regions s)"
proof (rule nth_equalityI)
  show len: "length (map tiling_of (g_regions s')) = length (map tiling_of (g_regions s))"
    using arg_cong [OF assms(5), of length] by (simp add: frames_def)
  have mx: "is_tiling (length (block_pool r)) (tiling_of r) \<and> maximal (length (block_pool r)) (tiling_of r)"
    if "pmm_inv t" "live t = {}" "r \<in> set (g_regions t)" for t r
  proof -
    note D = region_okD [OF pmm_inv_region [OF that(1,3)]]
    have "allocated (tiling_of r) = {}" using that(2,3) by (auto simp: live_def region_live_def)
    then show ?thesis using all_free_maximal [OF D(4,2)] D(4) by simp
  qed
  fix i assume i: "i < length (map tiling_of (g_regions s'))"
  then have i': "i < length (g_regions s')" "i < length (g_regions s)" using len by simp_all
  have "frames s' ! i = frames s ! i" using assms(5) by simp
  then have "length (block_pool (g_regions s' ! i)) = length (block_pool (g_regions s ! i))"
    using i' by (simp add: frames_def)
  then have "tiling_of (g_regions s' ! i) = tiling_of (g_regions s ! i)"
    using mx [OF assms(2,4) nth_mem [OF i'(1)]] mx [OF assms(1,3) nth_mem [OF i'(2)]]
    by (intro maximal_unique [of "length (block_pool (g_regions s ! i))"]) simp_all
  then show "map tiling_of (g_regions s') ! i = map tiling_of (g_regions s) ! i" using i' by simp
qed

end
