(* ===== verification/PMM_Props.thy ===== *)
theory PMM_Props
  imports PMM_Correct
begin

text \<open>
  The properties of the physical memory manager: what each entry point of \<^verbatim>\<open>pmm.c\<close> does to
  the set of live blocks, what a client that plays by the rules can rely on, and what happens when
  one does not. The witnesses run on a machine with 16 KiB of RAM at 1 MiB.
\<close>

section \<open>A small machine\<close>

definition demo_boot :: pmm_state where
  "demo_boot = \<lparr>emm = \<lparr>g_cursor = 0xC0200000, g_end = 0xC0280000\<rparr>, g_regions = []\<rparr>"

text \<open>
  The state with the given heads of free lists, and the order, free flag and link of each of the
  four pages.
\<close>

definition demo_state :: "(nat \<times> nat) list \<Rightarrow> (nat \<times> bool \<times> nat option) list \<Rightarrow> pmm_state" where
  "demo_state heads tags = \<lparr>emm = \<lparr>g_cursor = 0xC0200070, g_end = 0xC0280000\<rparr>,
     g_regions = [\<lparr>
       free_lists = map (map_of heads) [0..<NUM_ORDERS],
       block_pool = map (\<lambda>(i, k, f, n). \<lparr>b_address = 0x100000 + of_nat i * 0x1000,
           b_order = k, b_is_free = f, b_next = n\<rparr>) (zip [0..<4] tags),
       block_pool_size = 4, r_start = 0x100000, r_end = 0x104000\<rparr>]\<rparr>"

definition demo_pmm :: pmm_state where
  "demo_pmm = demo_state [(2, 0)]
     [(2, True, None), (0, True, None), (0, True, None), (0, True, None)]"

definition demo_alloc :: pmm_state where
  "demo_alloc = demo_state [(1, 2)]
     [(1, False, None), (0, True, None), (1, True, None), (0, True, None)]"

definition demo_ram :: boot_memory_region_t where
  "demo_ram = \<lparr>base_address = 0x100000, region_length = 0x4000\<rparr>"

lemma demo_add_region: "pmm_add_region 0x100000 0x4000 demo_boot = ret demo_pmm"
  by code_simp

lemma demo_boot_inv: "pmm_inv demo_boot"
  by (simp add: pmm_inv_def demo_boot_def)

lemma demo_range: "ram_range_ok 0x100000 0x4000"
  by (simp add: ram_range_ok_def)

lemma demo_pmm_inv: "pmm_inv demo_pmm" and demo_pmm_live: "live demo_pmm = {}"
proof -
  have n: "first_page 0x100000 = 0x100000" "last_page 0x100000 0x4000 = 0x104000"
    by (simp_all add: first_page_def last_page_def)
  have "region_pages 0x100000 0x4000 = 4" by (simp add: region_pages_def n)
  then have h: "heap_space (64 + 12 * region_pages 0x100000 0x4000) demo_boot"
    by (simp add: heap_space_def demo_boot_def)
  have "live demo_boot = {}" by (simp add: live_def demo_boot_def)
  moreover have "pmm_inv demo_pmm \<and> live demo_pmm = live demo_boot"
    by (rule pmm_add_region_ok [OF demo_boot_inv demo_range _ h])
      (use n demo_add_region in \<open>auto simp: demo_boot_def\<close>)
  ultimately show "pmm_inv demo_pmm" "live demo_pmm = {}" by simp_all
qed

lemma demo_alloc_eq: "pmm_alloc_order 1 demo_pmm = ret (0x100000, demo_alloc)"
  by code_simp

lemma demo_alloc_inv: "pmm_inv demo_alloc" and demo_alloc_live: "live demo_alloc = {(0x100000, 1)}"
  using pmm_alloc_order_cases(1,3) [OF demo_pmm_inv demo_alloc_eq] demo_pmm_live by simp_all

lemma demo_can_alloc: "can_alloc k demo_pmm \<longleftrightarrow> k \<le> 2"
proof -
  have "blocks_from (block_pool (hd (g_regions demo_pmm))) 0 = [(0, 2, True)]" by code_simp
  then have "tiling_of (hd (g_regions demo_pmm)) = [0 \<mapsto> (2, True)]"
    by (simp add: tiling_of_def)
  then show ?thesis by (auto simp: can_alloc_def demo_pmm_def demo_state_def)
qed

section \<open>Allocation\<close>

text \<open>C1. With a free block large enough, \<open>pmm_alloc_order\<close> returns a block of exactly the
  order asked for: it is page aligned, lies inside a managed region, was not live before and
  shares no byte with any block that was; it alone is added to the live blocks and the manager's
  invariant is kept.\<close>

theorem pmm_alloc_order_correct:
  assumes "pmm_inv s" and "k \<le> MAX_ORDER" and "can_alloc k s"
  shows "\<exists>a s'. pmm_alloc_order k s = ret (a, s') \<and> pmm_inv s' \<and>
    (a, k) \<notin> live s \<and> live s' = insert (a, k) (live s) \<and> 4096 dvd unat a \<and>
    {unat a..<unat a + 2 ^ k * 4096} \<subseteq> managed s \<and> (\<forall>x \<in> live s. blocks_apart (a, k) x)"
proof -
  obtain a s' where s': "pmm_alloc_order k s = ret (a, s')" "pmm_inv s'" "(a, k) \<notin> live s"
    "live s' = insert (a, k) (live s)" "frames s' = frames s"
    by (rule pmm_alloc_order_ok [OF assms])
  have "(a, k) \<in> live s'" using s'(4) by simp
  then have "4096 dvd unat a \<and> {unat a..<unat a + 2 ^ k * 4096} \<subseteq> managed s'"
    by (rule live_managed [OF s'(2)])
  moreover have "blocks_apart (a, k) x" if "x \<in> live s" for x
    using live_apart [OF s'(2), of "(a, k)" x] that s'(3,4) by auto
  ultimately show ?thesis using s' managed_frames [OF s'(5)] by auto
qed

theorem pmm_alloc_order_correct_witness:
  "\<exists>a s'. pmm_alloc_order 1 demo_pmm = ret (a, s') \<and> pmm_inv s' \<and>
    (a, 1) \<notin> live demo_pmm \<and> live s' = insert (a, 1) (live demo_pmm) \<and> 4096 dvd unat a \<and>
    {unat a..<unat a + 2 ^ 1 * 4096} \<subseteq> managed demo_pmm \<and>
    (\<forall>x \<in> live demo_pmm. blocks_apart (a, 1) x)"
  by (rule pmm_alloc_order_correct [OF demo_pmm_inv])
    (simp_all add: demo_can_alloc MAX_ORDER_def)

text \<open>C6. Otherwise the allocation panics, with the message of the failing check: an order above
  the maximum, or no free block of that order or a larger one. It never returns NULL.\<close>

theorem pmm_alloc_order_panics:
  assumes "pmm_inv s" and "MAX_ORDER < k \<or> \<not> can_alloc k s"
  shows "pmm_alloc_order k s =
    (if MAX_ORDER < k then panic ''Invalid target order %u for allocation'' [of_nat k]
     else panic ''No free blocks available for order %u'' [of_nat k])"
  using assms(2) pmm_alloc_order_none [OF assms(1)] pmm_alloc_order_invalid by auto

theorem pmm_alloc_order_panics_witness:
  "pmm_alloc_order 11 demo_pmm = panic ''Invalid target order %u for allocation'' [11] \<and>
   pmm_alloc_order 3 demo_pmm = panic ''No free blocks available for order %u'' [3]"
  using pmm_alloc_order_panics [OF demo_pmm_inv, of 11] pmm_alloc_order_panics [OF demo_pmm_inv, of 3]
  by (simp add: demo_can_alloc MAX_ORDER_def)

text \<open>C7. \<open>pmm_alloc_size\<close> and \<open>pmm_alloc_pages\<close> pick the least order whose blocks
  hold the request: what they return covers all the bytes asked for, and half of it would not.
  Requests above 4 MiB panic.\<close>

theorem pmm_alloc_pages_fits:
  assumes "0 < unat n"
  shows "(\<exists>k. unat n \<le> 2 ^ k \<and> (\<forall>j < k. 2 ^ j < unat n) \<and> k \<le> MAX_ORDER \<and>
           pmm_alloc_pages n s = pmm_alloc_order k s) \<or>
         2 ^ MAX_ORDER < unat n \<and> (\<exists>msg v. pmm_alloc_pages n s = panic msg [v])"
proof (cases "unat n \<le> 2 ^ MAX_ORDER")
  case True
  then have n: "unat n \<le> 1024" by (simp add: MAX_ORDER_def)
  note P = pmm_alloc_pages_eq [OF assms n]
  have "size_to_order (n * PAGE_SIZE) \<noteq> None"
    unfolding size_to_order_None P(2) using True by simp
  then obtain k where k: "size_to_order (n * PAGE_SIZE) = Some k" by blast
  have "pmm_alloc_pages n s = pmm_alloc_order k s"
    unfolding P(1) by (rule pmm_alloc_size_eq [OF _ k]) (use P(2) assms in simp)
  then show ?thesis using size_to_order_Some [OF k] unfolding P(2) by auto
next
  case False
  have "\<exists>msg v. pmm_alloc_pages n s = panic msg [v]"
  proof (cases "n > (- 1) div PAGE_SIZE")
    case True
    then show ?thesis using assms by (auto simp: pmm_alloc_pages_def)
  next
    case le: False
    then have "unat n * 4096 < 4294967296"
      by (simp add: word_less_nat_alt PAGE_SIZE_def unat_div)
    then have u: "unat (n * PAGE_SIZE) = unat n * 4096"
      by (subst unat_mult_nowrap) (simp_all add: PAGE_SIZE_def)
    then have "size_to_order (n * PAGE_SIZE) = None" unfolding size_to_order_None using False by simp
    moreover have "n \<noteq> 0" "n * PAGE_SIZE \<noteq> 0" using assms u by auto
    ultimately show ?thesis using le by (simp add: pmm_alloc_pages_def pmm_alloc_size_def)
  qed
  with False show ?thesis by simp
qed

theorem pmm_alloc_pages_fits_witness:
  "(\<exists>k. (3 :: nat) \<le> 2 ^ k \<and> (\<forall>j < k. 2 ^ j < (3 :: nat)) \<and> k \<le> MAX_ORDER \<and>
      pmm_alloc_pages 3 demo_pmm = pmm_alloc_order k demo_pmm)"
  using pmm_alloc_pages_fits [of 3 demo_pmm] by (simp add: MAX_ORDER_def)

section \<open>Release\<close>

text \<open>C2. Freeing a live block whose address is not NULL returns, removes exactly that block from the live ones and keeps the
  invariant, whatever merging it causes; in particular the coalescing loop ends and never fails to
  find a buddy in its list.\<close>

theorem pmm_free_correct:
  assumes "pmm_inv s" and "(a, k) \<in> live s" and "a \<noteq> NULL"
  shows "\<exists>s'. pmm_free a s = ret s' \<and> pmm_inv s' \<and> live s' = live s - {(a, k)} \<and>
    managed s' = managed s"
  using pmm_free_ok [OF assms] managed_frames by metis

theorem pmm_free_correct_witness:
  "\<exists>s'. pmm_free 0x100000 demo_alloc = ret s' \<and> pmm_inv s' \<and> live s' = {} \<and>
     managed s' = managed demo_alloc"
  using pmm_free_correct [OF demo_alloc_inv, of "0x100000" 1] by (simp add: demo_alloc_live)

text \<open>C8. \<open>pmm_free\<close> refuses, with a panic, every pointer other than NULL that is not page aligned,
  lies outside every region, or points to the first page of a free block.\<close>

theorem pmm_free_rejects:
  assumes "pmm_inv s" and "a \<noteq> NULL"
    and "\<not> 4096 dvd unat a \<or> unat a \<notin> managed s \<or>
      (\<exists>r \<in> set (g_regions s). \<exists>h k. a = page_addr r h \<and> tiling_of r h = Some (k, True))"
  shows "pmm_free a s = panic
    (if \<not> 4096 dvd unat a then ''Attempted to free a pointer %p that is not properly aligned''
     else if unat a \<notin> managed s
     then ''Attempted to free memory at address %p which does not belong to any region''
     else ''Double free detected for pointer %p'') [a]"
proof -
  consider "\<not> 4096 dvd unat a" | "4096 dvd unat a" "unat a \<notin> managed s"
    | r h k where "4096 dvd unat a" "unat a \<in> managed s" "r \<in> set (g_regions s)" "a = page_addr r h"
      "tiling_of r h = Some (k, True)"
    using assms(3) by blast
  then show ?thesis
  proof cases
    case 2
    then have "a < r_start r \<or> r_end r \<le> a" if "r \<in> set (g_regions s)" for r
      using that by (auto simp: managed_def word_less_nat_alt word_le_nat_alt not_le)
    then show ?thesis using pmm_free_outside [OF assms(2)] 2 by simp
  qed (use pmm_free_unaligned pmm_free_free_block [OF assms(1)] assms(2) in auto)
qed

theorem pmm_free_rejects_witness:
  "pmm_free 0x100004 demo_alloc =
     panic ''Attempted to free a pointer %p that is not properly aligned'' [0x100004] \<and>
   pmm_free 0x104000 demo_alloc =
     panic ''Attempted to free memory at address %p which does not belong to any region'' [0x104000] \<and>
   pmm_free 0x102000 demo_alloc = panic ''Double free detected for pointer %p'' [0x102000]"
proof -
  let ?r = "hd (g_regions demo_alloc)"
  have man: "managed demo_alloc = {0x100000..<0x104000}" by (simp add: managed_def demo_alloc_def demo_state_def)
  have "blocks_from (block_pool ?r) 0 = [(0, 1, False), (2, 1, True)]" by code_simp
  then have "tiling_of ?r 2 = Some (1, True)" by (simp add: tiling_of_def)
  moreover have "?r \<in> set (g_regions demo_alloc)" "0x102000 = page_addr ?r 2"
    by (simp_all add: demo_alloc_def demo_state_def page_addr_def PAGE_SIZE_def)
  ultimately have "\<exists>r \<in> set (g_regions demo_alloc). \<exists>h k. 0x102000 = page_addr r h \<and> tiling_of r h = Some (k, True)"
    by blast
  from pmm_free_rejects [OF demo_alloc_inv _ disjI2 [OF disjI2 [OF this]]]
  have "pmm_free 0x102000 demo_alloc = panic ''Double free detected for pointer %p'' [0x102000]"
    by (simp add: man)
  then show ?thesis
    using pmm_free_rejects [OF demo_alloc_inv, of "0x100004"] pmm_free_rejects [OF demo_alloc_inv, of "0x104000"]
    by (simp add: man)
qed

section \<open>Clients\<close>

text \<open>C3. A client that allocates and frees in any order, freeing only what it holds, never sees two
  of its blocks overlap, nor one of its blocks overlap a block somebody else held at the start;
  every block it holds can be freed, unless its address is NULL: a block at frame 0 stays live.\<close>

theorem pmm_client_safe:
  assumes "pmm_inv s" and "client_run pmm_alloc_order pmm_free ({}, s) (L, s')" and "x \<in> L"
  shows "(\<forall>y \<in> L \<union> live s. x \<noteq> y \<longrightarrow> blocks_apart x y) \<and> live s' = L \<union> live s \<and>
    (fst x \<noteq> NULL \<longrightarrow>
      (\<exists>s''. pmm_free (fst x) s' = ret s'' \<and> live s'' = (L - {x}) \<union> live s))"
proof -
  obtain a k where x: "x = (a, k)" by (cases x)
  have l: "pmm_inv s'" "live s' = L \<union> live s" "L \<inter> live s = {}"
    using pmm.run_ledger [OF assms(2,1), of "live s"] by simp_all
  moreover have "\<exists>s''. pmm_free a s' = ret s'' \<and> live s'' = (L - {x}) \<union> live s" if nz: "a \<noteq> NULL"
  proof -
    obtain s'' where "pmm_free a s' = ret s''" "live s'' = live s' - {(a, k)}"
      using pmm_free_ok [OF l(1) _ nz, of k] l(2) assms(3) x by blast
    then show ?thesis using l(2,3) assms(3) x by auto
  qed
  ultimately show ?thesis using pmm.run_apart [OF assms(2,1,3)] x by auto
qed

lemma demo_run: "client_run pmm_alloc_order pmm_free ({}, demo_pmm) ({(0x100000, 1)}, demo_alloc)"
  by (rule r_into_rtranclp, rule client_alloc, rule demo_alloc_eq)

theorem pmm_client_safe_witness:
  "\<exists>s''. pmm_free 0x100000 demo_alloc = ret s'' \<and> live s'' = {}"
  using pmm_client_safe [OF demo_pmm_inv demo_run, of "(0x100000, 1)"] by (simp add: demo_pmm_live)

text \<open>C4. No permanent fragmentation: when a client has given back everything, every region is
  tiled exactly as it was at the start, however the run split and merged its blocks.\<close>

theorem pmm_run_restores:
  assumes "pmm_inv s" and "live s = {}" and "client_run pmm_alloc_order pmm_free ({}, s) ({}, s')"
  shows "map tiling_of (g_regions s') = map tiling_of (g_regions s)"
  using pmm.run_ledger [OF assms(3,1), of "{}"] assms(1,2) run_frames [OF assms(3,1)]
  by (intro idle_tilings) simp_all

lemma demo_free_eq: "pmm_free 0x100000 demo_alloc = ret (demo_state [(2, 0)]
    [(2, True, None), (0, True, None), (1, False, None), (0, True, None)])"
  by code_simp

theorem pmm_run_restores_witness:
  "\<exists>s'. pmm_free 0x100000 demo_alloc = ret s' \<and>
     map tiling_of (g_regions s') = map tiling_of (g_regions demo_pmm)"
proof -
  obtain s' where s': "pmm_free 0x100000 demo_alloc = ret s'" using demo_free_eq by blast
  have "client_step pmm_alloc_order pmm_free ({(0x100000, 1)}, demo_alloc)
      ({(0x100000, 1)} - {(0x100000, 1)}, s')"
    by (rule client_free) (simp_all add: s')
  with demo_run have "client_run pmm_alloc_order pmm_free ({}, demo_pmm) ({}, s')"
    by (simp add: rtranclp.rtrancl_into_rtrancl)
  with pmm_run_restores [OF demo_pmm_inv demo_pmm_live] s' show ?thesis by blast
qed

section \<open>Start-up\<close>

text \<open>C5. Given an early heap with room for their metadata and RAM regions that are not empty and do
  not overlap, \<open>pmm_init\<close> returns with the invariant established and nothing live. When the regions
  end below 4 GiB, the bytes managed are exactly their whole pages. The code truncates base and length
  to 32 bits, though: in general it manages the pages of the regions so wrapped, and no page of a
  region that starts at 4 GiB or above; what must not be empty or overlap, or start in the last page
  below 4 GiB, are then the wrapped regions.\<close>

theorem pmm_init_correct:
  assumes "g_regions s = []" and "ram_list_ok (map wrapped (ram_regions bi))"
    and "heap_space (ram_metadata (map wrapped (ram_regions bi))) s"
  shows "\<exists>s'. pmm_init bi s = ret s' \<and> pmm_inv s' \<and> live s' = {} \<and>
    ((\<forall>r \<in> set (ram_regions bi). ram_end r < 4294967296) \<longrightarrow>
       managed s' = (\<Union>r \<in> set (ram_regions bi). ram_pages r)) \<and>
    managed s' = (\<Union>r \<in> set (ram_regions bi). ram_pages (wrapped r)) \<and>
    (\<forall>r \<in> set (ram_regions bi). 4294967296 \<le> ram_start r \<longrightarrow> managed s' \<inter> ram_pages r = {})"
proof -
  obtain s' where s': "pmm_init bi s = ret s'" "pmm_inv s'" "live s' = {}"
    "managed s' = (\<Union>r \<in> set (ram_regions bi). ram_pages (wrapped r))"
    using pmm_init_fresh [of s "bi\<lparr>ram_regions := map wrapped (ram_regions bi)\<rparr>"] assms
    by (auto simp: pmm_init_def pmm_init_loop_wrapped)
  moreover have "managed s' \<inter> ram_pages r = {}" if "4294967296 \<le> ram_start r" for r
    using that ram_bounds(1) [of r] managed_below [of _ s'] by (fastforce simp: ram_pages_def)
  ultimately show ?thesis using wrapped_id by auto
qed

definition demo_report :: "boot_memory_region_t list \<Rightarrow> boot_info_t" where
  "demo_report rs = \<lparr>bi_name = 0, bi_command_line = 0, ram_regions = rs, reserved_regions = [], modules = []\<rparr>"

text \<open>Four pages at 1 MiB, once reported there and once at 4 GiB + 1 MiB: the second machine has no
  memory at 1 MiB, yet it is what the manager hands out.\<close>

theorem pmm_init_correct_witness:
  "(\<exists>s'. pmm_init (demo_report [demo_ram]) demo_boot = ret s' \<and> pmm_inv s' \<and> live s' = {} \<and>
     managed s' = {0x100000..<0x104000}) \<and>
   (\<exists>s'. pmm_init (demo_report [demo_ram\<lparr>base_address := 0x100100000\<rparr>]) demo_boot = ret s' \<and>
     managed s' = {0x100000..<0x104000} \<and> ram_pages (demo_ram\<lparr>base_address := 0x100100000\<rparr>) \<inter> managed s' = {})"
proof -
  let ?high = "demo_ram\<lparr>base_address := 0x100100000\<rparr>"
  note defs = ram_start_def ram_end_def ram_first_def ram_last_def demo_ram_def
  have w: "wrapped demo_ram = demo_ram" "wrapped ?high = demo_ram"
    by (simp_all add: wrapped_def demo_ram_def)
  have p: "ram_list_ok [demo_ram]" "ram_pages demo_ram = {0x100000..<0x104000}" "ram_end demo_ram < 4294967296"
    "4294967296 \<le> ram_start ?high" by (simp_all add: ram_ok_def ram_pages_def defs)
  have h: "heap_space (ram_metadata [demo_ram]) demo_boot"
    by (simp add: heap_space_def demo_boot_def ram_metadata_def defs)
  show ?thesis
    using pmm_init_correct [of demo_boot "demo_report [demo_ram]"] pmm_init_correct [of demo_boot "demo_report [?high]"]
      w p h by (auto simp: demo_report_def demo_boot_def)
qed

end
