(* ===== verification/PMM_Double_Free.thy ===== *)
theory PMM_Double_Free
  imports PMM_Props
begin

text \<open>
  The double-free check of \<open>pmm_free\<close>. It reads the flag of the page handed in, and merging clears
  that flag on the upper half, so a second release of the upper half goes through once the pair has
  been merged. The state that results is outside the manager's invariant.
\<close>

section \<open>The descriptor of an absorbed block\<close>

lemma tfree_covers:
  "2 ^ k dvd h \<Longrightarrow> \<exists>g j. tfree k h B g = Some (j, True) \<and> k \<le> j \<and> g \<le> h \<and> h + 2 ^ k \<le> g + 2 ^ j"
proof (induction k h B rule: tfree.induct)
  case (1 k h B)
  show ?case
  proof (cases "k < MAX_ORDER \<and> B (buddy h k) = Some (k, True)")
    case False
    then show ?thesis
      using tfree_stop [where B = B and h = h and j = k, OF False] by (intro exI [of _ h] exI [of _ k]) simp
  next
    case True
    let ?l = "min h (buddy h k)"
    have l: "2 ^ Suc k dvd ?l" "h + 2 ^ k \<le> ?l + 2 ^ Suc k" "?l \<le> h"
      by (rule buddy_cases [OF "1.prems"]; simp add: min_def)+
    have "tfree k h B = tfree (Suc k) ?l (B(max h (buddy h k) := None, ?l \<mapsto> (Suc k, False)))"
      using True by (intro tfree_merge) simp_all
    then obtain g j where "tfree k h B g = Some (j, True)" "Suc k \<le> j" "g \<le> ?l" "?l + 2 ^ Suc k \<le> g + 2 ^ j"
      using "1.IH" [OF True l(1)] by metis
    then show ?thesis using l(2,3) by (intro exI [of _ g] exI [of _ j]) simp
  qed
qed

lemma upper_buddy: "2 ^ Suc k dvd h \<Longrightarrow> buddy h k = h + 2 ^ k"
  by (auto simp: buddy_eq elim!: dvdE)

lemma region_free_pair:
  assumes ok: "region_ok r" and h: "tiling_of r h = Some (k, False)" and u: "tiling_of r (h + 2 ^ k) = Some (k, True)"
    and dv: "2 ^ Suc k dvd h" and k: "k < MAX_ORDER"
  obtains k' h' r' r4 where "coalesce_loop k h (upd_block h (\<lambda>b. b\<lparr>b_is_free := True\<rparr>) r) = ret (k', h', r')"
    and "r4 = add_to_region_freelist h' r' k'" and "same_frame r r4" and "region_ok r4"
    and "region_live r4 = region_live r - {(page_addr r h, k)}"
    and "block_pool r4 ! (h + 2 ^ k) = (block_pool r ! (h + 2 ^ k))\<lparr>b_is_free := False, b_next := None\<rparr>"
    and "b_order (block_pool r4 ! (h + 2 ^ k)) = k" and "b_order (block_pool r4 ! h) \<noteq> k"
    and "\<exists>g j. tiling_of r4 g = Some (j, True) \<and> k < j \<and> g \<le> h \<and> h + 2 ^ Suc k \<le> g + 2 ^ j"
proof -
  let ?B = "tiling_of r" and ?u = "h + 2 ^ k" and ?r1 = "upd_block h (\<lambda>b. b\<lparr>b_is_free := True\<rparr>) r"
  let ?B' = "?B(?u := None, h \<mapsto> (Suc k, False))"
  note D = region_okD [OF ok]
  note b = upper_buddy [OF dv]
  have lt: "h < ?u" by simp
  have nd: "\<not> 2 ^ Suc k dvd ?u" using dv by (auto simp: dvd_add_right_iff dest: dvd_imp_le)
  have core: "region_core {h} ?r1 ?B" by (rule core_set_free [OF D(1) h]) simp
  obtain r3 where s: "coalesce_loop k h ?r1 = coalesce_loop (Suc k) h r3" "region_core {h} r3 ?B'"
    and u3: "block_pool r3 ! ?u = (block_pool ?r1 ! ?u)\<lparr>b_is_free := False, b_next := None\<rparr>"
    and h3: "b_order (block_pool r3 ! h) = Suc k"
    by (rule coalesce_step [OF core h k]) (use u b lt in \<open>auto simp: min_def max_def\<close>)
  obtain k' h' r' where c: "coalesce_loop (Suc k) h r3 = ret (k', h', r')" "Suc k \<le> k'" "2 ^ k' dvd h'"
    "region_core {} (add_to_region_freelist h' r' k') (tfree (Suc k) h ?B')"
    and keep: "\<And>i. \<not> 2 ^ Suc k dvd i \<Longrightarrow> block_pool r' ! i = block_pool r3 ! i"
    and ord: "\<And>i. b_order (block_pool r' ! i) = b_order (block_pool r3 ! i) \<or> Suc k < b_order (block_pool r' ! i)"
    using coalesce_loop_correct [OF s(2)] by auto
  obtain r4 where r4: "r4 = add_to_region_freelist h' r' k'" "same_frame r r4" "region_ok r4"
    "region_live r4 = region_live r - {(page_addr r h, k)}"
    using region_free [OF ok h] s(1) c(1) by auto
  have P: "block_pool r4 ! i = (if i = h' \<and> i < length (block_pool r') then (block_pool r' ! i)\<lparr>b_next := free_lists r' ! k'\<rparr>
      else block_pool r' ! i)" for i
    by (simp add: r4(1) add_to_region_freelist_def nth_upd)
  have "h' \<noteq> ?u" using c(2,3) nd by (meson dvd_trans le_imp_power_dvd)
  then have "block_pool r4 ! ?u = (block_pool r ! ?u)\<lparr>b_is_free := False, b_next := None\<rparr>"
    using P keep [OF nd] u3 by (simp add: nth_upd)
  moreover from this have "b_order (block_pool r4 ! ?u) = k" using tags_okD(1) [OF region_coreD(3) [OF D(1)] u] by simp
  moreover have "b_order (block_pool r4 ! h) \<noteq> k" using P [of h] ord [of h] h3 by auto
  moreover have "tiling_of r4 = tfree (Suc k) h ?B'"
    using tiling_of_eq c(4) r4(1) by simp
  then have "\<exists>g j. tiling_of r4 g = Some (j, True) \<and> k < j \<and> g \<le> h \<and> h + 2 ^ Suc k \<le> g + 2 ^ j"
    using tfree_covers [OF dv, of ?B'] by (simp add: Suc_le_eq)
  ultimately show thesis using that [of k' h' r' r4] s(1) c(1) r4 by simp
qed

section \<open>Releasing it again\<close>

text \<open>\<open>pmm_free\<close> on a page whose descriptor looks like a block of order \<open>k\<close> in use, while its buddy is
  of another order.\<close>

lemma pmm_free_stale:
  assumes inv: "pmm_inv s" and i: "i < length (g_regions s)" and r: "r = g_regions s ! i"
    and u: "u < length (block_pool r)" "page_addr r u \<noteq> NULL" "2 ^ k dvd u" "k < MAX_ORDER"
    and tag: "\<not> b_is_free (block_pool r ! u)" "b_order (block_pool r ! u) = k"
    and bud: "buddy u k < length (block_pool r)" "b_order (block_pool r ! buddy u k) \<noteq> k"
  shows "pmm_free (page_addr r u) s = ret (s\<lparr>g_regions := (g_regions s)[i :=
      add_to_region_freelist u (upd_block u (\<lambda>b. b\<lparr>b_is_free := True\<rparr>) r) k]\<rparr>)"
proof -
  let ?a = "page_addr r u" and ?r1 = "upd_block u (\<lambda>b. b\<lparr>b_is_free := True\<rparr>) r"
  have g: "region_geom r" using inv i r region_okD(3) by (auto simp: pmm_inv_def)
  have ua: "unat ?a = unat (r_start r) + u * 4096" using g u(1) by (intro geom_page_addr) simp_all
  have "r_start r \<le> ?a" "?a < r_end r"
    using ua u(1) g by (simp_all add: word_le_nat_alt word_less_nat_alt region_geom_def)
  then have "find_region_by_address (g_regions s) ?a = Some i" using find_region_of [OF inv i] r by simp
  moreover have "4096 dvd unat ?a" using ua g by (simp add: region_geom_def)
  moreover have "find_block_by_address (Some r) ?a = Some u" by (rule find_block_page_addr [OF g u(1)])
  moreover have "(?a - r_start r) mod BLOCK_SIZE k = 0"
    by (rule block_offset_aligned [OF g u(1,3)]) (use u(4) in simp)
  moreover have "coalesce_loop k u ?r1 = ret (k, u, ?r1)"
  proof -
    have g1: "region_geom ?r1" using g by (simp add: region_geom_def page_addr_def nth_upd)
    have "get_buddy_block (Some u) (Some ?r1) k = Some (buddy u k)"
      using get_buddy_block_eq [OF g1 _ u(4), of u] u(1) bud(1) by simp
    moreover have "b_order (block_pool ?r1 ! buddy u k) \<noteq> k" using bud buddy_neq [of u k] by (simp add: nth_upd)
    ultimately show ?thesis by (subst coalesce_loop.simps) simp
  qed
  ultimately show ?thesis
    unfolding pmm_free_def page_aligned_iff using u tag r by (simp add: Let_def not_less)
qed

lemma find_region_loop_first:
  "j < length rs \<Longrightarrow> P (rs ! j) \<Longrightarrow> (\<And>q. q < j \<Longrightarrow> \<not> P (rs ! q)) \<Longrightarrow> find_region_loop P rs i = Some (i + j)"
proof (induction P rs i arbitrary: j rule: find_region_loop.induct)
  case (2 P r rs i)
  show ?case
  proof (cases j)
    case 0
    then show ?thesis using 2 by simp
  next
    case (Suc j')
    then have "\<not> P r" using "2.prems"(3) [of 0] by simp
    moreover have "\<not> P (rs ! q)" if "q < j'" for q using "2.prems"(3) [of "Suc q"] that Suc by simp
    ultimately show ?thesis using "2.IH" [of j'] "2.prems" Suc by simp
  qed
qed simp

text \<open>The next allocation of the order takes the page back off the list.\<close>

lemma pmm_alloc_stale:
  assumes i: "i < length (g_regions s)" and r: "r = g_regions s ! i" and g: "region_geom r"
    and u: "u < length (block_pool r)" "k \<le> MAX_ORDER"
    and tag: "\<not> b_is_free (block_pool r ! u)" "b_next (block_pool r ! u) = None"
    and before: "\<And>q. q < i \<Longrightarrow> \<not> scan_order (g_regions s ! q) k \<le> MAX_ORDER"
  shows "pmm_alloc_order k (s\<lparr>g_regions := (g_regions s)[i :=
      add_to_region_freelist u (upd_block u (\<lambda>b. b\<lparr>b_is_free := True\<rparr>) r) k]\<rparr>) = ret (page_addr r u, s)"
proof -
  let ?r2 = "add_to_region_freelist u (upd_block u (\<lambda>b. b\<lparr>b_is_free := True\<rparr>) r) k"
  let ?rs = "(g_regions s)[i := ?r2]"
  have fl: "k < length (free_lists r)" using g u(2) by (simp add: region_geom_def NUM_ORDERS_def)
  have head: "free_lists ?r2 ! k = Some u" using fl by (simp add: add_to_region_freelist_def)
  have sc: "scan_order ?r2 k = k" using u(2) head by (subst scan_order.simps) simp
  have "find_region_loop (\<lambda>r. scan_order r k \<le> MAX_ORDER) ?rs 0 = Some i"
    using find_region_loop_first [of i ?rs _ 0] i before sc u(2) by (simp add: nth_upd)
  then have fnd: "find_region_for_order ?rs k = Some i" by (simp add: find_region_for_order_def)
  have fs: "find_slot ?r2 k u HeadSlot = Some HeadSlot"
    using head by (subst find_slot.simps) (simp add: slot_read_def)
  let ?b = "(block_pool r ! u)\<lparr>b_is_free := True, b_next := None\<rparr>"
  let ?r3 = "r\<lparr>block_pool := (block_pool r)[u := ?b]\<rparr>"
  have rm: "remove_from_region_freelist (Some u) (Some ?r2) k = ret (True, Some ?r3)"
    using fs head fl u(1)
    by (simp add: remove_from_region_freelist_def slot_read_def slot_write_def add_to_region_freelist_def
        upd_block_eq Let_def nth_upd)
  have "upd_block u (\<lambda>b. b\<lparr>b_next := None\<rparr>) (upd_block u (\<lambda>b. b\<lparr>b_is_free := False\<rparr>) ?r3) = r"
  proof -
    have "(block_pool r ! u)\<lparr>b_is_free := False, b_next := None\<rparr> = block_pool r ! u" using tag by simp
    then show ?thesis using u(1) by (simp add: upd_block_eq)
  qed
  moreover have "b_address (block_pool r ! u) = page_addr r u" using g u(1) by (simp add: region_geom_def)
  ultimately show ?thesis
    unfolding pmm_alloc_order_def
    using u(2) fnd head sc rm i r by (simp add: Let_def split_stop(1) nth_upd)
qed

section \<open>Property\<close>

text \<open>
  C9. The check of \<open>pmm_free\<close> against double frees fails for the upper block of a pair that was
  merged. In every state of the manager's invariant where the lower block of a pair is live and the
  upper one free, releasing the upper one again panics. But once the lower one has been released and
  the pair merged, releasing the upper one again returns, whatever else was merged; and then, unless
  an earlier region can serve the request, the next allocation of its order hands the upper block out
  and leads back to the state before, in which its pages lie inside a free block of a larger order
  that the manager may hand out as well.
\<close>

theorem pmm_double_free_undetected:
  assumes inv: "pmm_inv s" and i: "i < length (g_regions s)" and r: "r = g_regions s ! i"
    and low: "tiling_of r h = Some (k, False)" and up: "tiling_of r (h + 2 ^ k) = Some (k, True)"
    and dv: "2 ^ Suc k dvd h" and k: "k < MAX_ORDER" and nz: "page_addr r h \<noteq> NULL"
  shows "pmm_free (page_addr r (h + 2 ^ k)) s =
      panic ''Double free detected for pointer %p'' [page_addr r (h + 2 ^ k)] \<and>
    (\<exists>s1 s2. pmm_free (page_addr r h) s = ret s1 \<and> pmm_inv s1 \<and>
      (\<exists>g j. tiling_of (g_regions s1 ! i) g = Some (j, True) \<and> k < j \<and> g \<le> h \<and> h + 2 ^ Suc k \<le> g + 2 ^ j) \<and>
      pmm_free (page_addr r (h + 2 ^ k)) s1 = ret s2 \<and>
      ((\<forall>q < i. \<forall>g j. tiling_of (g_regions s ! q) g = Some (j, True) \<longrightarrow> j < k) \<longrightarrow>
        pmm_alloc_order k s2 = ret (page_addr r (h + 2 ^ k), s1)))"
proof -
  let ?u = "h + 2 ^ k"
  have ok: "region_ok r" using inv i r by (simp add: pmm_inv_def)
  note D = region_okD [OF ok] and b = upper_buddy [OF dv]
  have n: "h < length (block_pool r)" "?u < length (block_pool r)" "2 ^ k dvd ?u"
    using tiling_block [OF D(4) low] tiling_block [OF D(4) up] by simp_all
  have "page_addr r h < page_addr r ?u" using page_addr_less_iff [OF D(3) n(1,2)] by simp
  then have nz': "page_addr r ?u \<noteq> NULL" by auto
  obtain k' h' r' r4 where
    c: "coalesce_loop k h (upd_block h (\<lambda>b. b\<lparr>b_is_free := True\<rparr>) r) = ret (k', h', r')"
    and r4: "r4 = add_to_region_freelist h' r' k'" "same_frame r r4" "region_ok r4"
      "region_live r4 = region_live r - {(page_addr r h, k)}"
    and u4: "block_pool r4 ! ?u = (block_pool r ! ?u)\<lparr>b_is_free := False, b_next := None\<rparr>"
      "b_order (block_pool r4 ! ?u) = k" "b_order (block_pool r4 ! h) \<noteq> k"
    and cov: "\<exists>g j. tiling_of r4 g = Some (j, True) \<and> k < j \<and> g \<le> h \<and> h + 2 ^ Suc k \<le> g + 2 ^ j"
    by (rule region_free_pair [OF ok low up dv k])
  let ?s1 = "s\<lparr>g_regions := (g_regions s)[i := r4]\<rparr>"
  have f1: "pmm_free (page_addr r h) s = ret ?s1" using pmm_free_at [OF inv i r low nz c] r4(1) by simp
  have inv1: "pmm_inv ?s1" by (rule pmm_inv_update [OF inv i r4(3)]) (use r4(2) r in simp)
  have p4: "page_addr r4 ?u = page_addr r ?u" by (rule page_addr_frame [OF r4(2)])
  have i1: "i < length (g_regions ?s1)" and r1: "r4 = g_regions ?s1 ! i" using i by simp_all
  have n4: "?u < length (block_pool r4)" "buddy ?u k = h" "h < length (block_pool r4)"
    using n r4(2) buddy_invol [of h k] b by (simp_all add: same_frame_def)
  have tag: "\<not> b_is_free (block_pool r4 ! ?u)" "b_next (block_pool r4 ! ?u) = None" by (simp_all add: u4(1))
  let ?r5 = "add_to_region_freelist ?u (upd_block ?u (\<lambda>b. b\<lparr>b_is_free := True\<rparr>) r4) k"
  let ?s2 = "?s1\<lparr>g_regions := (g_regions ?s1)[i := ?r5]\<rparr>"
  have f2: "pmm_free (page_addr r ?u) ?s1 = ret ?s2"
    using pmm_free_stale [OF inv1 i1 r1 n4(1) _ n(3) k tag(1) u4(2)] n4(2,3) u4(3) nz' p4 by simp
  have al: "pmm_alloc_order k ?s2 = ret (page_addr r ?u, ?s1)"
    if none: "\<forall>q < i. \<forall>g j. tiling_of (g_regions s ! q) g = Some (j, True) \<longrightarrow> j < k"
  proof -
    have "\<not> scan_order (g_regions ?s1 ! q) k \<le> MAX_ORDER" if q: "q < i" for q
    proof -
      have "region_ok (g_regions s ! q)" using inv i q by (simp add: pmm_inv_def)
      from scan_order_iff [OF region_okD(1) [OF this], of k] show ?thesis using none q by (force simp: not_le)
    qed
    then show ?thesis
      using pmm_alloc_stale [OF i1 r1 region_okD(3) [OF r4(3)] n4(1) _ tag] k p4 by simp
  qed
  have "r \<in> set (g_regions s)" using i r by simp
  then have "pmm_free (page_addr r ?u) s = panic ''Double free detected for pointer %p'' [page_addr r ?u]"
    by (rule pmm_free_free_block [OF inv _ up nz'])
  moreover have "\<exists>g j. tiling_of (g_regions ?s1 ! i) g = Some (j, True) \<and> k < j \<and> g \<le> h \<and> h + 2 ^ Suc k \<le> g + 2 ^ j"
    using cov r1 by metis
  ultimately show ?thesis using f1 inv1 f2 al by blast
qed

text \<open>
  Two pages at 1 MiB: the first is live, the second free. The second is released twice around the
  release of the first; then it is handed out, and next the whole block of four pages around it.
\<close>

definition demo_pair :: pmm_state where
  "demo_pair = demo_state [(0, 1), (1, 2)] [(0, False, None), (0, True, None), (1, True, None), (0, True, None)]"

definition demo_merged :: pmm_state where
  "demo_merged = demo_state [(2, 0)] [(2, True, None), (0, False, None), (1, False, None), (0, True, None)]"

lemma demo_pair_steps:
  "pmm_alloc_order 0 demo_pmm = ret (0x100000, demo_pair)"
  "pmm_free 0x100000 demo_pair = ret demo_merged"
  "pmm_alloc_order 2 demo_merged = ret (0x100000, demo_state []
     [(2, False, None), (0, False, None), (1, False, None), (0, True, None)])"
  by code_simp+

lemma demo_pair_tiling:
  "tiling_of (g_regions demo_pair ! 0) 0 = Some (0, False)" "tiling_of (g_regions demo_pair ! 0) 1 = Some (0, True)"
proof -
  have "blocks_from (block_pool (g_regions demo_pair ! 0)) 0 = [(0, 0, False), (1, 0, True), (2, 1, True)]"
    by code_simp
  then show "tiling_of (g_regions demo_pair ! 0) 0 = Some (0, False)" "tiling_of (g_regions demo_pair ! 0) 1 = Some (0, True)"
    by (simp_all add: tiling_of_def)
qed

theorem pmm_double_free_undetected_witness:
  "\<exists>s1 s2 s3. pmm_free 0x101000 demo_pair = panic ''Double free detected for pointer %p'' [0x101000] \<and>
     pmm_free 0x100000 demo_pair = ret s1 \<and> pmm_free 0x101000 s1 = ret s2 \<and>
     pmm_alloc_order 0 s2 = ret (0x101000, s1) \<and> pmm_alloc_order 2 s1 = ret (0x100000, s3) \<and>
     \<not> blocks_apart (0x101000, 0) (0x100000, 2)"
proof -
  have inv: "pmm_inv demo_pair" by (rule pmm_alloc_order_cases(1) [OF demo_pmm_inv demo_pair_steps(1)])
  have i: "0 < length (g_regions demo_pair)" by (simp add: demo_pair_def demo_state_def)
  have a: "page_addr (g_regions demo_pair ! 0) 0 = 0x100000" "page_addr (g_regions demo_pair ! 0) 1 = 0x101000"
    by (simp_all add: page_addr_def demo_pair_def demo_state_def PAGE_SIZE_def)
  have "\<not> blocks_apart (0x101000, 0) (0x100000, 2)" by (simp add: blocks_apart_def)
  then show ?thesis
    using pmm_double_free_undetected [OF inv i refl demo_pair_tiling(1)] demo_pair_tiling(2) demo_pair_steps(2,3) a
    by (auto simp: MAX_ORDER_def)
qed

end
