(* ===== verification/KBuffer.thy ===== *)
theory KBuffer
  imports KMemory
begin

text \<open>
  \<^verbatim>\<open>kernel/src/lib/kbuffer.c\<close>: the cyclic buffer the keyboard driver queues its events in.
  Elements are byte blocks copied into and out of a caller's array with \<open>kmemcpy\<close>, so the model
  works on byte memory. The array is shown to represent a bounded queue that drops its oldest
  element when full; the locale \<open>bounded_queue\<close> is the contract its clients use.
\<close>

section \<open>The code\<close>

record cyclic_buffer_t =
  buffer :: u32
  head :: u32
  tail :: u32
  capacity :: u32
  element_size :: u32

text \<open>
  A \<open>cyclic_buffer_t*\<close> is an optional record, \<open>None\<close> for NULL. Reducing modulo a
  capacity of zero has no meaning in C.
\<close>

definition mod_u32 :: "u32 \<Rightarrow> u32 \<Rightarrow> u32 res" where
  "mod_u32 a b = (if b = 0 then undef ''modulo zero'' else ret (a mod b))"

definition cyclic_buffer_init ::
  "cyclic_buffer_t option \<Rightarrow> u32 \<Rightarrow> u32 \<Rightarrow> u32 \<Rightarrow> bool \<times> cyclic_buffer_t option" where
  "cyclic_buffer_init cb buf cap esz =
     (if cb = None \<or> buf = NULL \<or> cap = 0 \<or> esz = 0 then (False, cb)
      else (True, Some \<lparr>buffer = buf, head = 0, tail = 0, capacity = cap, element_size = esz\<rparr>))"

definition cyclic_buffer_is_full :: "cyclic_buffer_t option \<Rightarrow> bool res" where
  "cyclic_buffer_is_full cb =
     (case cb of
        None \<Rightarrow> ret False
      | Some c \<Rightarrow> bindR (mod_u32 (head c + 1) (capacity c)) (\<lambda>n. ret (n = tail c)))"

definition cyclic_buffer_is_empty :: "cyclic_buffer_t option \<Rightarrow> bool" where
  "cyclic_buffer_is_empty cb =
     (case cb of None \<Rightarrow> False | Some c \<Rightarrow> head c = tail c)"

definition cyclic_buffer_size :: "cyclic_buffer_t option \<Rightarrow> u32 res" where
  "cyclic_buffer_size cb =
     (case cb of
        None \<Rightarrow> ret 0
      | Some c \<Rightarrow> mod_u32 ((head c + capacity c) - tail c) (capacity c))"

definition cyclic_buffer_push ::
  "cyclic_buffer_t option \<Rightarrow> u32 \<Rightarrow> mem \<Rightarrow> (bool \<times> cyclic_buffer_t option \<times> mem) res" where
  "cyclic_buffer_push cb source m =
     (case cb of
        None \<Rightarrow> ret (False, None, m)
      | Some c \<Rightarrow>
          if source = NULL then ret (False, Some c, m)
          else
            bindR (cyclic_buffer_is_full (Some c)) (\<lambda>was_full.
              let destination = buffer c + head c * element_size c;
                  m1 = snd (kmemcpy destination source (element_size c) m)
              in bindR (mod_u32 (head c + 1) (capacity c)) (\<lambda>h.
                   let c1 = c\<lparr>head := h\<rparr>
                   in if was_full
                      then bindR (mod_u32 (tail c1 + 1) (capacity c1)) (\<lambda>t.
                             ret (True, Some (c1\<lparr>tail := t\<rparr>), m1))
                      else ret (True, Some c1, m1))))"

definition cyclic_buffer_pop ::
  "cyclic_buffer_t option \<Rightarrow> u32 \<Rightarrow> mem \<Rightarrow> (bool \<times> cyclic_buffer_t option \<times> mem) res" where
  "cyclic_buffer_pop cb destination m =
     (case cb of
        None \<Rightarrow> ret (False, None, m)
      | Some c \<Rightarrow>
          if destination = NULL then ret (False, Some c, m)
          else if cyclic_buffer_is_empty (Some c) then ret (False, Some c, m)
          else
            let source = buffer c + tail c * element_size c;
                m1 = snd (kmemcpy destination source (element_size c) m)
            in bindR (mod_u32 (tail c + 1) (capacity c)) (\<lambda>t.
                 ret (True, Some (c\<lparr>tail := t\<rparr>), m1)))"

section \<open>Rings of slots\<close>

text \<open>
  The elements of \<open>n\<close> slots \<open>f\<close> from index \<open>t\<close> up to, not including, index \<open>h\<close>, going round
  the end.
\<close>

definition ring_len :: "nat \<Rightarrow> nat \<Rightarrow> nat \<Rightarrow> nat" where
  "ring_len n h t = (h + n - t) mod n"

definition ring :: "(nat \<Rightarrow> 'a) \<Rightarrow> nat \<Rightarrow> nat \<Rightarrow> nat \<Rightarrow> 'a list" where
  "ring f n h t = map (\<lambda>i. f ((t + i) mod n)) [0..<ring_len n h t]"

text \<open>A queue of at most \<open>b\<close> elements that forgets the oldest when it overflows.\<close>

definition bq_push :: "nat \<Rightarrow> 'a \<Rightarrow> 'a list \<Rightarrow> 'a list" where
  "bq_push b x q = drop (Suc (length q) - b) (q @ [x])"

lemma length_ring [simp]: "length (ring f n h t) = ring_len n h t"
  by (simp add: ring_def)

lemma nth_ring [simp]: "i < ring_len n h t \<Longrightarrow> ring f n h t ! i = f ((t + i) mod n)"
  by (simp add: ring_def)

lemma ring_len_eq: "h < n \<Longrightarrow> t < n \<Longrightarrow> ring_len n h t = (if t \<le> h then h - t else h + n - t)"
  by (auto simp: ring_len_def mod_if)

lemma ring_len_less: "h < n \<Longrightarrow> ring_len n h t < n"
  by (auto simp: ring_len_def)

lemma ring_len_0_iff: "h < n \<Longrightarrow> t < n \<Longrightarrow> ring_len n h t = 0 \<longleftrightarrow> h = t"
  by (auto simp: ring_len_eq)

lemma suc_mod_eq: "h < n \<Longrightarrow> Suc h mod n = (if Suc h = n then 0 else Suc h)"
  by (auto simp: mod_if)

lemma ring_full_iff: "h < n \<Longrightarrow> t < n \<Longrightarrow> Suc h mod n = t \<longleftrightarrow> ring_len n h t = n - 1"
  by (auto simp: ring_len_eq suc_mod_eq)

lemma ring_last_slot: "h < n \<Longrightarrow> t < n \<Longrightarrow> (t + ring_len n h t) mod n = h"
  by (auto simp: ring_len_eq)

lemma ring_slot_neq:
  assumes "h < n" and "t < n" and "i < ring_len n h t"
  shows "(t + i) mod n \<noteq> h"
proof -
  have "i < n" using assms(3) ring_len_less [OF assms(1), of t] by simp
  then have "(t + i) mod n = (if t + i < n then t + i else t + i - n)"
    using assms(2) by (auto simp: mod_if)
  then show ?thesis using assms by (auto simp: ring_len_eq split: if_splits)
qed

lemma ring_push:
  assumes "h < n" and "t < n" and "Suc h mod n \<noteq> t"
  shows "ring (f(h := x)) n (Suc h mod n) t = ring f n h t @ [x]"
proof -
  have len: "ring_len n (Suc h mod n) t = Suc (ring_len n h t)"
    using assms by (auto simp: ring_len_eq suc_mod_eq split: if_splits)
  show ?thesis
    by (rule nth_equalityI)
      (use assms ring_slot_neq [OF assms(1,2)] ring_last_slot [OF assms(1,2)] in
        \<open>auto simp: len nth_append less_Suc_eq\<close>)
qed

lemma ring_pop:
  assumes "h < n" and "t < n" and "h \<noteq> t"
  shows "ring f n h (Suc t mod n) = tl (ring f n h t)"
proof (rule nth_equalityI)
  have len: "ring_len n h (Suc t mod n) = ring_len n h t - 1"
    using assms by (auto simp: ring_len_eq suc_mod_eq split: if_splits)
  then show "length (ring f n h (Suc t mod n)) = length (tl (ring f n h t))" by simp
  fix i assume "i < length (ring f n h (Suc t mod n))"
  then show "ring f n h (Suc t mod n) ! i = tl (ring f n h t) ! i"
    using len by (simp add: nth_tl mod_simps)
qed

lemma ring_hd: "h < n \<Longrightarrow> t < n \<Longrightarrow> h \<noteq> t \<Longrightarrow> hd (ring f n h t) = f t"
  using ring_len_0_iff [of h n t] by (subst hd_conv_nth) (auto simp flip: length_greater_0_conv)

lemma bq_push_full: "length q = b \<Longrightarrow> q \<noteq> [] \<Longrightarrow> bq_push b x q = tl q @ [x]"
  by (cases q) (auto simp: bq_push_def)

text \<open>Pushing onto a full ring is popping first, whatever was in the slot at the head.\<close>

lemma ring_bq_push:
  assumes h: "h < n" and t: "t < n"
  shows "ring (f(h := x)) n (Suc h mod n) (if Suc h mod n = t then Suc t mod n else t)
    = bq_push (n - 1) x (ring f n h t)"
proof (cases "Suc h mod n = t")
  case False
  then have "ring_len n h t < n - 1"
    using ring_full_iff [OF h t] ring_len_less [OF h, of t] by simp
  then show ?thesis using ring_push [OF h t False] False by (simp add: bq_push_def)
next
  case full: True
  then have len: "ring_len n h t = n - 1" using ring_full_iff [OF h t] by simp
  show ?thesis
  proof (cases "h = t")
    case True
    then have "n = 1" using len h by (simp add: ring_len_def)
    then show ?thesis using full True by (simp add: bq_push_def ring_def ring_len_def)
  next
    case False
    let ?t = "Suc t mod n"
    have t': "?t < n" using h by simp
    have "Suc h mod n \<noteq> ?t" using full h t False by (auto simp: suc_mod_eq split: if_splits)
    then have "ring (f(h := x)) n (Suc h mod n) ?t = ring f n h ?t @ [x]" by (rule ring_push [OF h t'])
    also have "\<dots> = tl (ring f n h t) @ [x]" by (simp only: ring_pop [OF h t False])
    also have "\<dots> = bq_push (n - 1) x (ring f n h t)"
      using len False h t ring_len_0_iff [OF h t]
      by (intro bq_push_full [symmetric]) (auto simp flip: length_greater_0_conv)
    finally show ?thesis using full by simp
  qed
qed

section \<open>The buffer as a queue\<close>

definition cb_inv :: "cyclic_buffer_t \<Rightarrow> bool" where
  "cb_inv c \<longleftrightarrow> buffer c \<noteq> NULL \<and> 0 < unat (element_size c) \<and>
     unat (head c) < unat (capacity c) \<and> unat (tail c) < unat (capacity c) \<and>
     unat (capacity c) \<le> 2147483648 \<and>
     unat (buffer c) + unat (capacity c) * unat (element_size c) \<le> 4294967296"

definition cb_slot :: "cyclic_buffer_t \<Rightarrow> nat \<Rightarrow> u32" where
  "cb_slot c i = buffer c + of_nat i * element_size c"

definition cb_elem :: "cyclic_buffer_t \<Rightarrow> mem \<Rightarrow> nat \<Rightarrow> u8 list" where
  "cb_elem c m i = read_bytes m (cb_slot c i) (unat (element_size c))"

definition cb_queue :: "cyclic_buffer_t \<Rightarrow> mem \<Rightarrow> u8 list list" where
  "cb_queue c m = ring (cb_elem c m) (unat (capacity c)) (unat (head c)) (unat (tail c))"

text \<open>The bytes of the array, which a caller's element must not overlap.\<close>

definition cb_clear_of :: "cyclic_buffer_t \<Rightarrow> u32 \<Rightarrow> bool" where
  "cb_clear_of c p \<longleftrightarrow>
     p \<noteq> NULL \<and>
     disjoint_ranges p (unat (element_size c)) (buffer c) (unat (capacity c) * unat (element_size c))"

lemma cb_slot_bounds:
  assumes "cb_inv c" and "i < unat (capacity c)"
  shows "unat (cb_slot c i) = unat (buffer c) + i * unat (element_size c)"
    and "unat (cb_slot c i) + unat (element_size c)
      \<le> unat (buffer c) + unat (capacity c) * unat (element_size c)"
    and "cb_slot c i \<noteq> NULL"
proof -
  let ?e = "unat (element_size c)"
  have "(i + 1) * ?e \<le> unat (capacity c) * ?e" using assms(2) by (intro mult_le_mono1) simp
  then have le: "i * ?e + ?e \<le> unat (capacity c) * ?e" by simp
  have b: "unat (buffer c) + unat (capacity c) * ?e \<le> 4294967296" "0 < ?e"
    using assms(1) by (simp_all add: cb_inv_def)
  have "unat (of_nat i * element_size c) = i * ?e"
    using le b assms(2) unat_u32_lt [of "capacity c"]
    by (subst unat_mult_nowrap) (simp_all add: unat_of_nat_u32)
  then show u: "unat (cb_slot c i) = unat (buffer c) + i * ?e"
    unfolding cb_slot_def using le b by (subst unat_add_nowrap) simp_all
  show "unat (cb_slot c i) + ?e \<le> unat (buffer c) + unat (capacity c) * ?e" using u le by simp
  have "unat (cb_slot c i) \<noteq> 0" using u assms(1) by (simp add: cb_inv_def unat_eq_0)
  then show "cb_slot c i \<noteq> NULL" by auto
qed

lemma cb_slots_disjoint:
  assumes inv: "cb_inv c" and ij: "i < unat (capacity c)" "j < unat (capacity c)" "i \<noteq> j"
  shows "disjoint_ranges (cb_slot c i) (unat (element_size c)) (cb_slot c j) (unat (element_size c))"
proof -
  let ?e = "unat (element_size c)"
  have lt: "disjoint_ranges (cb_slot c a) ?e (cb_slot c b) ?e"
    if "a < b" "b < unat (capacity c)" for a b
  proof (rule disjoint_rangesI)
    have "(a + 1) * ?e \<le> b * ?e" using that(1) by (intro mult_le_mono1) simp
    then show "unat (cb_slot c a) + ?e \<le> unat (cb_slot c b)"
      using that cb_slot_bounds(1) [OF inv] by simp
    show "unat (cb_slot c b) + ?e \<le> 4294967296"
      using cb_slot_bounds(2) [OF inv that(2)] inv by (simp add: cb_inv_def)
  qed
  show ?thesis using lt [of i j] lt [of j i] ij by (metis disjoint_ranges_sym nat_neq_iff)
qed

lemma cb_clear_slot:
  assumes "cb_inv c" and "cb_clear_of c p" and i: "i < unat (capacity c)"
  shows "disjoint_ranges p (unat (element_size c)) (cb_slot c i) (unat (element_size c))"
  unfolding disjoint_ranges_def
proof (intro allI impI)
  let ?e = "unat (element_size c)"
  fix a b assume ab: "a < ?e" "b < ?e"
  have "(i + 1) * ?e \<le> unat (capacity c) * ?e" using i by (intro mult_le_mono1) simp
  then have "i * ?e + b < unat (capacity c) * ?e" using ab by simp
  moreover have "cb_slot c i + of_nat b = buffer c + of_nat (i * ?e + b)"
    by (simp add: cb_slot_def)
  ultimately show "p + of_nat a \<noteq> cb_slot c i + of_nat b"
    using assms(2) ab unfolding cb_clear_of_def disjoint_ranges_def by metis
qed

lemma cb_slot_in_range:
  assumes "cb_inv c" and i: "i < unat (capacity c)"
    and x: "in_range (cb_slot c i) (unat (element_size c)) x"
  shows "in_range (buffer c) (unat (capacity c) * unat (element_size c)) x"
proof -
  let ?e = "unat (element_size c)"
  obtain b where b: "b < ?e" "x = cb_slot c i + of_nat b" using x by (rule in_rangeE)
  have "(i + 1) * ?e \<le> unat (capacity c) * ?e" using i by (intro mult_le_mono1) simp
  then have "i * ?e + b < unat (capacity c) * ?e" using b by simp
  moreover have "unat (capacity c) * ?e \<le> 4294967296" using assms(1) by (simp add: cb_inv_def)
  moreover have "x = buffer c + of_nat (i * ?e + b)" using b(2) by (simp add: cb_slot_def)
  ultimately show ?thesis using in_range_offset by blast
qed

text \<open>The index arithmetic of the code, read as natural numbers.\<close>

lemma cb_next_index:
  assumes "cb_inv c" and "i < capacity c"
  shows "mod_u32 (i + 1) (capacity c) = ret ((i + 1) mod capacity c)"
    and "unat ((i + 1) mod capacity c) = Suc (unat i) mod unat (capacity c)"
proof -
  have "capacity c \<noteq> 0" using assms(2) by auto
  then show "mod_u32 (i + 1) (capacity c) = ret ((i + 1) mod capacity c)" by (simp add: mod_u32_def)
  have "unat (i + 1) = Suc (unat i)"
    using assms(2) unat_u32_lt [of "capacity c"] by (subst unat_add_nowrap) (simp_all add: word_less_nat_alt)
  then show "unat ((i + 1) mod capacity c) = Suc (unat i) mod unat (capacity c)"
    by (simp add: unat_mod)
qed

lemma cb_index:
  assumes "cb_inv c"
  shows "head c < capacity c" and "tail c < capacity c"
    and "buffer c + head c * element_size c = cb_slot c (unat (head c))"
    and "buffer c + tail c * element_size c = cb_slot c (unat (tail c))"
  using assms by (simp_all add: cb_inv_def word_less_nat_alt cb_slot_def)

lemma cyclic_buffer_is_full_correct:
  assumes inv: "cb_inv c"
  shows "cyclic_buffer_is_full (Some c) =
    ret (Suc (unat (head c)) mod unat (capacity c) = unat (tail c))"
  using cb_next_index [OF inv cb_index(1) [OF inv]]
  by (simp add: cyclic_buffer_is_full_def word_unat_eq_iff)

lemma cyclic_buffer_size_correct:
  assumes inv: "cb_inv c"
  shows "\<exists>n. cyclic_buffer_size (Some c) = ret n \<and> unat n = length (cb_queue c m)"
proof -
  have c: "capacity c \<noteq> 0" using cb_index(1) [OF inv] by auto
  have "unat (head c + capacity c) = unat (head c) + unat (capacity c)"
    using inv by (intro unat_add_nowrap) (simp add: cb_inv_def)
  then have "unat (head c + capacity c - tail c) = unat (head c) + unat (capacity c) - unat (tail c)"
    using inv by (subst unat_sub_nowrap) (simp_all add: cb_inv_def)
  then show ?thesis using c
    by (simp add: cyclic_buffer_size_def mod_u32_def cb_queue_def ring_len_def unat_mod)
qed

lemma cyclic_buffer_is_empty_correct:
  "cb_inv c \<Longrightarrow> cyclic_buffer_is_empty (Some c) \<longleftrightarrow> cb_queue c m = []"
  using ring_len_0_iff [of "unat (head c)" "unat (capacity c)" "unat (tail c)"]
  by (simp add: cyclic_buffer_is_empty_def cb_queue_def cb_inv_def word_unat_eq_iff flip: length_0_conv)

text \<open>The fields that no push or pop changes.\<close>

definition cb_same :: "cyclic_buffer_t \<Rightarrow> cyclic_buffer_t \<Rightarrow> bool" where
  "cb_same c c' \<longleftrightarrow> buffer c' = buffer c \<and> capacity c' = capacity c \<and> element_size c' = element_size c"

lemma cyclic_buffer_push_correct:
  assumes inv: "cb_inv c" and src: "cb_clear_of c p"
  obtains c' m' where "cyclic_buffer_push (Some c) p m = ret (True, Some c', m')" and "cb_inv c'"
    and "cb_same c c'"
    and "cb_queue c' m' = bq_push (unat (capacity c) - 1) (read_bytes m p (unat (element_size c))) (cb_queue c m)"
    and "\<And>x. \<not> in_range (buffer c) (unat (capacity c) * unat (element_size c)) x \<Longrightarrow> m' x = m x"
proof -
  let ?e = "unat (element_size c)" and ?n = "unat (capacity c)"
    and ?h = "unat (head c)" and ?t = "unat (tail c)"
  let ?d = "cb_slot c ?h"
  define m' where "m' = snd (kmemcpy ?d p (element_size c) m)"
  define h' where "h' = (head c + 1) mod capacity c"
  define t' where "t' = (if Suc ?h mod ?n = ?t then (tail c + 1) mod capacity c else tail c)"
  have ht: "?h < ?n" "?t < ?n" using inv by (simp_all add: cb_inv_def)
  note N = cb_next_index [OF inv cb_index(1) [OF inv]] cb_next_index [OF inv cb_index(2) [OF inv]]
  have u: "unat h' = Suc ?h mod ?n" "unat t' = (if Suc ?h mod ?n = ?t then Suc ?t mod ?n else ?t)"
    using N by (simp_all add: h'_def t'_def)
  let ?c' = "c\<lparr>head := h', tail := t'\<rparr>"
  have push: "cyclic_buffer_push (Some c) p m = ret (True, Some ?c', m')"
    using src N(1,3) cyclic_buffer_is_full_correct [OF inv]
    by (simp add: cyclic_buffer_push_def Let_def cb_clear_of_def cb_index(3) [OF inv] m'_def h'_def t'_def)
  have dis: "disjoint_ranges ?d ?e p ?e" by (rule disjoint_ranges_sym [OF cb_clear_slot [OF inv src ht(1)]])
  have cpy: "?d \<noteq> NULL" "p \<noteq> NULL"
    using cb_slot_bounds(3) [OF inv ht(1)] src by (simp_all add: cb_clear_of_def)
  have elem: "cb_elem ?c' m' i = ((cb_elem c m)(?h := read_bytes m p ?e)) i" if "i < ?n" for i
    using read_bytes_kmemcpy [OF cpy dis] cb_slots_disjoint [OF inv ht(1) that]
    by (auto simp: cb_elem_def cb_slot_def m'_def)
  have "cb_queue ?c' m' = ring ((cb_elem c m)(?h := read_bytes m p ?e)) ?n (unat h') (unat t')"
    unfolding cb_queue_def using elem ht by (intro nth_equalityI) simp_all
  also have "\<dots> = bq_push (?n - 1) (read_bytes m p ?e) (cb_queue c m)"
    unfolding u cb_queue_def by (rule ring_bq_push [OF ht])
  finally have q: "cb_queue ?c' m' = bq_push (?n - 1) (read_bytes m p ?e) (cb_queue c m)" .
  have inv': "cb_inv ?c'" using inv ht u by (simp add: cb_inv_def)
  show thesis
  proof (rule that [OF push inv' _ q])
    show "cb_same c ?c'" by (simp add: cb_same_def)
    fix x assume x: "\<not> in_range (buffer c) (?n * ?e) x"
    have "\<not> in_range ?d ?e x" using x cb_slot_in_range [OF inv ht(1)] by blast
    then show "m' x = m x" unfolding m'_def by (subst kmemcpy_disjoint_apply [OF cpy dis]) simp
  qed
qed

lemma cyclic_buffer_pop_correct:
  assumes inv: "cb_inv c" and dst: "cb_clear_of c p" and ne: "cb_queue c m \<noteq> []"
  obtains c' m' where "cyclic_buffer_pop (Some c) p m = ret (True, Some c', m')" and "cb_inv c'"
    and "cb_same c c'"
    and "cb_queue c m = read_bytes m' p (unat (element_size c)) # cb_queue c' m'"
    and "\<And>x. \<not> in_range p (unat (element_size c)) x \<Longrightarrow> m' x = m x"
proof -
  let ?e = "unat (element_size c)" and ?n = "unat (capacity c)"
    and ?h = "unat (head c)" and ?t = "unat (tail c)"
  let ?s = "cb_slot c ?t"
  define m' where "m' = snd (kmemcpy p ?s (element_size c) m)"
  let ?c' = "c\<lparr>tail := (tail c + 1) mod capacity c\<rparr>"
  have ht: "?h < ?n" "?t < ?n" using inv by (simp_all add: cb_inv_def)
  note N = cb_next_index [OF inv cb_index(2) [OF inv]]
  have hn: "?h \<noteq> ?t"
    using ne cyclic_buffer_is_empty_correct [OF inv, of m]
    by (simp add: cyclic_buffer_is_empty_def word_unat_eq_iff)
  have pop: "cyclic_buffer_pop (Some c) p m = ret (True, Some ?c', m')"
    using dst N(1) hn
    by (auto simp: cyclic_buffer_pop_def Let_def cb_clear_of_def cb_index(4) [OF inv] m'_def
        cyclic_buffer_is_empty_def)
  have dis: "disjoint_ranges p ?e ?s ?e" by (rule cb_clear_slot [OF inv dst ht(2)])
  have cpy: "p \<noteq> NULL" "?s \<noteq> NULL"
    using cb_slot_bounds(3) [OF inv ht(2)] dst by (simp_all add: cb_clear_of_def)
  have elem: "cb_elem ?c' m' i = cb_elem c m i" if "i < ?n" for i
    using read_bytes_kmemcpy(2) [OF cpy dis cb_clear_slot [OF inv dst that]]
    by (simp add: cb_elem_def cb_slot_def m'_def)
  have "cb_queue ?c' m' = ring (cb_elem c m) ?n ?h (Suc ?t mod ?n)"
    unfolding cb_queue_def using elem ht N(2) by (intro nth_equalityI) simp_all
  also have "\<dots> = tl (cb_queue c m)" unfolding cb_queue_def by (rule ring_pop [OF ht hn])
  finally have "cb_queue c m = hd (cb_queue c m) # cb_queue ?c' m'" using ne by simp
  moreover have "hd (cb_queue c m) = read_bytes m' p ?e"
    using ring_hd [OF ht hn, of "cb_elem c m"] read_bytes_kmemcpy(1) [OF cpy dis]
    by (simp add: cb_queue_def cb_elem_def m'_def)
  ultimately have q: "cb_queue c m = read_bytes m' p ?e # cb_queue ?c' m'" by simp
  have inv': "cb_inv ?c'" using inv ht N(2) by (simp add: cb_inv_def)
  show thesis
  proof (rule that [OF pop inv' _ q])
    show "cb_same c ?c'" by (simp add: cb_same_def)
    fix x assume "\<not> in_range p ?e x"
    then show "m' x = m x" unfolding m'_def by (subst kmemcpy_disjoint_apply [OF cpy dis]) simp
  qed
qed

section \<open>The contract of a bounded queue\<close>

lemma drop_length_drop:
  assumes "k \<le> length xs - b"
  shows "drop (length (drop k xs) - b) (drop k xs) = drop (length xs - b) xs"
proof -
  have "length (drop k xs) - b + k = length xs - b" using assms by simp
  then show ?thesis by (simp only: drop_drop)
qed

text \<open>
  Of many pushes only the last \<open>b\<close> elements remain, in order.
\<close>

lemma bq_push_many:
  "length q \<le> b \<Longrightarrow> foldl (\<lambda>q x. bq_push b x q) q xs = drop (length (q @ xs) - b) (q @ xs)"
proof (induction xs arbitrary: q)
  case (Cons x xs)
  have "foldl (\<lambda>q x. bq_push b x q) (bq_push b x q) xs
      = drop (length (bq_push b x q @ xs) - b) (bq_push b x q @ xs)"
    by (rule Cons.IH) (simp add: bq_push_def)
  also have "bq_push b x q @ xs = drop (Suc (length q) - b) (q @ x # xs)"
    using Cons.prems by (cases b) (simp_all add: bq_push_def drop_Cons')
  also have "drop (length \<dots> - b) \<dots> = drop (length (q @ x # xs) - b) (q @ x # xs)"
    by (rule drop_length_drop) simp
  finally show ?case by simp
qed simp

locale bounded_queue =
  fixes inv :: "'c \<Rightarrow> bool" and abs :: "'c \<Rightarrow> mem \<Rightarrow> u8 list list"
    and clear :: "'c \<Rightarrow> u32 \<Rightarrow> bool" and bound esize :: "'c \<Rightarrow> nat"
    and push pop :: "'c option \<Rightarrow> u32 \<Rightarrow> mem \<Rightarrow> (bool \<times> 'c option \<times> mem) res"
  assumes abs_length: "inv c \<Longrightarrow> length (abs c m) \<le> bound c"
    and push_law: "inv c \<Longrightarrow> clear c p \<Longrightarrow> \<exists>c' m'. push (Some c) p m = ret (True, Some c', m') \<and>
      inv c' \<and> clear c' = clear c \<and> bound c' = bound c \<and> esize c' = esize c \<and>
      abs c' m' = bq_push (bound c) (read_bytes m p (esize c)) (abs c m)"
    and pop_law: "inv c \<Longrightarrow> clear c p \<Longrightarrow> abs c m = x # xs \<Longrightarrow>
      \<exists>c' m'. pop (Some c) p m = ret (True, Some c', m') \<and> inv c' \<and> clear c' = clear c \<and>
        bound c' = bound c \<and> esize c' = esize c \<and> read_bytes m' p (esize c) = x \<and> abs c' m' = xs"
    and pop_empty: "inv c \<Longrightarrow> clear c p \<Longrightarrow> abs c m = [] \<Longrightarrow> pop (Some c) p m = ret (False, Some c, m)"
begin

lemma push_length:
  assumes "inv c" and "clear c p" and "push (Some c) p m = ret (ok, Some c', m')"
  shows "ok \<and> inv c' \<and> length (abs c' m') = min (Suc (length (abs c m))) (bound c)"
  using push_law [OF assms(1,2), of m] assms(3) abs_length [OF assms(1), of m]
  by (auto simp: bq_push_def)

text \<open>On an empty queue that holds at least one element, a pop gives back what was pushed.\<close>

lemma push_pop:
  assumes "inv c" and "clear c p" and "clear c d" and "abs c m = []" and "0 < bound c"
    and "push (Some c) p m = ret (ok, Some c1, m1)"
  shows "\<exists>c2 m2. pop (Some c1) d m1 = ret (True, Some c2, m2) \<and> abs c2 m2 = [] \<and>
    read_bytes m2 d (esize c) = read_bytes m p (esize c)"
proof -
  have c1: "inv c1" "clear c1 d" "esize c1 = esize c"
    and q: "abs c1 m1 = [read_bytes m p (esize c)]"
    using push_law [OF assms(1,2), of m] assms(3-) by (auto simp: bq_push_def)
  show ?thesis using pop_law [OF c1(1,2) q] c1(3) by auto
qed

end

lemma cb_same_clear: "cb_same c c' \<Longrightarrow> cb_clear_of c' = cb_clear_of c"
  by (simp add: cb_same_def cb_clear_of_def fun_eq_iff)

interpretation cbq: bounded_queue cb_inv cb_queue cb_clear_of
  "\<lambda>c. unat (capacity c) - 1" "\<lambda>c. unat (element_size c)" cyclic_buffer_push cyclic_buffer_pop
proof (unfold_locales, goal_cases)
  case (1 c m)
  then show ?case
    using ring_len_less [of "unat (head c)" "unat (capacity c)" "unat (tail c)"]
    by (simp add: cb_queue_def cb_inv_def)
next
  case (2 c p m)
  obtain c' m' where s: "cyclic_buffer_push (Some c) p m = ret (True, Some c', m')" "cb_inv c'"
    "cb_same c c'" "cb_queue c' m' = bq_push (unat (capacity c) - 1)
      (read_bytes m p (unat (element_size c))) (cb_queue c m)"
    using cyclic_buffer_push_correct [OF 2] by metis
  show ?case
    by (intro exI conjI, rule s(1), rule s(2), rule cb_same_clear [OF s(3)])
      (use s(3,4) in \<open>simp_all add: cb_same_def\<close>)
next
  case (3 c p m x xs)
  have "cb_queue c m \<noteq> []" using 3(3) by simp
  then obtain c' m' where s: "cyclic_buffer_pop (Some c) p m = ret (True, Some c', m')" "cb_inv c'"
    "cb_same c c'" "cb_queue c m = read_bytes m' p (unat (element_size c)) # cb_queue c' m'"
    using cyclic_buffer_pop_correct [OF 3(1,2)] by metis
  show ?case
    by (intro exI conjI, rule s(1), rule s(2), rule cb_same_clear [OF s(3)])
      (use s(3,4) 3(3) in \<open>simp_all add: cb_same_def\<close>)
next
  case (4 c p m)
  then show ?case
    using cyclic_buffer_is_empty_correct [OF 4(1), of m] by (simp add: cyclic_buffer_pop_def cb_clear_of_def)
qed

section \<open>Properties\<close>

text \<open>The buffer of the witnesses: three slots of two bytes at address 0x1000.\<close>

definition demo_cb :: cyclic_buffer_t where
  "demo_cb = \<lparr>buffer = 0x1000, head = 0, tail = 0, capacity = 3, element_size = 2\<rparr>"

definition demo_cb_mem :: mem where
  "demo_cb_mem = (\<lambda>x. if x = 0x2000 then 7 else if x = 0x2001 then 8 else 0)"

lemma demo_cb_inv: "cb_inv demo_cb"
  by (simp add: cb_inv_def demo_cb_def)

lemma demo_cb_clear: "cb_clear_of demo_cb 0x2000"
proof -
  have "disjoint_ranges 0x1000 6 0x2000 2" by (rule disjoint_rangesI) simp_all
  then show ?thesis by (simp add: cb_clear_of_def demo_cb_def disjoint_ranges_sym)
qed

text \<open>C10. \<open>cyclic_buffer_push\<close> refines the bounded queue: it always succeeds, appends the bytes at
  \<open>source\<close>, drops the oldest element only when \<open>capacity - 1\<close> are stored, and writes nothing
  outside the array.\<close>

theorem cyclic_buffer_push_refines:
  assumes "cb_inv c" and "cb_clear_of c p"
  shows "\<exists>c' m'. cyclic_buffer_push (Some c) p m = ret (True, Some c', m') \<and> cb_inv c' \<and>
    cb_queue c' m' = bq_push (unat (capacity c) - 1)
      (read_bytes m p (unat (element_size c))) (cb_queue c m) \<and>
    (\<forall>x. \<not> in_range (buffer c) (unat (capacity c) * unat (element_size c)) x \<longrightarrow> m' x = m x)"
  by (rule cyclic_buffer_push_correct [OF assms, of m]) blast

theorem cyclic_buffer_push_refines_witness:
  "\<exists>c' m'. cyclic_buffer_push (Some demo_cb) 0x2000 demo_cb_mem = ret (True, Some c', m') \<and>
    cb_queue c' m' = [[7, 8]]"
proof -
  have "read_bytes demo_cb_mem 0x2000 2 = [7, 8]" "cb_queue demo_cb demo_cb_mem = []"
    by (simp_all add: read_bytes_def demo_cb_mem_def upt_rec cb_queue_def ring_def ring_len_def demo_cb_def)
  then show ?thesis
    using cyclic_buffer_push_refines [OF demo_cb_inv demo_cb_clear, of demo_cb_mem]
    by (auto simp: demo_cb_def bq_push_def)
qed

text \<open>C11. \<open>cyclic_buffer_pop\<close> refines taking the oldest element: it copies it to \<open>destination\<close>
  and nothing else changes; on an empty buffer it returns false and changes nothing.\<close>

theorem cyclic_buffer_pop_refines:
  assumes "cb_inv c" and "cb_clear_of c p"
  shows "case cb_queue c m of
      [] \<Rightarrow> cyclic_buffer_pop (Some c) p m = ret (False, Some c, m)
    | x # xs \<Rightarrow> \<exists>c' m'. cyclic_buffer_pop (Some c) p m = ret (True, Some c', m') \<and> cb_inv c' \<and>
        cb_queue c' m' = xs \<and> read_bytes m' p (unat (element_size c)) = x \<and>
        (\<forall>y. \<not> in_range p (unat (element_size c)) y \<longrightarrow> m' y = m y)"
proof (cases "cb_queue c m")
  case Nil
  then show ?thesis using cbq.pop_empty [OF assms] by simp
next
  case (Cons x xs)
  have "cb_queue c m \<noteq> []" using Cons by simp
  then show ?thesis using Cons
    by (elim cyclic_buffer_pop_correct [OF assms]) auto
qed

theorem cyclic_buffer_pop_refines_witness:
  "cyclic_buffer_pop (Some demo_cb) 0x2000 demo_cb_mem = ret (False, Some demo_cb, demo_cb_mem) \<and>
   (\<exists>c m. cyclic_buffer_pop (Some (demo_cb\<lparr>head := 2\<rparr>)) 0x2000 (demo_cb_mem(0x1001 := 9, 0x1002 := 5)) =
       ret (True, Some c, m) \<and> read_bytes m 0x2000 2 = [0, 9] \<and> cb_queue c m = [[5, 0]])"
proof -
  let ?c = "demo_cb\<lparr>head := 2\<rparr>" and ?m = "demo_cb_mem(0x1001 := 9, 0x1002 := 5)"
  have inv: "cb_inv ?c" using demo_cb_inv by (simp add: cb_inv_def demo_cb_def)
  have clear: "cb_clear_of ?c 0x2000" using demo_cb_clear by (simp add: cb_clear_of_def)
  have q: "cb_queue ?c ?m = [[0, 9], [5, 0]]"
    by (simp add: cb_queue_def ring_def ring_len_def demo_cb_def demo_cb_mem_def read_bytes_def cb_elem_def cb_slot_def upt_rec)
  show ?thesis
    using cyclic_buffer_pop_refines [OF demo_cb_inv demo_cb_clear, of demo_cb_mem]
      cyclic_buffer_pop_refines [OF inv clear, of ?m] unfolding q
    by (auto simp: cb_queue_def ring_def ring_len_def demo_cb_def)
qed

text \<open>The observers agree with the queue: \<open>cyclic_buffer_size\<close> is its length,
  \<open>is_empty\<close> and \<open>is_full\<close> say whether it holds none or \<open>capacity - 1\<close> elements.\<close>

lemma cyclic_buffer_observers:
  assumes "cb_inv c"
  shows "\<exists>n. cyclic_buffer_size (Some c) = ret n \<and> unat n = length (cb_queue c m) \<and>
    (cyclic_buffer_is_empty (Some c) \<longleftrightarrow> cb_queue c m = []) \<and>
    cyclic_buffer_is_full (Some c) = ret (length (cb_queue c m) = unat (capacity c) - 1)"
  using cyclic_buffer_size_correct [OF assms, of m] cyclic_buffer_is_empty_correct [OF assms, of m]
    cyclic_buffer_is_full_correct [OF assms]
    ring_full_iff [of "unat (head c)" "unat (capacity c)" "unat (tail c)"] assms
  by (auto simp: cb_queue_def cb_inv_def)

end
