(* ===== verification/KString.thy ===== *)
theory KString
  imports KMemory
begin

text \<open>
  \<^verbatim>\<open>kernel/src/lib/kstring.c\<close> and \<^verbatim>\<open>kernel/src/lib/kcursor.c\<close>: the length of
  a NUL-terminated string, and the output cursor that bounds every formatted write.
\<close>

section \<open>Strings\<close>

text \<open>The loop has no bound of its own: in memory without a zero byte it does not end.\<close>

partial_function (option) kstrlen_loop :: "mem \<Rightarrow> u32 \<Rightarrow> u32 \<Rightarrow> u32 res" where
  "kstrlen_loop m input n =
     (if m (input + n) \<noteq> 0 then kstrlen_loop m input (n + 1) else ret n)"

declare kstrlen_loop.simps [code]

definition kstrlen :: "u32 \<Rightarrow> mem \<Rightarrow> u32 res" where
  "kstrlen input m = kstrlen_loop m input 0"

text \<open>The bytes \<open>s\<close> stand at \<open>p\<close>, followed by the first zero byte.\<close>

definition cstring :: "mem \<Rightarrow> u32 \<Rightarrow> u8 list \<Rightarrow> bool" where
  "cstring m p s \<longleftrightarrow>
     read_bytes m p (length s) = s \<and> 0 \<notin> set s \<and> m (p + of_nat (length s)) = 0 \<and>
     length s < 4294967296"

lemma cstringD:
  assumes "cstring m p s"
  shows "i < length s \<Longrightarrow> m (p + of_nat i) = s ! i" and "i < length s \<Longrightarrow> s ! i \<noteq> 0"
    and "m (p + of_nat (length s)) = 0" and "length s < 4294967296"
proof -
  show "m (p + of_nat i) = s ! i" if "i < length s"
    using assms that nth_read_bytes [of i "length s" m p] by (simp add: cstring_def)
qed (use assms nth_mem in \<open>fastforce simp: cstring_def\<close>)+

lemma kstrlen_loop_correct:
  assumes s: "cstring m p s"
  shows "i \<le> length s \<Longrightarrow> kstrlen_loop m p (of_nat i) = ret (of_nat (length s))"
proof (induction rule: inc_induct)
  case base
  show ?case by (subst kstrlen_loop.simps) (simp add: cstringD(3) [OF s])
next
  case (step i)
  then show ?case
    using cstringD(1,2) [OF s, of i] by (subst kstrlen_loop.simps) (simp add: add.commute)
qed

lemma kstrlen_correct: "cstring m p s \<Longrightarrow> kstrlen p m = ret (of_nat (length s))"
  using kstrlen_loop_correct [of m p s 0] by (simp add: kstrlen_def)

section \<open>Cursors\<close>

record kcursor_t =
  start :: u32
  current :: u32
  cend :: u32

definition kcursor_init :: "kcursor_t option \<Rightarrow> u32 \<Rightarrow> u32 \<Rightarrow> bool \<times> kcursor_t option" where
  "kcursor_init cursor buf sz =
     (if cursor = None \<or> buf = NULL \<or> sz = 0 then (False, cursor)
      else (True, Some \<lparr>start = buf, current = buf, cend = buf + sz\<rparr>))"

definition kcursor_remaining :: "kcursor_t option \<Rightarrow> u32" where
  "kcursor_remaining cursor = (case cursor of None \<Rightarrow> 0 | Some c \<Rightarrow> cend c - current c)"

definition kcursor_written :: "kcursor_t option \<Rightarrow> u32" where
  "kcursor_written cursor = (case cursor of None \<Rightarrow> 0 | Some c \<Rightarrow> current c - start c)"

definition kcursor_advance :: "kcursor_t option \<Rightarrow> u32 \<Rightarrow> bool \<times> kcursor_t option" where
  "kcursor_advance cursor amount =
     (case cursor of
        None \<Rightarrow> (False, None)
      | Some c \<Rightarrow>
          if amount > kcursor_remaining (Some c) then (False, Some c)
          else (True, Some (c\<lparr>current := current c + amount\<rparr>)))"

definition kcursor_write_byte ::
  "kcursor_t option \<Rightarrow> u8 \<Rightarrow> mem \<Rightarrow> bool \<times> kcursor_t option \<times> mem" where
  "kcursor_write_byte cursor v m =
     (case cursor of
        None \<Rightarrow> (False, None, m)
      | Some c \<Rightarrow>
          if kcursor_remaining (Some c) = 0 then (False, Some c, m)
          else (True, Some (c\<lparr>current := current c + 1\<rparr>), m(current c := v)))"

definition kcursor_write ::
  "kcursor_t option \<Rightarrow> u32 \<Rightarrow> u32 \<Rightarrow> mem \<Rightarrow> bool \<times> kcursor_t option \<times> mem" where
  "kcursor_write cursor source len m =
     (case cursor of
        None \<Rightarrow> (False, None, m)
      | Some c \<Rightarrow>
          if source = NULL then (False, Some c, m)
          else if len = 0 then (True, Some c, m)
          else if len > kcursor_remaining (Some c) then (False, Some c, m)
          else (True, Some (c\<lparr>current := current c + len\<rparr>),
                snd (kmemcpy (current c) source len m)))"

section \<open>What a cursor guarantees\<close>

definition cur_inv :: "kcursor_t \<Rightarrow> bool" where
  "cur_inv c \<longleftrightarrow> start c \<noteq> NULL \<and> start c \<le> current c \<and> current c \<le> cend c"

text \<open>The bytes written so far, and how many more fit.\<close>

definition cur_text :: "kcursor_t \<Rightarrow> mem \<Rightarrow> u8 list" where
  "cur_text c m = read_bytes m (start c) (unat (current c) - unat (start c))"

definition cur_room :: "kcursor_t \<Rightarrow> nat" where
  "cur_room c = unat (cend c) - unat (current c)"

lemma cur_bounds:
  assumes "cur_inv c"
  shows "unat (start c) \<le> unat (current c)" and "unat (current c) \<le> unat (cend c)"
    and "unat (kcursor_remaining (Some c)) = cur_room c"
    and "unat (kcursor_written (Some c)) = length (cur_text c m)"
    and "current c = start c + of_nat (length (cur_text c m))"
    and "current c \<noteq> NULL"
proof -
  show *: "unat (start c) \<le> unat (current c)" "unat (current c) \<le> unat (cend c)"
    using assms by (simp_all add: cur_inv_def word_le_nat_alt)
  then show "unat (kcursor_remaining (Some c)) = cur_room c"
    "unat (kcursor_written (Some c)) = length (cur_text c m)"
    by (simp_all add: kcursor_remaining_def kcursor_written_def cur_room_def cur_text_def unat_sub_nowrap)
  show "current c = start c + of_nat (length (cur_text c m))"
    using * by (simp add: cur_text_def of_nat_diff)
  show "current c \<noteq> NULL" using * assms by (auto simp: cur_inv_def unat_eq_0)
qed

text \<open>
  \<open>cur_extends xs c m c' m'\<close>: the step from \<open>(c, m)\<close> appended exactly the bytes \<open>xs\<close>, in
  the room there was, and touched no other byte.
\<close>

definition cur_extends :: "u8 list \<Rightarrow> kcursor_t \<Rightarrow> mem \<Rightarrow> kcursor_t \<Rightarrow> mem \<Rightarrow> bool" where
  "cur_extends xs c m c' m' \<longleftrightarrow>
     cur_inv c' \<and> start c' = start c \<and> cend c' = cend c \<and> length xs \<le> cur_room c \<and>
     unat (current c') = unat (current c) + length xs \<and>
     read_bytes m' (current c) (length xs) = xs \<and>
     (\<forall>x. \<not> in_range (current c) (length xs) x \<longrightarrow> m' x = m x)"

lemma cur_extends_Nil [simp]: "cur_inv c \<Longrightarrow> cur_extends [] c m c m"
  by (simp add: cur_extends_def read_bytes_def)

lemma cur_extends_trans:
  assumes x: "cur_extends xs c m c1 m1" and y: "cur_extends ys c1 m1 c2 m2"
  shows "cur_extends (xs @ ys) c m c2 m2"
proof -
  let ?a = "length xs" and ?b = "length ys"
  have u1: "unat (current c1) = unat (current c) + ?a" and u2: "unat (current c2) = unat (current c1) + ?b"
    and e: "start c2 = start c" "cend c2 = cend c" "cend c1 = cend c" "cur_inv c2"
    using x y by (simp_all add: cur_extends_def)
  have le: "unat (current c2) \<le> unat (cend c)" using cur_bounds(2) [OF e(4)] e(2) by simp
  have lim: "?a + ?b \<le> 4294967296" using u1 u2 unat_u32_lt [of "current c2"] by linarith
  have c1: "current c1 = current c + of_nat ?a"
    using u1 unat_u32_lt [of "current c1"] by (intro unsigned_word_eqI) (subst unat_add_nowrap, simp_all add: unat_of_nat_u32)
  have "disjoint_ranges (current c) ?a (current c1) ?b"
    using u1 u2 unat_u32_lt [of "current c2"] by (intro disjoint_rangesI) simp_all
  then have "read_bytes m2 (current c) ?a = read_bytes m1 (current c) ?a"
    using y disjoint_ranges_offset [OF disjoint_ranges_sym]
    by (intro read_bytes_cong) (auto simp: cur_extends_def)
  then have "read_bytes m2 (current c) (?a + ?b) = xs @ ys"
    using x y c1 by (simp add: read_bytes_append cur_extends_def)
  moreover have "m2 z = m z" if "\<not> in_range (current c) (?a + ?b) z" for z
    using that x y c1 in_range_append [OF lim] by (simp add: cur_extends_def)
  ultimately show ?thesis
    using e u1 u2 le by (simp add: cur_extends_def cur_room_def)
qed

lemma cur_extends_text:
  assumes "cur_inv c" and x: "cur_extends xs c m c' m'"
  shows "cur_text c' m' = cur_text c m @ xs"
proof -
  let ?n = "length (cur_text c m)"
  have u: "unat (current c') = unat (current c) + length xs" and s: "start c' = start c"
    using x by (simp_all add: cur_extends_def)
  note B = cur_bounds [OF assms(1)]
  have "disjoint_ranges (start c) ?n (current c) (length xs)"
    using B(1) u unat_u32_lt [of "current c'"] by (intro disjoint_rangesI) (simp_all add: cur_text_def)
  then have "read_bytes m' (start c) ?n = cur_text c m"
    using x disjoint_ranges_offset [OF disjoint_ranges_sym] unfolding cur_text_def length_read_bytes
    by (intro read_bytes_cong) (auto simp: cur_extends_def)
  moreover have "unat (current c') - unat (start c') = ?n + length xs"
    using u s B(1) by (simp add: cur_text_def)
  ultimately show ?thesis
    using x B(5) [of m] by (simp add: cur_text_def [of c'] s read_bytes_append cur_extends_def)
qed

text \<open>The operations: a byte, or all of a block or nothing.\<close>

lemma kcursor_write_byte_correct:
  assumes inv: "cur_inv c"
  shows "cur_room c = 0 \<Longrightarrow> kcursor_write_byte (Some c) v m = (False, Some c, m)"
    and "0 < cur_room c \<Longrightarrow> \<exists>c' m'. kcursor_write_byte (Some c) v m = (True, Some c', m') \<and>
      cur_extends [v] c m c' m'"
proof -
  note B = cur_bounds [OF inv]
  have z: "kcursor_remaining (Some c) = 0 \<longleftrightarrow> cur_room c = 0" using B(3) by (metis unat_eq_0)
  show "kcursor_write_byte (Some c) v m = (False, Some c, m)" if "cur_room c = 0"
    using that z by (simp add: kcursor_write_byte_def)
  assume r: "0 < cur_room c"
  then have u: "unat (current c + 1) = unat (current c) + 1"
    using unat_u32_lt [of "cend c"] by (subst unat_add_nowrap) (simp_all add: cur_room_def)
  then have "cur_extends [v] c m (c\<lparr>current := current c + 1\<rparr>) (m(current c := v))"
    using inv B(1) r in_range_offset [of 0 1 "current c"]
    by (auto simp: cur_extends_def cur_inv_def word_le_nat_alt cur_room_def read_bytes_def)
  then show "\<exists>c' m'. kcursor_write_byte (Some c) v m = (True, Some c', m') \<and> cur_extends [v] c m c' m'"
    using r z by (simp add: kcursor_write_byte_def)
qed

lemma kcursor_write_correct:
  assumes inv: "cur_inv c" and src: "source \<noteq> NULL"
  shows "cur_room c < unat len \<Longrightarrow> kcursor_write (Some c) source len m = (False, Some c, m)"
    and "unat len \<le> cur_room c \<Longrightarrow> disjoint_ranges (current c) (unat len) source (unat len) \<Longrightarrow>
      \<exists>c' m'. kcursor_write (Some c) source len m = (True, Some c', m') \<and>
        cur_extends (read_bytes m source (unat len)) c m c' m'"
proof -
  note B = cur_bounds [OF inv]
  have z: "len > kcursor_remaining (Some c) \<longleftrightarrow> cur_room c < unat len"
    using B(3) by (simp add: word_less_nat_alt)
  show "kcursor_write (Some c) source len m = (False, Some c, m)" if "cur_room c < unat len"
    using that z src by (auto simp: kcursor_write_def)
  assume r: "unat len \<le> cur_room c" and d: "disjoint_ranges (current c) (unat len) source (unat len)"
  show "\<exists>c' m'. kcursor_write (Some c) source len m = (True, Some c', m') \<and>
      cur_extends (read_bytes m source (unat len)) c m c' m'"
  proof (cases "len = 0")
    case True
    then show ?thesis using inv src by (simp add: kcursor_write_def read_bytes_def)
  next
    case False
    let ?m = "snd (kmemcpy (current c) source len m)"
    have u: "unat (current c + len) = unat (current c) + unat len"
      using r unat_u32_lt [of "cend c"] B(2) by (subst unat_add_nowrap) (simp_all add: cur_room_def)
    have "read_bytes ?m (current c) (unat len) = read_bytes m source (unat len)"
      by (rule read_bytes_kmemcpy(1) [OF B(6) src d])
    moreover have "?m x = m x" if "\<not> in_range (current c) (unat len) x" for x
      using that by (simp add: kmemcpy_disjoint_apply [OF B(6) src d])
    ultimately have "cur_extends (read_bytes m source (unat len)) c m (c\<lparr>current := current c + len\<rparr>) ?m"
      using inv u B(1,2) r by (auto simp: cur_extends_def cur_inv_def word_le_nat_alt cur_room_def)
    then show ?thesis using False r z src by (simp add: kcursor_write_def not_less)
  qed
qed

lemma kcursor_init_correct:
  assumes "buf \<noteq> NULL" and "0 < unat sz" and "unat buf + unat sz < 4294967296"
  shows "\<exists>c'. kcursor_init (Some c) buf sz = (True, Some c') \<and> cur_inv c' \<and> start c' = buf \<and>
    current c' = buf \<and> cur_room c' = unat sz"
  using assms unat_add_nowrap [OF assms(3)]
  by (auto simp: kcursor_init_def cur_inv_def cur_room_def word_le_nat_alt)

end
