(* ===== verification/KIO.thy ===== *)
theory KIO
  imports Prelude
begin

text \<open>
  Port input and output, \<^verbatim>\<open>kernel/src/lib/kio.c\<close>. The two functions wrap one machine
  instruction each, so the hardware behind the ports is a parameter: \<open>dev tr port\<close> is the byte a
  read of \<open>port\<close> gives after the accesses \<open>tr\<close>. Every access is recorded in a trace, oldest
  first, and theorems hold for every \<open>dev\<close> or name what they need of it.
\<close>

datatype io_event = Out u16 u8 | In u16 u8

type_synonym io = "io_event list"
type_synonym device = "io \<Rightarrow> u16 \<Rightarrow> u8"

definition outb :: "u16 \<Rightarrow> u8 \<Rightarrow> io \<Rightarrow> io" where
  "outb port d tr = tr @ [Out port d]"

definition inb :: "device \<Rightarrow> u16 \<Rightarrow> io \<Rightarrow> u8 \<times> io" where
  "inb dev port tr = (let v = dev tr port in (v, tr @ [In port v]))"

text \<open>The bytes written to a port, oldest first.\<close>

fun written_to :: "u16 \<Rightarrow> io \<Rightarrow> u8 list" where
  "written_to p [] = []"
| "written_to p (Out q d # tr) = (if q = p then d # written_to p tr else written_to p tr)"
| "written_to p (In q d # tr) = written_to p tr"

lemma written_to_append [simp]: "written_to p (tr @ tr') = written_to p tr @ written_to p tr'"
  by (induction p tr rule: written_to.induct) auto

lemma written_to_outb [simp]:
  "written_to p (outb q d tr) = written_to p tr @ (if q = p then [d] else [])"
  by (simp add: outb_def)

end
