(* ===== verification/VGA.thy ===== *)
theory VGA
  imports KIO KString
begin

text \<open>
  \<^verbatim>\<open>kernel/src/drivers/vga.c\<close>: the text console. The cells of the frame buffer are indexed from
  \<^verbatim>\<open>VGA_MEMORY_ADDRESS\<close>; the cursor registers are reached through the trace of port writes. The
  console is shown to implement an 80 by 25 screen of rows that scrolls.
\<close>

section \<open>The code\<close>

definition VGA_WIDTH :: nat where
  "VGA_WIDTH = 80"

definition VGA_HEIGHT :: nat where
  "VGA_HEIGHT = 25"

record vga_state =
  g_vga_memory :: "nat \<Rightarrow> u16"
  g_row :: u32
  g_column :: u32
  g_current_color :: u8

datatype vga_color_t =
    VGA_COLOR_BLACK | VGA_COLOR_BLUE | VGA_COLOR_GREEN | VGA_COLOR_CYAN
  | VGA_COLOR_RED | VGA_COLOR_MAGENTA | VGA_COLOR_BROWN | VGA_COLOR_LIGHT_GREY
  | VGA_COLOR_DARK_GREY | VGA_COLOR_LIGHT_BLUE | VGA_COLOR_LIGHT_GREEN | VGA_COLOR_LIGHT_CYAN
  | VGA_COLOR_LIGHT_RED | VGA_COLOR_LIGHT_MAGENTA | VGA_COLOR_LIGHT_BROWN | VGA_COLOR_WHITE

fun vga_color_value :: "vga_color_t \<Rightarrow> u8" where
  "vga_color_value VGA_COLOR_BLACK = 0"
| "vga_color_value VGA_COLOR_BLUE = 1"
| "vga_color_value VGA_COLOR_GREEN = 2"
| "vga_color_value VGA_COLOR_CYAN = 3"
| "vga_color_value VGA_COLOR_RED = 4"
| "vga_color_value VGA_COLOR_MAGENTA = 5"
| "vga_color_value VGA_COLOR_BROWN = 6"
| "vga_color_value VGA_COLOR_LIGHT_GREY = 7"
| "vga_color_value VGA_COLOR_DARK_GREY = 8"
| "vga_color_value VGA_COLOR_LIGHT_BLUE = 9"
| "vga_color_value VGA_COLOR_LIGHT_GREEN = 10"
| "vga_color_value VGA_COLOR_LIGHT_CYAN = 11"
| "vga_color_value VGA_COLOR_LIGHT_RED = 12"
| "vga_color_value VGA_COLOR_LIGHT_MAGENTA = 13"
| "vga_color_value VGA_COLOR_LIGHT_BROWN = 14"
| "vga_color_value VGA_COLOR_WHITE = 15"

text \<open>\<open>char\<close> is signed on the target, so the cast to 16 bits extends the sign.\<close>

definition vga_entry :: "u8 \<Rightarrow> u8 \<Rightarrow> u16" where
  "vga_entry character color = scast character OR push_bit 8 (ucast color)"

definition VGA_CRTC_CURSOR_LOW :: u8 where [simp]: "VGA_CRTC_CURSOR_LOW = 0x0F"

definition VGA_CRTC_CURSOR_HIGH :: u8 where [simp]: "VGA_CRTC_CURSOR_HIGH = 0x0E"

definition VGA_CRTC_INDEX_PORT :: u16 where
  "VGA_CRTC_INDEX_PORT = 0x3D4"

definition VGA_CRTC_DATA_PORT :: u16 where
  "VGA_CRTC_DATA_PORT = 0x3D5"

definition vga_set_cursor :: "u16 \<Rightarrow> u16 \<Rightarrow> vga_state \<times> io \<Rightarrow> vga_state \<times> io" where
  "vga_set_cursor row column = (\<lambda>(s, tr).
     if unat row \<ge> VGA_HEIGHT \<or> unat column \<ge> VGA_WIDTH then (s, tr)
     else
       let s1 = s\<lparr>g_column := ucast column, g_row := ucast row\<rparr>;
           position = ucast (g_row s1 * of_nat VGA_WIDTH + g_column s1) :: u16;
           tr1 = outb VGA_CRTC_INDEX_PORT VGA_CRTC_CURSOR_LOW tr;
           tr2 = outb VGA_CRTC_DATA_PORT (ucast (position AND 0xFF)) tr1;
           tr3 = outb VGA_CRTC_INDEX_PORT VGA_CRTC_CURSOR_HIGH tr2;
           tr4 = outb VGA_CRTC_DATA_PORT (ucast (drop_bit 8 position AND 0xFF)) tr3
       in (s1, tr4))"

definition vga_get_cursor :: "vga_state \<Rightarrow> u16 \<times> u16" where
  "vga_get_cursor s = (ucast (g_row s), ucast (g_column s))"

definition scroll_row :: "nat \<Rightarrow> (nat \<Rightarrow> u16) \<Rightarrow> nat \<Rightarrow> u16" where
  "scroll_row y vm = fold (\<lambda>x vm.
     let original_index = y * VGA_WIDTH + x;
         new_index = (y - 1) * VGA_WIDTH + x
     in vm(new_index := vm original_index)) [0..<VGA_WIDTH] vm"

definition vga_scroll :: "vga_state \<times> io \<Rightarrow> vga_state \<times> io" where
  "vga_scroll = (\<lambda>(s, tr).
     let vm1 = fold scroll_row [1..<VGA_HEIGHT] (g_vga_memory s);
         vm2 = fold (\<lambda>x vm. vm((VGA_HEIGHT - 1) * VGA_WIDTH + x :=
                  vga_entry (of_char CHR '' '') (g_current_color s))) [0..<VGA_WIDTH] vm1
     in vga_set_cursor (of_nat VGA_HEIGHT - 1) (ucast (g_column s)) (s\<lparr>g_vga_memory := vm2\<rparr>, tr))"

definition vga_clear :: "vga_state \<times> io \<Rightarrow> vga_state \<times> io" where
  "vga_clear = (\<lambda>(s, tr).
     vga_set_cursor 0 0
       (s\<lparr>g_vga_memory := fold (\<lambda>index vm.
            vm(index := vga_entry (of_char CHR '' '') (g_current_color s)))
            [0..<VGA_WIDTH * VGA_HEIGHT] (g_vga_memory s)\<rparr>, tr))"

definition vga_set_color :: "vga_color_t \<Rightarrow> vga_color_t \<Rightarrow> vga_state \<Rightarrow> vga_state" where
  "vga_set_color foreground background s =
     s\<lparr>g_current_color := vga_color_value foreground OR push_bit 4 (vga_color_value background)\<rparr>"

definition vga_init :: "vga_state \<times> io \<Rightarrow> vga_state \<times> io" where
  "vga_init = (\<lambda>(s, tr).
     vga_clear (vga_set_color VGA_COLOR_LIGHT_GREY VGA_COLOR_BLACK s, tr))"

definition vga_write_char :: "u8 \<Rightarrow> vga_state \<times> io \<Rightarrow> vga_state \<times> io" where
  "vga_write_char character = (\<lambda>(s, tr).
     if character = of_char CHR 0x0A
     then
       let s1 = s\<lparr>g_column := 0, g_row := g_row s + 1\<rparr>
       in if unat (g_row s1) \<ge> VGA_HEIGHT then vga_scroll (s1, tr) else (s1, tr)
     else
       let position = ucast (g_row s * of_nat VGA_WIDTH + g_column s) :: u16;
           s1 = s\<lparr>g_vga_memory := (g_vga_memory s)(unat position := vga_entry character (g_current_color s)),
                  g_column := g_column s + 1\<rparr>;
           (s2, tr2) =
             (if unat (g_column s1) \<ge> VGA_WIDTH
              then
                let s' = s1\<lparr>g_column := 0, g_row := g_row s1 + 1\<rparr>
                in if unat (g_row s') \<ge> VGA_HEIGHT then vga_scroll (s', tr) else (s', tr)
              else (s1, tr))
       in vga_set_cursor (ucast (g_row s2)) (ucast (g_column s2)) (s2, tr2))"

partial_function (option) vga_write_string ::
  "mem \<Rightarrow> u32 \<Rightarrow> vga_state \<times> io \<Rightarrow> (vga_state \<times> io) res" where
  "vga_write_string m d st =
     (if m d \<noteq> 0 then vga_write_string m (d + 1) (vga_write_char (m d) st) else ret st)"

declare vga_write_string.simps [code]

section \<open>The screen\<close>

text \<open>Rows of cells with the position of the next character; \<open>b\<close> is a blank cell.\<close>

type_synonym screen = "u16 list list \<times> nat \<times> nat"

definition scr_newline :: "u16 \<Rightarrow> screen \<Rightarrow> screen" where
  "scr_newline b = (\<lambda>(R, r, c).
     if r + 1 < VGA_HEIGHT then (R, r + 1, 0)
     else (tl R @ [replicate VGA_WIDTH b], VGA_HEIGHT - 1, 0))"

definition scr_put :: "u16 \<Rightarrow> u16 \<Rightarrow> screen \<Rightarrow> screen" where
  "scr_put e b = (\<lambda>(R, r, c).
     let R' = R[r := (R ! r)[c := e]]
     in if c + 1 < VGA_WIDTH then (R', r, c + 1) else scr_newline b (R', r, c))"

definition scr_char :: "u8 \<Rightarrow> u8 \<Rightarrow> screen \<Rightarrow> screen" where
  "scr_char ch color =
     (if ch = 10 then scr_newline (vga_entry 32 color)
      else scr_put (vga_entry ch color) (vga_entry 32 color))"

definition vga_rows :: "(nat \<Rightarrow> u16) \<Rightarrow> u16 list list" where
  "vga_rows vm = map (\<lambda>r. map (\<lambda>c. vm (r * VGA_WIDTH + c)) [0..<VGA_WIDTH]) [0..<VGA_HEIGHT]"

definition vga_abs :: "vga_state \<Rightarrow> screen" where
  "vga_abs s = (vga_rows (g_vga_memory s), unat (g_row s), unat (g_column s))"

definition vga_inv :: "vga_state \<Rightarrow> bool" where
  "vga_inv s \<longleftrightarrow> unat (g_row s) < VGA_HEIGHT \<and> unat (g_column s) < VGA_WIDTH"

text \<open>
  The cursor the display shows: the register file of the CRT controller, replayed from the writes
  to its index and data ports.
\<close>

fun crtc_step :: "io_event \<Rightarrow> u8 \<times> (u8 \<Rightarrow> u8) \<Rightarrow> u8 \<times> (u8 \<Rightarrow> u8)" where
  "crtc_step (Out p d) (i, regs) =
     (if p = VGA_CRTC_INDEX_PORT then (d, regs)
      else if p = VGA_CRTC_DATA_PORT then (i, regs(i := d)) else (i, regs))"
| "crtc_step (In p d) (i, regs) = (i, regs)"

definition hw_cursor :: "io \<Rightarrow> nat" where
  "hw_cursor tr = (let regs = snd (fold crtc_step tr (0, \<lambda>_. 0)) in unat (regs 0x0E) * 256 + unat (regs 0x0F))"

section \<open>Scrolling and clearing\<close>

lemma fold_fill:
  "fold (\<lambda>x vm. vm(b + x := v)) [0..<n] vm i = (if b \<le> i \<and> i < b + n then v else vm (i :: nat))"
  by (induction n) auto

lemma fold_shift:
  "k \<le> n \<Longrightarrow> fold (\<lambda>x vm. vm(b + x := vm (b + n + x))) [0..<k] vm i =
     (if b \<le> i \<and> i < b + k then vm (i + n) else vm (i :: nat))"
  by (induction k arbitrary: i) (auto simp: algebra_simps)

lemma scroll_row_apply:
  assumes "0 < y"
  shows "scroll_row y vm i =
    (if (y - 1) * 80 \<le> i \<and> i < y * 80 then vm (i + 80) else vm i)"
proof -
  have y: "y * 80 = (y - 1) * 80 + 80" using assms by (cases y) simp_all
  show ?thesis
    using fold_shift [of 80 80 "(y - 1) * 80" vm i] by (simp add: scroll_row_def VGA_WIDTH_def Let_def y)
qed

lemma scroll_rows_apply:
  "fold scroll_row [1..<Suc n] vm i = (if i < n * 80 then vm (i + 80) else vm i)"
proof (induction n arbitrary: i)
  case (Suc n)
  have "fold scroll_row [1..<Suc (Suc n)] vm i = scroll_row (Suc n) (fold scroll_row [1..<Suc n] vm) i"
    by simp
  then show ?case unfolding Suc.IH scroll_row_apply [OF zero_less_Suc] by auto
qed simp

lemma vga_rows_eqI: "(\<And>i. i < 2000 \<Longrightarrow> vm i = vm' i) \<Longrightarrow> vga_rows vm = vga_rows vm'"
  by (auto simp: vga_rows_def VGA_WIDTH_def VGA_HEIGHT_def)

lemma vga_rows_nth:
  "r < 25 \<Longrightarrow> vga_rows vm ! r = map (\<lambda>c. vm (r * 80 + c)) [0..<80]"
  by (simp add: vga_rows_def VGA_WIDTH_def VGA_HEIGHT_def)

lemma length_vga_rows [simp]: "length (vga_rows vm) = 25"
  by (simp add: vga_rows_def VGA_HEIGHT_def)

lemma cell_index_inj:
  assumes "(c :: nat) < 80" and "j < 80"
  shows "i * 80 + j = r * 80 + c \<longleftrightarrow> i = r \<and> j = c"
proof
  assume e: "i * 80 + j = r * 80 + c"
  have "(i * 80 + j) div 80 = i" "(r * 80 + c) div 80 = r" using assms by simp_all
  then show "i = r \<and> j = c" using e by simp
qed simp

lemma vga_rows_upd:
  assumes "r < 25" and "c < 80"
  shows "vga_rows (vm(r * 80 + c := e)) = (vga_rows vm)[r := (vga_rows vm ! r)[c := e]]"
proof (rule nth_equalityI)
  fix i assume "i < length (vga_rows (vm(r * 80 + c := e)))"
  then have i: "i < 25" by simp
  have "vga_rows (vm(r * 80 + c := e)) ! i ! j = (vga_rows vm)[r := (vga_rows vm ! r)[c := e]] ! i ! j"
    if "j < 80" for j
    using i assms cell_index_inj [OF assms(2) that, of i r] that
    by (cases "i = r"; cases "j = c") (simp_all add: vga_rows_nth)
  moreover have "length (vga_rows (vm(r * 80 + c := e)) ! i) = 80"
    "length ((vga_rows vm)[r := (vga_rows vm ! r)[c := e]] ! i) = 80"
    using i assms by (simp_all add: vga_rows_nth nth_upd)
  ultimately show "vga_rows (vm(r * 80 + c := e)) ! i = (vga_rows vm)[r := (vga_rows vm ! r)[c := e]] ! i"
    by (intro nth_equalityI) simp_all
qed simp

text \<open>The memory after the copying and blanking loops of \<open>vga_scroll\<close>.\<close>

definition scrolled :: "u16 \<Rightarrow> (nat \<Rightarrow> u16) \<Rightarrow> nat \<Rightarrow> u16" where
  "scrolled b vm i = (if i < 1920 then vm (i + 80) else if i < 2000 then b else vm i)"

lemma scroll_memory:
  "fold (\<lambda>x vm. vm((VGA_HEIGHT - 1) * VGA_WIDTH + x := b)) [0..<VGA_WIDTH]
     (fold scroll_row [1..<VGA_HEIGHT] vm) = scrolled b vm"
proof
  fix i
  have "fold scroll_row [1..<VGA_HEIGHT] vm j = (if j < 24 * 80 then vm (j + 80) else vm j)" for j
    using scroll_rows_apply [of 24 vm j] by (simp add: VGA_HEIGHT_def)
  then show "fold (\<lambda>x vm. vm((VGA_HEIGHT - 1) * VGA_WIDTH + x := b)) [0..<VGA_WIDTH]
     (fold scroll_row [1..<VGA_HEIGHT] vm) i = scrolled b vm i"
    unfolding fold_fill by (auto simp: scrolled_def VGA_WIDTH_def VGA_HEIGHT_def)
qed

lemma vga_rows_scrolled: "vga_rows (scrolled b vm) = tl (vga_rows vm) @ [replicate 80 b]"
proof (rule nth_equalityI)
  fix i assume "i < length (vga_rows (scrolled b vm))"
  then have i: "i < 25" by simp
  show "vga_rows (scrolled b vm) ! i = (tl (vga_rows vm) @ [replicate 80 b]) ! i"
    using i by (auto simp: vga_rows_nth nth_append nth_tl scrolled_def not_less le_antisym algebra_simps
        intro!: nth_equalityI)
qed simp

section \<open>The cursor\<close>

lemma unat_position:
  assumes "unat r < 25" and "unat c < 80"
  shows "unat (ucast (r * of_nat VGA_WIDTH + c :: u32) :: u16) = unat r * 80 + unat c"
proof -
  have "unat (r * of_nat VGA_WIDTH) = unat r * 80"
    using assms(1) by (subst unat_mult_nowrap) (simp_all add: VGA_WIDTH_def)
  then have "unat (r * of_nat VGA_WIDTH + c) = unat r * 80 + unat c"
    using assms by (subst unat_add_nowrap) simp_all
  then show ?thesis using assms by (simp add: unsigned_ucast_eq take_bit_eq_mod)
qed

lemma unat_low_high:
  "unat (ucast (p AND 0xFF) :: u8) = unat (p :: u16) mod 256"
  "unat (ucast (drop_bit 8 p AND 0xFF) :: u8) = unat p div 256"
proof -
  have ff: "0xFF = (mask 8 :: u16)" by (simp add: mask_eq_exp_minus_1)
  show "unat (ucast (p AND 0xFF) :: u8) = unat p mod 256"
    unfolding ff by (simp add: unsigned_ucast_eq unat_and_mask take_bit_eq_mod)
  have "unat p div 256 < 256" using unat_u16_lt [of p] by simp
  then show "unat (ucast (drop_bit 8 p AND 0xFF) :: u8) = unat p div 256"
    unfolding ff by (simp add: unsigned_ucast_eq unat_and_mask take_bit_eq_mod unat_drop_bit_eq drop_bit_eq_div unat_div)
qed

lemma vga_set_cursor_correct:
  assumes "unat r < 25" and "unat c < 80"
  obtains tr' where "vga_set_cursor r c (s, tr) = (s\<lparr>g_column := ucast c, g_row := ucast r\<rparr>, tr')"
    and "hw_cursor tr' = unat r * 80 + unat c"
proof -
  define p where "p = (ucast ((ucast r :: u32) * of_nat VGA_WIDTH + ucast c) :: u16)"
  have u: "unat (ucast r :: u32) = unat r" "unat (ucast c :: u32) = unat c"
    by (rule unat_ucast_up)+
  have p: "unat p = unat r * 80 + unat c"
    using unat_position [of "ucast r" "ucast c"] assms u by (simp add: p_def)
  define lo hi where "lo = (ucast (p AND 0xFF) :: u8)" and "hi = (ucast (drop_bit 8 p AND 0xFF) :: u8)"
  have lh: "unat lo = unat p mod 256" "unat hi = unat p div 256"
    unfolding lo_def hi_def by (rule unat_low_high)+
  let ?tr = "tr @ [Out VGA_CRTC_INDEX_PORT 0x0F, Out VGA_CRTC_DATA_PORT lo,
     Out VGA_CRTC_INDEX_PORT 0x0E, Out VGA_CRTC_DATA_PORT hi]"
  obtain i0 regs where ir: "fold crtc_step tr (0, \<lambda>_. 0) = (i0, regs)" by (cases "fold crtc_step tr (0, \<lambda>_. 0)")
  have "hw_cursor ?tr = unat p"
    using div_mult_mod_eq [of "unat p" 256]
    by (simp add: hw_cursor_def Let_def ir VGA_CRTC_INDEX_PORT_def VGA_CRTC_DATA_PORT_def lh)
  moreover have "vga_set_cursor r c (s, tr) = (s\<lparr>g_column := ucast c, g_row := ucast r\<rparr>, ?tr)"
    using assms by (simp add: vga_set_cursor_def Let_def outb_def lo_def hi_def p_def VGA_HEIGHT_def VGA_WIDTH_def)
  ultimately show thesis using that p by simp
qed

lemma vga_scroll_correct:
  assumes "unat (g_column s) < 80"
  obtains tr' where "vga_scroll (s, tr) =
      (s\<lparr>g_vga_memory := scrolled (vga_entry 32 (g_current_color s)) (g_vga_memory s), g_row := 24\<rparr>, tr')"
    and "hw_cursor tr' = 24 * 80 + unat (g_column s)"
proof -
  let ?s = "s\<lparr>g_vga_memory := scrolled (vga_entry 32 (g_current_color s)) (g_vga_memory s)\<rparr>"
  have c: "unat (ucast (g_column s) :: u16) = unat (g_column s)"
    using assms by (simp add: unsigned_ucast_eq take_bit_eq_mod)
  have cc: "(ucast (ucast (g_column s) :: u16) :: u32) = g_column s"
    unfolding word_unat_eq_iff by (simp only: unat_ucast_up c)
  have e: "vga_scroll (s, tr) = vga_set_cursor 24 (ucast (g_column s)) (?s, tr)"
    unfolding vga_scroll_def Let_def split scroll_memory by (simp add: VGA_HEIGHT_def)
  obtain tr' where "vga_set_cursor 24 (ucast (g_column s)) (?s, tr) =
      (?s\<lparr>g_column := ucast (ucast (g_column s) :: u16), g_row := ucast (24 :: u16)\<rparr>, tr')"
    "hw_cursor tr' = unat (24 :: u16) * 80 + unat (ucast (g_column s) :: u16)"
    by (rule vga_set_cursor_correct [of 24 "ucast (g_column s)" ?s tr]) (use c assms in simp_all)
  then show thesis using that e cc c by simp
qed

section \<open>Writing characters\<close>

text \<open>The step to the next line that both branches of \<open>vga_write_char\<close> take.\<close>

definition vga_newline :: "vga_state \<times> io \<Rightarrow> vga_state \<times> io" where
  "vga_newline = (\<lambda>(s, tr).
     let s' = s\<lparr>g_column := 0, g_row := g_row s + 1\<rparr>
     in if unat (g_row s') \<ge> VGA_HEIGHT then vga_scroll (s', tr) else (s', tr))"

lemma unat_Suc_small: "unat (a :: u32) < 100 \<Longrightarrow> unat (a + 1) = Suc (unat a)"
  by (subst unat_add_nowrap) simp_all

lemma vga_newline_correct:
  assumes inv: "unat (g_row s) < 25"
  obtains s' tr' where "vga_newline (s, tr) = (s', tr')" and "vga_inv s'"
    and "vga_abs s' = scr_newline (vga_entry 32 (g_current_color s)) (vga_abs s)"
    and "g_current_color s' = g_current_color s"
    and "\<And>i. 2000 \<le> i \<Longrightarrow> g_vga_memory s' i = g_vga_memory s i"
proof -
  let ?s = "s\<lparr>g_column := 0, g_row := g_row s + 1\<rparr>"
  have u: "unat (g_row s + 1) = Suc (unat (g_row s))" using inv by (intro unat_Suc_small) simp
  show thesis
  proof (cases "Suc (unat (g_row s)) < 25")
    case True
    then have "vga_newline (s, tr) = (?s, tr)"
      by (simp add: vga_newline_def u VGA_HEIGHT_def)
    then show thesis
      using that [of ?s tr] True u
      by (simp add: vga_inv_def vga_abs_def scr_newline_def VGA_HEIGHT_def VGA_WIDTH_def)
  next
    case False
    obtain tr' where "vga_scroll (?s, tr) = (?s\<lparr>g_vga_memory :=
        scrolled (vga_entry 32 (g_current_color ?s)) (g_vga_memory ?s), g_row := 24\<rparr>, tr')"
      by (rule vga_scroll_correct [of ?s tr]) simp_all
    then have e: "vga_newline (s, tr) = (?s\<lparr>g_vga_memory :=
        scrolled (vga_entry 32 (g_current_color s)) (g_vga_memory s), g_row := 24\<rparr>, tr')"
      using False by (simp add: vga_newline_def u VGA_HEIGHT_def)
    show thesis
      by (rule that [OF e])
        (use False in \<open>simp_all add: vga_inv_def vga_abs_def scr_newline_def vga_rows_scrolled
          VGA_HEIGHT_def VGA_WIDTH_def scrolled_def\<close>)
  qed
qed

lemma vga_write_char_newline: "vga_write_char 10 st = vga_newline st"
  by (cases st) (simp add: vga_write_char_def vga_newline_def)

lemma vga_write_char_put:
  assumes "ch \<noteq> 10" and inv: "vga_inv s"
  obtains s' tr' where "vga_write_char ch (s, tr) = (s', tr')" and "vga_inv s'"
    and "vga_abs s' = scr_char ch (g_current_color s) (vga_abs s)"
    and "g_current_color s' = g_current_color s"
    and "\<And>i. 2000 \<le> i \<Longrightarrow> g_vga_memory s' i = g_vga_memory s i"
    and "hw_cursor tr' = unat (g_row s') * 80 + unat (g_column s')"
proof -
  have rc: "unat (g_row s) < 25" "unat (g_column s) < 80"
    using inv by (simp_all add: vga_inv_def VGA_HEIGHT_def VGA_WIDTH_def)
  let ?e = "vga_entry ch (g_current_color s)"
  define s1 where "s1 = s\<lparr>g_vga_memory := (g_vga_memory s)(unat (g_row s) * 80 + unat (g_column s) := ?e),
      g_column := g_column s + 1\<rparr>"
  have u: "unat (g_column s1) = Suc (unat (g_column s))" "unat (g_row s1) = unat (g_row s)"
    using rc by (simp_all add: s1_def unat_Suc_small)
  have rows: "vga_rows (g_vga_memory s1) = (vga_rows (g_vga_memory s))[unat (g_row s) :=
      (vga_rows (g_vga_memory s) ! unat (g_row s))[unat (g_column s) := ?e]]"
    using vga_rows_upd [OF rc] by (simp add: s1_def)
  define st2 where "st2 = (if unat (g_column s1) \<ge> VGA_WIDTH then vga_newline (s1, tr) else (s1, tr))"
  have w: "vga_write_char ch (s, tr) =
      (case st2 of (s2, tr2) \<Rightarrow> vga_set_cursor (ucast (g_row s2)) (ucast (g_column s2)) (s2, tr2))"
    using assms(1) rc by (simp add: vga_write_char_def unat_position Let_def st2_def s1_def vga_newline_def)
  obtain s2 tr2 where st2: "st2 = (s2, tr2)" by (cases st2)
  have P: "vga_inv s2 \<and> g_current_color s2 = g_current_color s \<and>
      vga_abs s2 = scr_char ch (g_current_color s) (vga_abs s) \<and>
      (\<forall>i \<ge> 2000. g_vga_memory s2 i = g_vga_memory s i)"
  proof (cases "unat (g_column s1) < 80")
    case True
    then have "s2 = s1" using st2 by (simp add: st2_def VGA_WIDTH_def)
    then show ?thesis
      using True u rows rc assms(1)
      by (simp add: vga_inv_def vga_abs_def scr_char_def scr_put_def VGA_WIDTH_def VGA_HEIGHT_def)
        (simp add: s1_def)
  next
    case False
    then have nl: "vga_newline (s1, tr) = (s2, tr2)" using st2 by (simp add: st2_def VGA_WIDTH_def)
    show ?thesis
      by (rule vga_newline_correct [of s1 tr])
        (use nl False u rows rc assms(1) in \<open>auto simp: vga_abs_def scr_char_def scr_put_def
          scr_newline_def VGA_WIDTH_def VGA_HEIGHT_def s1_def\<close>)
  qed
  then have rc2: "unat (g_row s2) < 25" "unat (g_column s2) < 80"
    by (simp_all add: vga_inv_def VGA_HEIGHT_def VGA_WIDTH_def)
  then have d: "unat (ucast (g_row s2) :: u16) = unat (g_row s2)"
    "unat (ucast (g_column s2) :: u16) = unat (g_column s2)"
    by (simp_all add: unat_ucast_down)
  have bk: "(ucast (ucast (g_row s2) :: u16) :: u32) = g_row s2"
    "(ucast (ucast (g_column s2) :: u16) :: u32) = g_column s2"
    unfolding word_unat_eq_iff by (simp_all only: unat_ucast_up d)
  obtain tr' where "vga_set_cursor (ucast (g_row s2)) (ucast (g_column s2)) (s2, tr2) = (s2, tr')"
    "hw_cursor tr' = unat (g_row s2) * 80 + unat (g_column s2)"
    by (rule vga_set_cursor_correct [of "ucast (g_row s2)" "ucast (g_column s2)" s2 tr2])
      (use rc2 d bk in simp_all)
  then show thesis using that [of s2 tr'] P w st2 by simp
qed

lemma vga_write_string_fold:
  assumes s: "cstring m p bs"
  shows "i \<le> length bs \<Longrightarrow>
    vga_write_string m (p + of_nat i) st = ret (fold vga_write_char (drop i bs) st)"
proof (induction arbitrary: st rule: inc_induct)
  case base
  show ?case using cstringD(3) [OF s] by (subst vga_write_string.simps) simp
next
  case (step i)
  have "vga_write_string m (p + of_nat i) st
      = vga_write_string m (p + of_nat (Suc i)) (vga_write_char (bs ! i) st)"
    using cstringD(1,2) [OF s step(2)] by (subst vga_write_string.simps) (simp add: algebra_simps)
  then show ?case using step by (simp add: Cons_nth_drop_Suc [symmetric])
qed

lemma vga_write_char_correct:
  assumes inv: "vga_inv s"
  obtains s' tr' where "vga_write_char ch (s, tr) = (s', tr')" and "vga_inv s'"
    and "vga_abs s' = scr_char ch (g_current_color s) (vga_abs s)"
    and "g_current_color s' = g_current_color s"
    and "\<And>i. 2000 \<le> i \<Longrightarrow> g_vga_memory s' i = g_vga_memory s i"
    and "ch \<noteq> 10 \<Longrightarrow> hw_cursor tr' = unat (g_row s') * 80 + unat (g_column s')"
proof (cases "ch = 10")
  case True
  have r: "unat (g_row s) < 25" using inv by (simp add: vga_inv_def VGA_HEIGHT_def)
  obtain s' tr' where "vga_newline (s, tr) = (s', tr')" "vga_inv s'"
    "vga_abs s' = scr_newline (vga_entry 32 (g_current_color s)) (vga_abs s)"
    "g_current_color s' = g_current_color s" "\<And>i. 2000 \<le> i \<Longrightarrow> g_vga_memory s' i = g_vga_memory s i"
    by (rule vga_newline_correct [OF r, of tr]) blast
  then show thesis using that [of s' tr'] by (simp add: True vga_write_char_newline scr_char_def)
next
  case False
  show thesis by (rule vga_write_char_put [OF False inv, of tr]) (rule that)
qed

lemma vga_fold_correct:
  assumes "vga_inv s"
  shows "\<exists>s' tr'. fold vga_write_char bs (s, tr) = (s', tr') \<and> vga_inv s' \<and>
    vga_abs s' = fold (\<lambda>ch. scr_char ch (g_current_color s)) bs (vga_abs s) \<and>
    g_current_color s' = g_current_color s \<and> (\<forall>i \<ge> 2000. g_vga_memory s' i = g_vga_memory s i)"
  using assms
proof (induction bs arbitrary: s tr)
  case (Cons ch bs)
  obtain s1 tr1 where s1: "vga_write_char ch (s, tr) = (s1, tr1)" "vga_inv s1"
    "vga_abs s1 = scr_char ch (g_current_color s) (vga_abs s)" "g_current_color s1 = g_current_color s"
    "\<forall>i \<ge> 2000. g_vga_memory s1 i = g_vga_memory s i"
    using vga_write_char_correct [OF Cons.prems] by metis
  show ?case using Cons.IH [OF s1(2), of tr1] s1 by auto
qed simp

section \<open>Cells\<close>

lemma bit_u8_lt: "bit (a :: u8) n \<Longrightarrow> n < 8"
  using bit_imp_le_length [of a n] by simp

lemma bit_vga_entry:
  "bit (vga_entry ch color) n \<longleftrightarrow>
     n < 16 \<and> (if n < 8 then bit ch n else bit ch 7 \<or> bit color (n - 8))"
proof (cases "n = 7")
  case False
  then have "n < 8 \<longleftrightarrow> n < 7" by arith
  then show ?thesis
    by (auto simp: vga_entry_def bit_or_iff bit_push_bit_iff bit_signed_iff bit_unsigned_iff min_def)
qed (simp add: vga_entry_def bit_or_iff bit_push_bit_iff bit_signed_iff bit_unsigned_iff)

lemma bit_7_u8: "bit (ch :: u8) 7 \<longleftrightarrow> 128 \<le> unat ch"
proof -
  have "bit ch 7 \<longleftrightarrow> bit (unat ch) 7" by (simp add: bit_unsigned_iff)
  also have "\<dots> \<longleftrightarrow> odd (unat ch div 128)" by (simp add: bit_iff_odd)
  also have "\<dots> \<longleftrightarrow> 128 \<le> unat ch"
  proof (cases "unat ch < 128")
    case False
    then have "unat ch div 128 = 1" using unat_u8_lt [of ch] by simp
    with False show ?thesis by simp
  qed simp
  finally show ?thesis .
qed

section \<open>Properties\<close>

definition demo_vga :: vga_state where
  "demo_vga = \<lparr>g_vga_memory = (\<lambda>_. 0), g_row = 24, g_column = 79, g_current_color = 7\<rparr>"

lemma demo_vga_inv: "vga_inv demo_vga"
  by (simp add: vga_inv_def demo_vga_def VGA_WIDTH_def VGA_HEIGHT_def)

text \<open>C15. \<open>vga_write_char\<close> implements the screen: a newline or a character in the last column moves
  to the next row and scrolls at the bottom, any other character goes into the cell at the cursor;
  the position stays on the screen, no cell outside the 2000 of the bs buffer is written, and after
  a character other than a newline the hardware cursor stands where the next character will go.\<close>

theorem vga_write_char_refines:
  assumes "vga_inv s"
  shows "\<exists>s' tr'. vga_write_char ch (s, tr) = (s', tr') \<and> vga_inv s' \<and>
    vga_abs s' = scr_char ch (g_current_color s) (vga_abs s) \<and>
    (\<forall>i \<ge> 2000. g_vga_memory s' i = g_vga_memory s i) \<and>
    (ch \<noteq> 10 \<longrightarrow> hw_cursor tr' = unat (g_row s') * 80 + unat (g_column s'))"
  by (rule vga_write_char_correct [OF assms, of ch tr]) blast

theorem vga_write_char_refines_witness:
  "\<exists>s' tr'. vga_write_char 65 (demo_vga, []) = (s', tr') \<and> hw_cursor tr' = 24 * 80 \<and>
     vga_abs s' = scr_char 65 7 (vga_abs demo_vga)"
proof -
  obtain s' tr' where s': "vga_write_char 65 (demo_vga, []) = (s', tr')"
    "vga_abs s' = scr_char 65 7 (vga_abs demo_vga)"
    "hw_cursor tr' = unat (g_row s') * 80 + unat (g_column s')"
    using vga_write_char_refines [OF demo_vga_inv, of 65 "[]"] by (auto simp: demo_vga_def)
  have "unat (g_row s') = 24" "unat (g_column s') = 0"
    using s'(2) by (simp_all add: vga_abs_def scr_char_def scr_put_def scr_newline_def demo_vga_def
        VGA_HEIGHT_def VGA_WIDTH_def Let_def)
  with s' show ?thesis by simp
qed

text \<open>C16. \<open>vga_write_string\<close> ends on every NUL-terminated string and prints its bytes, in order and
  nothing more.\<close>

theorem vga_write_string_prints:
  assumes "vga_inv s" and "cstring m p bs"
  shows "\<exists>s' tr'. vga_write_string m p (s, tr) = ret (s', tr') \<and> vga_inv s' \<and>
    vga_abs s' = fold (\<lambda>ch. scr_char ch (g_current_color s)) bs (vga_abs s)"
  using vga_write_string_fold [OF assms(2), of 0 "(s, tr)"] vga_fold_correct [OF assms(1), of bs tr]
  by auto

theorem vga_write_string_prints_witness:
  "\<exists>s' tr'. vga_write_string (\<lambda>x. if x = 0x2000 then 72 else 0) 0x2000 (demo_vga, []) = ret (s', tr') \<and>
     vga_abs s' = fold (\<lambda>ch. scr_char ch 7) [72] (vga_abs demo_vga)"
proof -
  have "cstring (\<lambda>x. if x = 0x2000 then 72 else 0) 0x2000 [72]"
    by (simp add: cstring_def read_bytes_def)
  from vga_write_string_prints [OF demo_vga_inv this, of "[]"] show ?thesis
    by (auto simp: demo_vga_def)
qed

text \<open>\<open>vga_init\<close> leaves 25 rows of grey-on-black blanks with the cursor, in memory and on the
  display, at the origin, whatever the state before.\<close>

lemma vga_init_blank:
  "\<exists>s' tr'. vga_init (s, tr) = (s', tr') \<and> vga_inv s' \<and>
     vga_abs s' = (replicate 25 (replicate 80 (vga_entry 32 7)), 0, 0) \<and> hw_cursor tr' = 0"
proof -
  let ?c = "vga_set_color VGA_COLOR_LIGHT_GREY VGA_COLOR_BLACK s"
  let ?vm = "fold (\<lambda>index vm. vm(index := vga_entry 32 7)) [0..<2000] (g_vga_memory s)"
  have col: "g_current_color ?c = 7" "g_vga_memory ?c = g_vga_memory s"
    by (simp_all add: vga_set_color_def)
  have "?vm i = (if i < 2000 then vga_entry 32 7 else g_vga_memory s i)" for i
    using fold_fill [of 0 "vga_entry 32 7" 2000 "g_vga_memory s" i] by simp
  then have rows: "vga_rows ?vm = replicate 25 (replicate 80 (vga_entry 32 7))"
    by (auto simp: vga_rows_nth intro!: nth_equalityI)
  have e: "vga_init (s, tr) = vga_set_cursor 0 0 (?c\<lparr>g_vga_memory := ?vm\<rparr>, tr)"
    by (simp add: vga_init_def vga_clear_def col VGA_WIDTH_def VGA_HEIGHT_def)
  show ?thesis
    by (rule vga_set_cursor_correct [of 0 0 "?c\<lparr>g_vga_memory := ?vm\<rparr>" tr])
      (use e rows in \<open>auto simp: vga_inv_def vga_abs_def VGA_WIDTH_def VGA_HEIGHT_def\<close>)
qed

text \<open>\<open>vga_entry\<close> packs the character below and the colour above for the 128 ASCII codes; from
  0x80 on the sign of \<open>char\<close> is extended over the colour byte, which is lost.\<close>

lemma vga_entry_bytes:
  "if unat ch < 128
   then take_bit 8 (vga_entry ch color) = ucast ch \<and> drop_bit 8 (vga_entry ch color) = ucast color
   else drop_bit 8 (vga_entry ch color) = 0xFF"
proof -
  have ff: "0xFF = (mask 8 :: u16)" by (simp add: mask_eq_exp_minus_1)
  have "take_bit 8 (vga_entry ch color) = ucast ch" if "\<not> bit ch 7"
    by (rule bit_word_eqI)
      (use that in \<open>auto simp: bit_take_bit_iff bit_vga_entry bit_unsigned_iff dest: bit_u8_lt\<close>)
  moreover have "drop_bit 8 (vga_entry ch color) = ucast color" if "\<not> bit ch 7"
    by (rule bit_word_eqI)
      (use that in \<open>auto simp: bit_drop_bit_eq bit_vga_entry bit_unsigned_iff dest: bit_u8_lt\<close>)
  moreover have "drop_bit 8 (vga_entry ch color) = mask 8" if "bit ch 7"
    by (rule bit_word_eqI) (use that in \<open>auto simp: bit_drop_bit_eq bit_vga_entry bit_mask_iff\<close>)
  ultimately show ?thesis unfolding ff using bit_7_u8 [of ch] by auto
qed

text \<open>The cursor is on the screen, and nothing but the cells of the screen has been written.\<close>

definition on_screen :: "vga_state \<Rightarrow> vga_state \<Rightarrow> bool" where
  "on_screen s s' \<longleftrightarrow> vga_inv s' \<and> (\<forall>i \<ge> VGA_WIDTH * VGA_HEIGHT. g_vga_memory s' i = g_vga_memory s i)"

lemma on_screen_cursor: "vga_inv s \<Longrightarrow> on_screen s (fst (vga_set_cursor r c (s, tr)))"
  by (simp add: on_screen_def vga_set_cursor_def vga_inv_def Let_def unat_ucast_up)

lemma on_screen_scroll: "vga_inv s \<Longrightarrow> on_screen s (fst (vga_scroll (s, tr)))"
  by (rule vga_scroll_correct [of s tr]) (auto simp: on_screen_def vga_inv_def VGA_WIDTH_def VGA_HEIGHT_def scrolled_def)

lemma fold_other: "i \<notin> set is \<Longrightarrow> fold (\<lambda>index vm. vm(index := x)) is vm i = vm i"
  by (induction "is" arbitrary: vm) auto

lemma on_screen_clear: "vga_inv s \<Longrightarrow> on_screen s (fst (vga_clear (s, tr)))"
proof -
  assume inv: "vga_inv s"
  let ?s = "s\<lparr>g_vga_memory := fold (\<lambda>index vm. vm(index := vga_entry 32 (g_current_color s))) [0..<VGA_WIDTH * VGA_HEIGHT] (g_vga_memory s)\<rparr>"
  have "vga_inv ?s" using inv by (simp add: vga_inv_def)
  from on_screen_cursor [OF this, of 0 0 tr] show ?thesis by (simp add: vga_clear_def on_screen_def fold_other)
qed

lemma on_screen_char: "vga_inv s \<Longrightarrow> on_screen s (fst (vga_write_char ch (s, tr)))"
  by (rule vga_write_char_correct [of s ch tr]) (auto simp: on_screen_def VGA_WIDTH_def VGA_HEIGHT_def)

lemma on_screen_trans: "on_screen s s1 \<Longrightarrow> on_screen s1 s2 \<Longrightarrow> on_screen s s2"
  by (simp add: on_screen_def)

lemma on_screen_string:
  assumes "vga_write_string m p (s, tr) = ret (s', tr')" and "vga_inv s"
  shows "on_screen s s'"
proof -
  from assms(1) have "\<forall>st'. (Inr (s', tr') :: kerror + vga_state \<times> io) = Inr st' \<and> vga_inv (fst (s, tr)) \<longrightarrow> on_screen (fst (s, tr)) (fst st')"
  proof (rule vga_write_string.raw_induct
      [where P = "\<lambda>_ _ st r. \<forall>st'. r = Inr st' \<and> vga_inv (fst st) \<longrightarrow> on_screen (fst st) (fst st')", rotated])
    fix f m d st r
    assume IH: "\<And>m d st r. f m d st = Some r \<Longrightarrow> \<forall>st'. r = Inr st' \<and> vga_inv (fst st) \<longrightarrow> on_screen (fst st) (fst st')"
      and step: "(if m d \<noteq> 0 then f m (d + 1) (vga_write_char (m d) st) else ret st) = Some r"
    show "\<forall>st'. r = Inr st' \<and> vga_inv (fst st) \<longrightarrow> on_screen (fst st) (fst st')"
    proof (intro allI impI)
      fix st' assume h: "r = Inr st' \<and> vga_inv (fst st)"
      show "on_screen (fst st) (fst st')"
      proof (cases "m d = 0")
        case False
        have w: "on_screen (fst st) (fst (vga_write_char (m d) st))" using on_screen_char [of "fst st" "m d" "snd st"] h by simp
        moreover from this have "vga_inv (fst (vga_write_char (m d) st))" by (simp add: on_screen_def)
        ultimately show ?thesis using IH [of m "d + 1" "vga_write_char (m d) st" r] step False h on_screen_trans by auto
      qed (use step h in \<open>auto simp: on_screen_def\<close>)
    qed
  qed
  then show ?thesis using assms(2) by simp
qed

text \<open>
  C40. Whatever the arguments, every operation of the console that returns leaves the cursor inside the
  25 rows and 80 columns and writes no memory but the 2000 cells of the screen; \<open>vga_init\<close> does so from
  any state.
\<close>

theorem vga_operations_stay_on_screen:
  assumes "vga_inv s"
  shows "on_screen s (fst (vga_set_cursor r c (s, tr))) \<and> on_screen s (fst (vga_scroll (s, tr))) \<and>
    on_screen s (fst (vga_clear (s, tr))) \<and> on_screen s (vga_set_color fg bg s) \<and>
    on_screen s (fst (vga_write_char ch (s, tr))) \<and>
    (\<forall>s' tr'. vga_write_string m p (s, tr) = ret (s', tr') \<longrightarrow> on_screen s s') \<and>
    on_screen s0 (fst (vga_init (s0, tr)))"
proof -
  have "on_screen s (vga_set_color fg bg s)" using assms by (simp add: on_screen_def vga_inv_def vga_set_color_def)
  moreover have "on_screen s0 (fst (vga_init (s0, tr)))"
    by (simp add: vga_init_def vga_clear_def on_screen_def vga_set_cursor_def vga_inv_def vga_set_color_def Let_def
        VGA_WIDTH_def VGA_HEIGHT_def fold_other)
  ultimately show ?thesis
    using on_screen_cursor [OF assms] on_screen_scroll [OF assms] on_screen_clear [OF assms] on_screen_char [OF assms]
      on_screen_string [OF _ assms] by blast
qed

theorem vga_operations_stay_on_screen_witness:
  "vga_inv (fst (vga_set_cursor 70 200 (demo_vga, []))) \<and> vga_inv (fst (vga_write_char 9 (demo_vga, [])))"
  using vga_operations_stay_on_screen [OF demo_vga_inv, of 70 200 "[]"] vga_operations_stay_on_screen [OF demo_vga_inv, of 0 0 "[]" _ _ 9]
  by (simp add: on_screen_def)

end
