(* ===== verification/KStdio.thy ===== *)
theory KStdio
  imports KString VGA
begin

text \<open>
  \<^verbatim>\<open>kernel/src/lib/kstdio.c\<close>: the formatted output of the kernel. A \<open>va_list\<close> is the list of
  the 32-bit words that \<open>va_arg\<close> still has to fetch; fetching past its end has no meaning.
  Characters are bytes, and format strings and string arguments live in byte memory.
\<close>

section \<open>Numbers\<close>

text \<open>\<open>if (!r) return false;\<close> before the next write.\<close>

definition cur_seq ::
  "bool \<times> kcursor_t option \<times> mem \<Rightarrow> (kcursor_t option \<Rightarrow> mem \<Rightarrow> bool \<times> kcursor_t option \<times> mem) \<Rightarrow>
   bool \<times> kcursor_t option \<times> mem" where
  "cur_seq r g = (case r of (ok, c, m) \<Rightarrow> if ok then g c m else (False, c, m))"

function dec_divisor :: "u32 \<Rightarrow> u32 \<Rightarrow> u32" where
  "dec_divisor temp divisor =
     (if temp \<ge> 10 then dec_divisor (temp div 10) (divisor * 10) else divisor)"
  by pat_completeness auto
termination
  by (relation "measure (\<lambda>(t, _). unat t)") (auto simp: unat_div word_le_nat_alt)

declare dec_divisor.simps [simp del]

function dec_digits ::
  "kcursor_t option \<Rightarrow> u32 \<Rightarrow> u32 \<Rightarrow> mem \<Rightarrow> bool \<times> kcursor_t option \<times> mem" where
  "dec_digits cursor v divisor m =
     (if divisor \<noteq> 0
      then
        let digit = v div divisor;
            digit_char = ucast (of_char CHR ''0'' + digit)
        in cur_seq (kcursor_write_byte cursor digit_char m)
             (\<lambda>cursor m. dec_digits cursor (v mod divisor) (divisor div 10) m)
      else (True, cursor, m))"
  by pat_completeness auto
termination
  by (relation "measure (\<lambda>(_, _, d, _). unat d)") (auto simp: unat_div unat_gt_0)

declare dec_digits.simps [simp del]

definition write_u32_dec :: "kcursor_t option \<Rightarrow> u32 \<Rightarrow> mem \<Rightarrow> bool \<times> kcursor_t option \<times> mem" where
  "write_u32_dec cursor v m =
     (if cursor = None then (False, cursor, m)
      else dec_digits cursor v (dec_divisor v 1) m)"

definition write_i32_dec :: "kcursor_t option \<Rightarrow> u32 \<Rightarrow> mem \<Rightarrow> bool \<times> kcursor_t option \<times> mem" where
  "write_i32_dec cursor v m =
     (if cursor = None then (False, cursor, m)
      else if sint v < 0
      then cur_seq (kcursor_write_byte cursor (of_char CHR ''-'') m)
             (\<lambda>cursor m. write_u32_dec cursor (0 - v) m)
      else write_u32_dec cursor v m)"

definition HEX_DIGITS_UPPER :: string where
  "HEX_DIGITS_UPPER = ''0123456789ABCDEF''"

definition HEX_DIGITS_LOWER :: string where
  "HEX_DIGITS_LOWER = ''0123456789abcdef''"

fun hex_nibbles_loop ::
  "kcursor_t option \<Rightarrow> u32 \<Rightarrow> string \<Rightarrow> nat \<Rightarrow> mem \<Rightarrow> bool \<times> kcursor_t option \<times> mem" where
  "hex_nibbles_loop cursor v hex_digits 0 m = (True, cursor, m)"
| "hex_nibbles_loop cursor v hex_digits (Suc n) m =
     (let digit = drop_bit (4 * n) v AND 0xF
      in cur_seq (kcursor_write_byte cursor (of_char (hex_digits ! unat digit)) m)
           (\<lambda>cursor m. hex_nibbles_loop cursor v hex_digits n m))"

definition write_hex_nibbles ::
  "kcursor_t option \<Rightarrow> u32 \<Rightarrow> nat \<Rightarrow> bool \<Rightarrow> bool \<Rightarrow> mem \<Rightarrow> bool \<times> kcursor_t option \<times> mem" where
  "write_hex_nibbles cursor v nibbles uppercase alternate_form m =
     (if cursor = None then (False, cursor, m)
      else
        let digits = (\<lambda>cursor m. hex_nibbles_loop cursor v
              (if uppercase then HEX_DIGITS_UPPER else HEX_DIGITS_LOWER) nibbles m)
        in if alternate_form
           then cur_seq (kcursor_write_byte cursor (of_char CHR ''0'') m) (\<lambda>cursor m.
                cur_seq (kcursor_write_byte cursor
                           (of_char (if uppercase then CHR ''X'' else CHR ''x'')) m) digits)
           else digits cursor m)"

function hex_digit_count :: "u32 \<Rightarrow> nat" where
  "hex_digit_count v =
     (let v' = drop_bit 4 v in if v' \<noteq> 0 then Suc (hex_digit_count v') else 1)"
  by pat_completeness auto
termination
proof (relation "measure unat", goal_cases)
  case (2 v v')
  then have "unat v div 16 \<noteq> 0" by (auto simp: drop_bit_eq_div word_unat_eq_iff unat_div)
  then show ?case using 2 by (simp add: drop_bit_eq_div unat_div)
qed simp

declare hex_digit_count.simps [simp del]

definition write_u32_hex ::
  "kcursor_t option \<Rightarrow> u32 \<Rightarrow> bool \<Rightarrow> bool \<Rightarrow> mem \<Rightarrow> bool \<times> kcursor_t option \<times> mem" where
  "write_u32_hex cursor v uppercase alternate_form m =
     write_hex_nibbles cursor v (hex_digit_count v) uppercase alternate_form m"

definition write_pointer :: "kcursor_t option \<Rightarrow> u32 \<Rightarrow> mem \<Rightarrow> bool \<times> kcursor_t option \<times> mem" where
  "write_pointer cursor v m = write_hex_nibbles cursor v 8 False True m"

section \<open>Formats\<close>

definition va_arg :: "u32 list \<Rightarrow> (u32 \<times> u32 list) res" where
  "va_arg args = (case args of [] \<Rightarrow> undef ''va_arg'' | v # rest \<Rightarrow> ret (v, rest))"

text \<open>
  One specifier character, from the chain of comparisons in \<open>kvsnprintf\<close>. The boolean says whether
  the loop goes on; \<open>null_lit\<close> is the address of the literal printed for a NULL string.
\<close>

definition fmt_spec ::
  "u32 \<Rightarrow> u8 \<Rightarrow> bool \<Rightarrow> kcursor_t option \<Rightarrow> u32 list \<Rightarrow> mem \<Rightarrow>
   ((bool \<times> kcursor_t option \<times> mem) \<times> u32 list) res" where
  "fmt_spec null_lit cur alternate_form cursor args m =
     (if cur = of_char CHR ''d'' \<or> cur = of_char CHR ''i''
      then bindR (va_arg args) (\<lambda>(v, args). ret (write_i32_dec cursor v m, args))
      else if cur = of_char CHR ''u''
      then bindR (va_arg args) (\<lambda>(v, args). ret (write_u32_dec cursor v m, args))
      else if cur = of_char CHR ''x'' \<or> cur = of_char CHR ''X''
      then bindR (va_arg args) (\<lambda>(v, args).
             ret (write_u32_hex cursor v (cur = of_char CHR ''X'') alternate_form m, args))
      else if cur = of_char CHR ''p''
      then bindR (va_arg args) (\<lambda>(v, args). ret (write_pointer cursor v m, args))
      else if cur = of_char CHR ''s''
      then bindR (va_arg args) (\<lambda>(v, args).
             let v = (if v = NULL then null_lit else v)
             in bindR (kstrlen v m) (\<lambda>len. ret (kcursor_write cursor v len m, args)))
      else if cur = of_char CHR ''c''
      then bindR (va_arg args) (\<lambda>(v, args). ret (kcursor_write_byte cursor (ucast v) m, args))
      else if cur = of_char CHR ''%''
      then ret (kcursor_write_byte cursor (of_char CHR ''%'') m, args)
      else ret (cur_seq (kcursor_write_byte cursor (of_char CHR ''%'') m)
                  (\<lambda>cursor m. kcursor_write_byte cursor cur m), args))"

partial_function (option) kvsnprintf_loop ::
  "u32 \<Rightarrow> u32 \<Rightarrow> u32 \<Rightarrow> u32 \<Rightarrow> kcursor_t option \<Rightarrow> u32 list \<Rightarrow> mem \<Rightarrow> (kcursor_t option \<times> mem) res" where
  "kvsnprintf_loop null_lit fmt format_length index cursor args m =
     (if index < format_length
      then
        let cur = m (fmt + index)
        in if cur \<noteq> of_char CHR ''%''
           then
             (case kcursor_write_byte cursor cur m of (ok, cursor, m) \<Rightarrow>
                if ok then kvsnprintf_loop null_lit fmt format_length (index + 1) cursor args m
                else ret (cursor, m))
           else
             let index = index + 1;
                 cur = m (fmt + index)
             in if cur = 0 then ret (cursor, m)
                else
                  let alternate_form = (cur = of_char CHR ''#'');
                      index = (if alternate_form then index + 1 else index);
                      cur = m (fmt + index)
                  in if cur = 0 then ret (cursor, m)
                     else
                       (case fmt_spec null_lit cur alternate_form cursor args m of
                          None \<Rightarrow> None
                        | Some (Inl e) \<Rightarrow> Some (Inl e)
                        | Some (Inr ((ok, cursor, m), args)) \<Rightarrow>
                            if ok then kvsnprintf_loop null_lit fmt format_length (index + 1) cursor args m
                            else ret (cursor, m))
      else ret (cursor, m))"

declare kvsnprintf_loop.simps [code]

definition kvsnprintf :: "u32 \<Rightarrow> u32 \<Rightarrow> u32 \<Rightarrow> u32 \<Rightarrow> u32 list \<Rightarrow> mem \<Rightarrow> (u32 \<times> mem) res" where
  "kvsnprintf null_lit buf sz fmt args m =
     (if buf = NULL \<or> fmt = NULL \<or> sz = 0 then ret (0, m)
      else
        case kcursor_init (Some \<lparr>start = 0, current = 0, cend = 0\<rparr>) buf (sz - 1) of
          (ok, cursor) \<Rightarrow>
            if \<not> ok then ret (0, m)
            else
              bindR (kstrlen fmt m) (\<lambda>format_length.
              bindR (kvsnprintf_loop null_lit fmt format_length 0 cursor args m) (\<lambda>(cursor, m).
                let written = kcursor_written cursor
                in ret (written + 1, m(buf + written := 0)))))"

definition ksnprintf :: "u32 \<Rightarrow> u32 \<Rightarrow> u32 \<Rightarrow> u32 \<Rightarrow> u32 list \<Rightarrow> mem \<Rightarrow> (u32 \<times> mem) res" where
  "ksnprintf null_lit buf sz fmt args m = kvsnprintf null_lit buf sz fmt args m"

text \<open>\<open>stack_buf\<close> is the address of the local array of 256 characters.\<close>

definition kvprintf ::
  "u32 \<Rightarrow> u32 \<Rightarrow> u32 \<Rightarrow> u32 list \<Rightarrow> mem \<Rightarrow> vga_state \<times> io \<Rightarrow> (u32 \<times> mem \<times> vga_state \<times> io) res" where
  "kvprintf null_lit stack_buf fmt args m st =
     bindR (kvsnprintf null_lit stack_buf 256 fmt args m) (\<lambda>(written, m).
       if written \<noteq> 0
       then bindR (vga_write_string m stack_buf st) (\<lambda>st. ret (written, m, st))
       else ret (written, m, st))"

definition kprintf ::
  "u32 \<Rightarrow> u32 \<Rightarrow> u32 \<Rightarrow> u32 list \<Rightarrow> mem \<Rightarrow> vga_state \<times> io \<Rightarrow> (u32 \<times> mem \<times> vga_state \<times> io) res" where
  "kprintf null_lit stack_buf fmt args m st = kvprintf null_lit stack_buf fmt args m st"

section \<open>Literals\<close>

text \<open>
  A call of \<open>kprintf\<close> with a literal format whose result is ignored: \<open>lit f\<close> is the address of
  the string literal \<open>f\<close>, \<open>stack_buf\<close> that of the buffer of \<open>kvprintf\<close>.
\<close>

type_synonym console = "mem \<times> vga_state \<times> io"

definition print :: "(string \<Rightarrow> u32) \<Rightarrow> u32 \<Rightarrow> string \<Rightarrow> u32 list \<Rightarrow> console \<Rightarrow> console res" where
  "print lit stack_buf fmt args = (\<lambda>(m, st).
     bindR (kprintf (lit ''NULL'') stack_buf (lit fmt) args m st) (\<lambda>(_, m, st). ret (m, st)))"

end
