(* ===== verification/KStdio_Props.thy ===== *)
theory KStdio_Props
  imports KStdio_Correct
begin

text \<open>
  The properties of the formatted output of \<^verbatim>\<open>kstdio.c\<close> and of the cursor below it.
\<close>

section \<open>Lengths of numbers\<close>

lemma length_digits_from [simp]: "length (digits_from j v) = Suc j"
  by (induction j v rule: digits_from.induct) auto

lemma length_dec_u32: "length (dec (unat (v :: u32))) \<le> 10"
proof -
  have "exp10 (unat v) < 10"
  proof (rule ccontr)
    assume n: "\<not> exp10 (unat v) < 10"
    then have "(10 :: nat) ^ 10 \<le> 10 ^ exp10 (unat v)" by (intro power_increasing) simp_all
    moreover have "10 ^ exp10 (unat v) \<le> unat v" using exp10_bounds [of "unat v"] n by auto
    ultimately show False using unat_u32_lt [of v] by simp
  qed
  then show ?thesis by (simp add: dec_eq_digits)
qed

lemma length_hexn [simp]: "length (hexn ds n v) = n"
  by (induction n) auto

lemma hex_digit_count_le: "hex_digit_count v \<le> 8"
proof (rule ccontr)
  assume n: "\<not> ?thesis"
  then have "(16 :: nat) ^ 8 \<le> 16 ^ (hex_digit_count v - 1)" by (intro power_increasing) simp_all
  moreover have "16 ^ (hex_digit_count v - 1) \<le> unat v" using hex_digit_count_bounds [of v] n by auto
  ultimately show False using unat_u32_lt [of v] by simp
qed

lemma cur_emit_text:
  assumes "cur_inv c" and "cur_emit (singly xs) c m r" and "length xs \<le> cur_room c"
  shows "\<exists>c' m'. r = (True, Some c', m') \<and> cur_text c' m' = cur_text c m @ xs"
  using assms cur_extends_text [OF assms(1)] by (auto simp: cur_emit_def fitting_singly)

text \<open>Putting the NUL behind the bytes written.\<close>

lemma terminated_bytes:
  assumes "read_bytes m p (length w) = w" and "length w < 4294967296"
  shows "read_bytes (m(p + of_nat (length w) := 0)) p (Suc (length w)) = w @ [0]"
proof -
  let ?m = "m(p + of_nat (length w) := 0)"
  have "p + of_nat i \<noteq> p + of_nat (length w)" if "i < length w" for i
    using that assms(2) unat_of_nat_u32 [of i] unat_of_nat_u32 [of "length w"] by auto
  then have "read_bytes ?m p (length w) = w" using assms(1) read_bytes_cong [of "length w" ?m p m] by simp
  then show ?thesis using read_bytes_append [of ?m p "length w" 1] by (simp add: read_bytes_def)
qed

lemma terminated_outside:
  assumes "\<forall>x. \<not> in_range p (length w) x \<longrightarrow> m x = m0 x" and "length w < n" and "n \<le> 4294967296"
    and "\<not> in_range p n x"
  shows "(m(p + of_nat (length w) := 0)) x = m0 x"
proof -
  have "x \<noteq> p + of_nat (length w)" using assms(4) in_range_offset [OF assms(2,3), of p] by auto
  moreover have "\<not> in_range p (length w) x" using assms(2,4) by (simp add: in_range_def)
  ultimately show ?thesis using assms(1) by simp
qed

section \<open>Properties\<close>


definition demo_fmt_mem :: mem where
  "demo_fmt_mem = (\<lambda>x. if x = 0x3000 then 37 else if x = 0x3001 then 117 else 0)"




text \<open>\<open>write_i32_dec\<close> with eleven bytes of room appends an optional minus sign and the
  decimal numeral of the magnitude, also for the least integer, whose negation does not fit.\<close>

lemma write_i32_dec_roundtrip:
  assumes "cur_inv c" and "11 \<le> cur_room c"
  shows "\<exists>c' m' ds. write_i32_dec (Some c) v m = (True, Some c', m') \<and>
    cur_text c' m' = cur_text c m @ (if sint v < 0 then 45 # ds else ds) \<and>
    int (dec_value ds) = \<bar>sint v\<bar>"
proof -
  define ds where "ds = dec (nat \<bar>sint v\<bar>)"
  have i: "int_dec (sint v) = (if sint v < 0 then 45 # ds else ds)" by (simp add: int_dec_def ds_def)
  have "nat \<bar>sint v\<bar> = (if sint v < 0 then unat (0 - v) else unat v)"
    using unat_of_sint [of v] by auto
  then have "length ds \<le> 10"
    using length_dec_u32 [of v] length_dec_u32 [of "0 - v"] unfolding ds_def
    by (cases "sint v < 0") (simp_all only: if_True if_False)
  then have "length (int_dec (sint v)) \<le> cur_room c" unfolding i using assms(2) by simp
  then show ?thesis
    using cur_emit_text [OF assms(1) write_i32_dec_correct [OF assms(1)], of v m] i
      dec_value_dec [of "nat \<bar>sint v\<bar>"] by (fastforce simp: ds_def)
qed

text \<open>\<open>write_u32_hex\<close> writes at most eight digits, no leading zero but for 0 itself, whose
  value is the argument, after \<open>0x\<close> or \<open>0X\<close> in the alternate form.\<close>

lemma write_u32_hex_roundtrip:
  assumes "cur_inv c" and "10 \<le> cur_room c"
  shows "\<exists>c' m' ds. write_u32_hex (Some c) v up alt m = (True, Some c', m') \<and>
    cur_text c' m' = cur_text c m @ (if alt then [48, if up then 88 else 120] else []) @ ds \<and>
    hex_value ds = unat v \<and> length ds \<le> 8 \<and> (unat v < 16 ^ (length ds - 1) \<longrightarrow> v = 0)"
proof -
  let ?n = "hex_digit_count v"
  let ?ds = "hexn (hex_digits up) ?n (unat v)"
  have t: "hex_text up alt ?n (unat v) = (if alt then [48, if up then 88 else 120] else []) @ ?ds"
    by (simp add: hex_text_def)
  then have "length (hex_text up alt ?n (unat v)) \<le> cur_room c"
    using hex_digit_count_le [of v] assms(2) by simp
  then have "\<exists>c' m'. write_u32_hex (Some c) v up alt m = (True, Some c', m') \<and>
      cur_text c' m' = cur_text c m @ hex_text up alt ?n (unat v)"
    using cur_emit_text [OF assms(1) write_hex_nibbles_correct [OF assms(1)]] by (simp add: write_u32_hex_def)
  moreover have "hex_value ?ds = unat v" using hex_digit_count_bounds [of v] by (simp add: hex_value_hexn)
  moreover have "unat v < 16 ^ (?n - 1) \<longrightarrow> v = 0"
    using hex_digit_count_bounds [of v] by (auto simp: unat_eq_0)
  ultimately show ?thesis using t hex_digit_count_le [of v] by (metis length_hexn)
qed

lemma kvsnprintf_text:
  assumes "buf \<noteq> NULL" and "2 \<le> unat sz" and "unat buf + unat sz \<le> 4294967296"
    and "reads_ok m buf (unat sz - 1) S" and "reads_ok m buf (unat sz - 1) [fmt \<mapsto> fm]"
    and "chunks S null_lit fm args = Some ps"
  shows "\<exists>n m'. kvsnprintf null_lit buf sz fmt args m = ret (n, m') \<and>
    unat n = Suc (length (fitting (unat sz - 1) ps)) \<and> unat n \<le> unat sz \<and>
    read_bytes m' buf (unat n) = fitting (unat sz - 1) ps @ [0] \<and>
    (\<forall>x. \<not> in_range buf (unat sz) x \<longrightarrow> m' x = m x)"
proof -
  have fmt: "fmt \<noteq> NULL" "cstring m fmt fm" using assms(5) by (simp_all add: reads_ok_def)
  have sz1: "unat (sz - 1) = unat sz - 1" using assms(2) by (subst unat_sub_nowrap) simp_all
  then have rng: "0 < unat (sz - 1)" "unat buf + unat (sz - 1) < 4294967296" using assms(2,3) by simp_all
  obtain c where c: "kcursor_init (Some \<lparr>start = 0, current = 0, cend = 0\<rparr>) buf (sz - 1) = (True, Some c)"
    "cur_inv c" "start c = buf" "current c = buf" "cur_room c = unat sz - 1"
    using kcursor_init_correct [OF assms(1) rng] sz1 by metis
  have win: "unat (cend c) - unat (start c) = unat sz - 1" using c by (simp add: cur_room_def)
  have "\<exists>c' m'. kvsnprintf_loop null_lit fmt (of_nat (length fm)) (of_nat 0) (Some c) args m =
      ret (Some c', m') \<and> cur_extends (fitting (cur_room c) ps) c m c' m'"
    by (rule kvsnprintf_loop_correct [OF c(2)]) (use assms(4-6) c(3) win in simp_all)
  then obtain c' m' where l: "kvsnprintf_loop null_lit fmt (of_nat (length fm)) 0 (Some c) args m = ret (Some c', m')"
    and e: "cur_extends (fitting (unat sz - 1) ps) c m c' m'"
    by (auto simp: c(5))
  let ?w = "fitting (unat sz - 1) ps" and ?m = "m'(buf + kcursor_written (Some c') := 0)"
  have "cur_text c' m' = ?w" using cur_extends_text [OF c(2) e] c(3,4) by (simp add: cur_text_def [of c] read_bytes_def)
  then have w: "unat (kcursor_written (Some c')) = length ?w"
    using cur_bounds(4) [OF cur_extends_inv [OF e], of m'] by simp
  have le: "length ?w \<le> unat sz - 1" using e c(5) by (simp add: cur_extends_def)
  have n: "unat (kcursor_written (Some c') + 1) = Suc (length ?w)"
    using le w unat_u32_lt [of sz] assms(2) by (subst unat_add_nowrap) simp_all
  have at: "buf + kcursor_written (Some c') = buf + of_nat (length ?w)"
    using w by (metis of_nat_unat ucast_id)
  have "kvsnprintf null_lit buf sz fmt args m = ret (kcursor_written (Some c') + 1, ?m)"
    using assms(1,2) fmt c(1) l kstrlen_correct [OF fmt(2)] by (auto simp: kvsnprintf_def Let_def)
  moreover have "read_bytes ?m buf (Suc (length ?w)) = ?w @ [0]"
    using terminated_bytes [of m' buf ?w] e c(4) le unat_u32_lt [of sz] at by (simp add: cur_extends_def)
  moreover have "?m x = m x" if "\<not> in_range buf (unat sz) x" for x
    using terminated_outside [of buf ?w m' m "unat sz" x] that e c(4) le assms(2) unat_u32_lt [of sz] at
    by (simp add: cur_extends_def)
  ultimately show ?thesis using n le assms(2)
    by (intro exI [of _ "kcursor_written (Some c') + 1"] exI [of _ ?m]) auto
qed

text \<open>Bytes that contain a NUL hold the string up to the first one.\<close>

lemma cstring_takeWhile:
  assumes "read_bytes m p n = xs" and "0 \<in> set xs" and "n < 4294967296"
  shows "cstring m p (takeWhile (\<lambda>c. c \<noteq> 0) xs)"
proof -
  let ?s = "takeWhile (\<lambda>c. c \<noteq> 0) xs"
  have n: "n = length xs" using assms(1) length_read_bytes [of m p n] by simp
  have b: "m (p + of_nat i) = xs ! i" if "i < length xs" for i
    using nth_read_bytes [of i n m p, unfolded assms(1)] that n by simp
  have l: "length ?s < length xs" 
  proof -
    have "?s \<noteq> xs" using assms(2) by (auto simp: takeWhile_eq_all_conv)
    then show ?thesis using takeWhile_eq_take [of "\<lambda>c. c \<noteq> 0" xs] length_takeWhile_le [of "\<lambda>c. c \<noteq> 0" xs]
      by (metis le_neq_implies_less take_all_iff order_refl)
  qed
  have "read_bytes m p (length ?s) = ?s"
    using b l by (intro nth_equalityI) (auto simp: takeWhile_nth)
  moreover have "m (p + of_nat (length ?s)) = 0" using b [OF l] nth_length_takeWhile [OF l] by simp
  moreover have "0 \<notin> set ?s" by (auto dest: set_takeWhileD)
  ultimately show ?thesis using l n assms(3) by (simp add: cstring_def)
qed

text \<open>
  \<open>kvprintf\<close> returns whatever the length of the text: it prints the part that fits in its buffer, up
  to the first NUL, and changes no memory outside the buffer.
\<close>

lemma kvprintf_text:
  assumes "vga_inv s" and "stack_buf \<noteq> NULL" and "unat stack_buf + 256 \<le> 4294967296"
    and "reads_ok m stack_buf 255 S" and "reads_ok m stack_buf 255 [fmt \<mapsto> fm]"
    and "render S null_lit fm args = Some out"
  shows "\<exists>n m' s' tr' t. kvprintf null_lit stack_buf fmt args m (s, tr) = ret (n, m', s', tr') \<and>
    unat n = Suc (length t) \<and> (length out < 256 \<longrightarrow> t = out) \<and> vga_inv s' \<and>
    vga_abs s' = fold (\<lambda>ch. scr_char ch (g_current_color s)) (takeWhile (\<lambda>c. c \<noteq> 0) t) (vga_abs s) \<and>
    g_current_color s' = g_current_color s \<and> (\<forall>x. \<not> in_range stack_buf 256 x \<longrightarrow> m' x = m x)"
proof -
  obtain ps where ps: "chunks S null_lit fm args = Some ps" "out = concat ps"
    using assms(6) by (auto simp: render_def)
  define t where "t = fitting 255 ps"
  have fits: "length out < 256 \<longrightarrow> t = out" by (simp add: t_def ps(2) fitting_all)
  obtain n m' where k: "kvsnprintf null_lit stack_buf 256 fmt args m = ret (n, m')"
    "unat n = Suc (length t)" "unat n \<le> 256"
    "read_bytes m' stack_buf (unat n) = t @ [0]" "\<forall>x. \<not> in_range stack_buf 256 x \<longrightarrow> m' x = m x"
    using kvsnprintf_text [OF assms(2) _ _ _ _ ps(1), of 256 m fmt] assms(3-5) by (auto simp: t_def)
  let ?t = "takeWhile (\<lambda>c. c \<noteq> 0) (t @ [0])"
  have t: "?t = takeWhile (\<lambda>c. c \<noteq> 0) t"
    by (induction t) simp_all
  have "cstring m' stack_buf ?t" by (rule cstring_takeWhile [OF k(4)]) (use k(2,3) in simp_all)
  then have "vga_write_string m' stack_buf (s, tr) = ret (fold vga_write_char ?t (s, tr))"
    using vga_write_string_fold [of m' stack_buf ?t 0 "(s, tr)"] by simp
  moreover have "n \<noteq> 0" using k(2) by auto
  ultimately show ?thesis
    using vga_fold_correct [OF assms(1), of ?t tr] k fits unfolding kvprintf_def t by auto
qed

lemma kvprintf_text_fits:
  assumes "vga_inv s" and "stack_buf \<noteq> NULL" and "unat stack_buf + 256 \<le> 4294967296"
    and "reads_ok m stack_buf 255 S" and "reads_ok m stack_buf 255 [fmt \<mapsto> fm]"
    and "render S null_lit fm args = Some out" and "length out < 256" and "0 \<notin> set out"
  shows "\<exists>n m' s' tr'. kvprintf null_lit stack_buf fmt args m (s, tr) = ret (n, m', s', tr') \<and>
    unat n = Suc (length out) \<and> vga_inv s' \<and>
    vga_abs s' = fold (\<lambda>ch. scr_char ch (g_current_color s)) out (vga_abs s) \<and>
    g_current_color s' = g_current_color s \<and> (\<forall>x. \<not> in_range stack_buf 256 x \<longrightarrow> m' x = m x)"
proof -
  have t: "takeWhile (\<lambda>c. c \<noteq> 0) out = out" using assms(8) by (auto simp: takeWhile_eq_all_conv)
  obtain n m' s' tr' where
    "kvprintf null_lit stack_buf fmt args m (s, tr) = ret (n, m', s', tr')"
    "unat n = Suc (length out)" "vga_inv s'"
    "vga_abs s' = fold (\<lambda>ch. scr_char ch (g_current_color s)) (takeWhile (\<lambda>c. c \<noteq> 0) out) (vga_abs s)"
    "g_current_color s' = g_current_color s" "\<forall>x. \<not> in_range stack_buf 256 x \<longrightarrow> m' x = m x"
    using kvprintf_text [OF assms(1-6), of tr] assms(7) by blast
  then show ?thesis using t by (simp del: takeWhile_eq_all_conv)
qed

text \<open>C12. \<open>kvsnprintf\<close> returns for every format and buffer that do not overlap. Unless the buffer
  is NULL or shorter than two bytes, it stores exactly the pieces of the text that fit in \<open>size - 1\<close>
  bytes, up to the first that does not (a string argument is one piece, everything else goes byte by
  byte), and a NUL behind them; it writes no byte outside the buffer and returns the length of what
  it stored, NUL included. The text is complete whenever it is shorter than the buffer. Without a
  buffer, or with one of at most one byte, it returns 0 and stores nothing, not even the NUL.\<close>

theorem kvsnprintf_renders:
  assumes "unat buf + unat sz \<le> 4294967296"
    and "reads_ok m buf (unat sz - 1) S" and "reads_ok m buf (unat sz - 1) [fmt \<mapsto> fm]"
    and "chunks S null_lit fm args = Some ps"
  shows "\<exists>n m'. kvsnprintf null_lit buf sz fmt args m = ret (n, m') \<and>
    (if buf = NULL \<or> unat sz < 2 then n = 0 \<and> m' = m
     else unat n = Suc (length (fitting (unat sz - 1) ps)) \<and> unat n \<le> unat sz \<and>
       read_bytes m' buf (unat n) = fitting (unat sz - 1) ps @ [0] \<and>
       (length (concat ps) < unat sz \<longrightarrow> fitting (unat sz - 1) ps = concat ps) \<and>
       (\<forall>x. \<not> in_range buf (unat sz) x \<longrightarrow> m' x = m x))"
proof (cases "buf = NULL \<or> unat sz < 2")
  case True
  have "sz = 0 \<or> sz = 1" if "unat sz < 2" using that by (auto simp: word_unat_eq_iff)
  then have "kvsnprintf null_lit buf sz fmt args m = ret (0, m)"
    using True by (auto simp: kvsnprintf_def kcursor_init_def)
  with True show ?thesis by simp
next
  case False
  then have sz: "buf \<noteq> NULL" "2 \<le> unat sz" by simp_all
  have "fitting (unat sz - 1) ps = concat ps" if "length (concat ps) < unat sz"
    by (rule fitting_all) (use that in simp)
  with kvsnprintf_text [OF sz assms] False show ?thesis by auto
qed

lemma demo_fmt_reads:
  "reads_ok demo_fmt_mem 0x1000 15 [0x3000 \<mapsto> [37, 117]]" "reads_ok demo_fmt_mem 0x1000 15 (\<lambda>_. None)"
proof -
  have "disjoint_ranges 0x1000 15 0x3000 3" by (rule disjoint_rangesI) simp_all
  then show "reads_ok demo_fmt_mem 0x1000 15 [0x3000 \<mapsto> [37, 117]]"
    by (simp add: reads_ok_def cstring_def read_bytes_def demo_fmt_mem_def upt_rec numeral_3_eq_3)
qed (simp add: reads_ok_def)

lemma demo_fmt_chunks: "chunks (\<lambda>_. None) 0x4000 [37, 117] [42] = Some [[52], [50]]"
  and demo_fmt_text: "render (\<lambda>_. None) 0x4000 [37, 117] [42] = Some [52, 50]"
  by (simp_all add: pieces_def conv_def dec.simps)

text \<open>The text in a buffer of sixteen bytes, its first digit in one of two, and nothing in one of one.\<close>

theorem kvsnprintf_renders_witness:
  "(\<exists>n m'. kvsnprintf 0x4000 0x1000 16 0x3000 [42] demo_fmt_mem = ret (n, m') \<and> unat n = 3 \<and>
     read_bytes m' 0x1000 3 = [52, 50, 0]) \<and>
   (\<exists>n m'. kvsnprintf 0x4000 0x1000 2 0x3000 [42] demo_fmt_mem = ret (n, m') \<and> unat n = 2 \<and>
     read_bytes m' 0x1000 2 = [52, 0]) \<and>
   kvsnprintf 0x4000 0x1000 1 0x3000 [42] demo_fmt_mem = ret (0, demo_fmt_mem)"
proof -
  have r: "reads_ok demo_fmt_mem 0x1000 k [0x3000 \<mapsto> [37, 117]]" "reads_ok demo_fmt_mem 0x1000 k (\<lambda>_. None)"
    if "k \<le> 15" for k
    by (rule reads_ok_weaken [OF demo_fmt_reads(1) that], assumption)
      (rule reads_ok_weaken [OF demo_fmt_reads(2) that], assumption)
  have fit: "\<exists>n m'. kvsnprintf 0x4000 0x1000 sz 0x3000 [42] demo_fmt_mem = ret (n, m') \<and>
      unat n = Suc (length (fitting (unat sz - 1) [[52 :: u8], [50]])) \<and>
      read_bytes m' 0x1000 (unat n) = fitting (unat sz - 1) [[52], [50]] @ [0]"
    if "2 \<le> unat sz" "unat sz \<le> 16" for sz
  proof -
    have "unat sz - 1 \<le> 15" using that(2) by simp
    then show ?thesis
      using kvsnprintf_renders [OF _ r(2) r(1) demo_fmt_chunks, of sz] that by auto
  qed
  have f: "fitting 15 [[52 :: u8], [50]] = [52, 50]" "fitting 1 [[52 :: u8], [50]] = [52]" by simp_all
  have n: "length [52 :: u8, 50] = 2" "length [52 :: u8] = 1" "[52 :: u8, 50] @ [0] = [52, 50, 0]" "Suc 2 = 3" "Suc 1 = 2"
    "unat (16 :: u32) - 1 = 15" "unat (2 :: u32) - 1 = 1" by simp_all
  obtain n m' where a: "kvsnprintf 0x4000 0x1000 16 0x3000 [42] demo_fmt_mem = ret (n, m')" "unat n = 3"
    "read_bytes m' 0x1000 (unat n) = [52, 50, 0]" using fit [of 16, unfolded n f] by auto
  obtain n2 m2 where b: "kvsnprintf 0x4000 0x1000 2 0x3000 [42] demo_fmt_mem = ret (n2, m2)" "unat n2 = 2"
    "read_bytes m2 0x1000 (unat n2) = [52, 0]" using fit [of 2, unfolded n f] by auto
  have "kvsnprintf 0x4000 0x1000 1 0x3000 [42] demo_fmt_mem = ret (0, demo_fmt_mem)"
    using kvsnprintf_renders [OF _ r(2,1) demo_fmt_chunks, of 1] by simp
  then show ?thesis using a(1,2) a(3) [unfolded a(2)] b(1,2) b(3) [unfolded b(2)] by blast
qed

text \<open>C13. \<open>kprintf\<close> prints on the console exactly the text the format denotes, whenever that text has
  no NUL and fits in the 255 bytes of its buffer.\<close>

theorem kprintf_prints:
  assumes "vga_inv s" and "stack_buf \<noteq> NULL" and "unat stack_buf + 256 \<le> 4294967296"
    and "reads_ok m stack_buf 255 S" and "reads_ok m stack_buf 255 [fmt \<mapsto> fm]"
    and "render S null_lit fm args = Some out" and "length out < 256" and "0 \<notin> set out"
  shows "\<exists>n m' s' tr'. kprintf null_lit stack_buf fmt args m (s, tr) = ret (n, m', s', tr') \<and>
    unat n = Suc (length out) \<and> vga_inv s' \<and>
    vga_abs s' = fold (\<lambda>ch. scr_char ch (g_current_color s)) out (vga_abs s)"
  using kvprintf_text_fits [OF assms, of tr] by (auto simp: kprintf_def)

theorem kprintf_prints_witness:
  "\<exists>n m' s' tr'. kprintf 0x4000 0x1000 0x3000 [42] demo_fmt_mem (demo_vga, []) = ret (n, m', s', tr') \<and>
     vga_abs s' = fold (\<lambda>ch. scr_char ch 7) [52, 50] (vga_abs demo_vga)"
proof -
  have "disjoint_ranges 0x1000 255 0x3000 3" by (rule disjoint_rangesI) simp_all
  then have "reads_ok demo_fmt_mem 0x1000 255 [0x3000 \<mapsto> [37, 117]]"
    by (simp add: reads_ok_def cstring_def read_bytes_def demo_fmt_mem_def upt_rec numeral_3_eq_3)
  moreover have "reads_ok demo_fmt_mem 0x1000 255 (\<lambda>_. None)" by (simp add: reads_ok_def)
  ultimately show ?thesis
    using kprintf_prints [OF demo_vga_inv, of "0x1000" demo_fmt_mem "\<lambda>_. None" "0x3000" "[37, 117]" "0x4000" "[42]" "[52, 50]"]
      demo_fmt_text by (fastforce simp: demo_vga_def)
qed

end
