(* ===== verification/Descriptors.thy ===== *)
theory Descriptors
  imports Prelude
begin

text \<open>
  The segment descriptors of \<^verbatim>\<open>kernel/src/arch/x86/gdt/gdt.c\<close> and the gate descriptors that
  \<^verbatim>\<open>kernel/src/arch/x86/idt/idt.c\<close> builds: packing of base, limit, flags and handler addresses
  into the fields the processor reads, and the table of segments the kernel installs.
\<close>

section \<open>Segments\<close>

record gdt_entry_t =
  segment_limit :: u16
  base_low :: u16
  base_middle :: u8
  gdt_access :: u8
  granularity :: u8
  base_high :: u8

record table_ptr =
  ptr_limit :: u16
  ptr_base :: u32

record gdt_state =
  g_gdt_entries :: "gdt_entry_t list"
  g_gdt_ptr :: table_ptr
  gdtr :: "table_ptr option"

definition gdt_create_entry :: "u32 \<Rightarrow> u32 \<Rightarrow> u16 \<Rightarrow> gdt_entry_t" where
  "gdt_create_entry base limit flags =
     \<lparr>segment_limit = ucast (limit AND 0x0000FFFF),
      base_low = ucast (base AND 0x0000FFFF),
      base_middle = ucast (drop_bit 16 (base AND 0x00FF0000)),
      gdt_access = ucast (flags AND 0x00FF),
      granularity = ucast (drop_bit 8 (ucast flags AND 0xF000) OR drop_bit 16 (limit AND 0x000F0000)),
      base_high = ucast (drop_bit 24 (base AND 0xFF000000))\<rparr>"

text \<open>\<open>sizeof(gdt_entry_t)\<close> is 8.\<close>

definition gdt_create_ptr :: "u16 \<Rightarrow> u32 \<Rightarrow> table_ptr" where
  "gdt_create_ptr segments base = \<lparr>ptr_limit = ucast (ucast segments * 8 - 1 :: u32), ptr_base = base\<rparr>"

definition GDT_SEGMENTS :: nat where
  "GDT_SEGMENTS = 5"

definition GDT_KERNEL_CODE_SELECTOR :: u16 where
  "GDT_KERNEL_CODE_SELECTOR = push_bit 3 1"

text \<open>
  The flag macros of \<^verbatim>\<open>gdt.h\<close>: present, privilege, code or data, kind, readable or writable.
\<close>

definition GDT_ACCESS_PRIVILEGE :: "u16 \<Rightarrow> u16" where
  "GDT_ACCESS_PRIVILEGE lvl = push_bit 5 (lvl AND 0x03)"

definition GDT_CODE :: "u16 \<Rightarrow> u16" where
  "GDT_CODE lvl = push_bit 7 1 OR GDT_ACCESS_PRIVILEGE lvl OR push_bit 4 1 OR push_bit 3 1 OR push_bit 1 1"

definition GDT_DATA :: "u16 \<Rightarrow> u16" where
  "GDT_DATA lvl = push_bit 7 1 OR GDT_ACCESS_PRIVILEGE lvl OR push_bit 4 1 OR push_bit 3 0 OR push_bit 1 1"

definition GDT_GRAN_4KB :: u16 where
  "GDT_GRAN_4KB = push_bit 15 1"

definition GDT_GRAN_32BIT :: u16 where
  "GDT_GRAN_32BIT = push_bit 14 1"

text \<open>
  \<open>gdt_base\<close> is the address of the static table; \<open>gdt_load\<close> is the \<open>lgdt\<close> instruction and puts
  the pointer into the register.
\<close>

definition gdt_load :: "gdt_state \<Rightarrow> gdt_state" where
  "gdt_load s = s\<lparr>gdtr := Some (g_gdt_ptr s)\<rparr>"

definition gdt_init :: "u32 \<Rightarrow> gdt_state \<Rightarrow> gdt_state" where
  "gdt_init table s =
     (let s1 = s\<lparr>g_gdt_ptr := gdt_create_ptr (of_nat GDT_SEGMENTS) table\<rparr>;
          s2 = s1\<lparr>g_gdt_entries := (g_gdt_entries s1)
            [0 := gdt_create_entry 0x00000000 0x00000 0,
             1 := gdt_create_entry 0x00000000 0xFFFFF (GDT_CODE 0 OR GDT_GRAN_4KB OR GDT_GRAN_32BIT),
             2 := gdt_create_entry 0x00000000 0xFFFFF (GDT_DATA 0 OR GDT_GRAN_4KB OR GDT_GRAN_32BIT),
             3 := gdt_create_entry 0x00000000 0xFFFFF (GDT_CODE 3 OR GDT_GRAN_4KB OR GDT_GRAN_32BIT),
             4 := gdt_create_entry 0x00000000 0xFFFFF (GDT_DATA 3 OR GDT_GRAN_4KB OR GDT_GRAN_32BIT)]\<rparr>
      in gdt_load s2)"

section \<open>How the processor reads a segment\<close>

definition seg_base :: "gdt_entry_t \<Rightarrow> u32" where
  "seg_base e = ucast (base_low e) OR push_bit 16 (ucast (base_middle e)) OR push_bit 24 (ucast (base_high e))"

definition seg_limit :: "gdt_entry_t \<Rightarrow> u32" where
  "seg_limit e = ucast (segment_limit e) OR push_bit 16 (ucast (granularity e AND 0x0F))"

text \<open>The highest byte offset of the segment: in 4 KiB units when the granularity bit is set.\<close>

definition seg_top :: "gdt_entry_t \<Rightarrow> nat" where
  "seg_top e = (if bit (granularity e) 7 then unat (seg_limit e) * 4096 + 4095 else unat (seg_limit e))"

definition seg_present :: "gdt_entry_t \<Rightarrow> bool" where
  "seg_present e = bit (gdt_access e) 7"

definition seg_dpl :: "gdt_entry_t \<Rightarrow> u8" where
  "seg_dpl e = drop_bit 5 (gdt_access e) AND 3"

definition seg_is_code :: "gdt_entry_t \<Rightarrow> bool" where
  "seg_is_code e = (bit (gdt_access e) 4 \<and> bit (gdt_access e) 3)"

definition seg_is_data :: "gdt_entry_t \<Rightarrow> bool" where
  "seg_is_data e = (bit (gdt_access e) 4 \<and> \<not> bit (gdt_access e) 3)"

section \<open>Gates\<close>

record idt_entry_t =
  isr_low :: u16
  selector :: u16
  idt_zero :: u8
  attributes :: u8
  isr_high :: u16

definition idt_create_entry :: "u32 \<Rightarrow> u8 \<Rightarrow> idt_entry_t" where
  "idt_create_entry isr attrs =
     \<lparr>isr_low = ucast (isr AND 0x0000FFFF),
      selector = GDT_KERNEL_CODE_SELECTOR,
      idt_zero = 0,
      attributes = attrs,
      isr_high = ucast (drop_bit 16 (isr AND 0xFFFF0000))\<rparr>"

text \<open>\<open>sizeof(idt_entry_t)\<close> is 8.\<close>

definition idt_create_ptr :: "u16 \<Rightarrow> u32 \<Rightarrow> table_ptr" where
  "idt_create_ptr entries base = \<lparr>ptr_limit = ucast (ucast entries * 8 - 1 :: u32), ptr_base = base\<rparr>"

definition gate_offset :: "idt_entry_t \<Rightarrow> u32" where
  "gate_offset e = ucast (isr_low e) OR push_bit 16 (ucast (isr_high e))"

section \<open>Unpacking\<close>

lemma gate_offset_create: "gate_offset (idt_create_entry isr attrs) = isr"
proof (rule bit_word_eqI)
  fix n assume n: "n < LENGTH(32)"
  have m: "0xFFFF = (mask 16 :: u32)" "0xFFFF0000 = (push_bit 16 (mask 16) :: u32)"
    by (simp_all add: mask_eq_exp_minus_1 push_bit_eq_mult)
  show "bit (gate_offset (idt_create_entry isr attrs)) n = bit isr n"
    using n by (cases "n < 16") (auto simp: gate_offset_def idt_create_entry_def m bit_simps)
qed

lemma seg_base_create: "seg_base (gdt_create_entry base limit flags) = base"
proof (rule bit_word_eqI)
  fix n assume n: "n < LENGTH(32)"
  have m: "0xFFFF = (mask 16 :: u32)" "0xFF0000 = (push_bit 16 (mask 8) :: u32)"
    "0xFF000000 = (push_bit 24 (mask 8) :: u32)"
    by (simp_all add: mask_eq_exp_minus_1 push_bit_eq_mult)
  consider "n < 16" | "16 \<le> n" "n < 24" | "24 \<le> n" by linarith
  then show "bit (seg_base (gdt_create_entry base limit flags)) n = bit base n"
    using n by cases (auto simp: seg_base_def gdt_create_entry_def m bit_simps)
qed

lemma seg_limit_create:
  assumes "unat limit < 1048576"
  shows "seg_limit (gdt_create_entry base limit flags) = limit"
proof (rule bit_word_eqI)
  fix n assume n: "n < LENGTH(32)"
  have m: "0xFFFF = (mask 16 :: u32)" "0xF0000 = (push_bit 16 (mask 4) :: u32)"
    "0x0F = (mask 4 :: u8)" "0xF000 = (push_bit 12 (mask 4) :: u32)"
    by (simp_all add: mask_eq_exp_minus_1 push_bit_eq_mult)
  have "take_bit 20 limit = limit"
    unfolding word_unat_eq_iff unsigned_take_bit_eq using assms by (simp add: take_bit_eq_mod)
  then have hi: "bit limit n \<Longrightarrow> n < 20" by (metis bit_take_bit_iff)
  consider "n < 16" | "16 \<le> n" "n < 20" | "20 \<le> n" by linarith
  then show "bit (seg_limit (gdt_create_entry base limit flags)) n = bit limit n"
    using n hi by cases (auto simp: seg_limit_def gdt_create_entry_def m bit_simps)
qed

lemma seg_flags_create:
  "gdt_access (gdt_create_entry base limit flags) = ucast flags"
  "drop_bit 4 (granularity (gdt_create_entry base limit flags)) = ucast (drop_bit 12 flags)"
proof -
  have m: "0xFF = (mask 8 :: u16)" "0xF000 = (push_bit 12 (mask 4) :: u32)"
    "0xF0000 = (push_bit 16 (mask 4) :: u32)"
    by (simp_all add: mask_eq_exp_minus_1 push_bit_eq_mult)
  show "gdt_access (gdt_create_entry base limit flags) = ucast flags"
    by (rule bit_word_eqI) (auto simp: gdt_create_entry_def m bit_simps)
  show "drop_bit 4 (granularity (gdt_create_entry base limit flags)) = ucast (drop_bit 12 flags)"
  proof (rule bit_word_eqI)
    fix n assume "n < LENGTH(8)"
    have "bit flags (n + 12) \<Longrightarrow> n < 4" using bit_imp_le_length [of flags "n + 12"] by simp
    then show "bit (drop_bit 4 (granularity (gdt_create_entry base limit flags))) n
        = bit (ucast (drop_bit 12 flags) :: u8) n"
      by (auto simp: gdt_create_entry_def m bit_simps algebra_simps)
  qed
qed

lemma seg_granular_create: "bit (granularity (gdt_create_entry base limit flags)) 7 = bit flags 15"
proof -
  have "bit (granularity (gdt_create_entry base limit flags)) 7
      = bit (drop_bit 4 (granularity (gdt_create_entry base limit flags))) 3" by (simp add: bit_drop_bit_eq)
  also have "\<dots> = bit flags 15" unfolding seg_flags_create by (simp add: bit_simps)
  finally show ?thesis .
qed

lemmas gdt_consts = GDT_CODE_def GDT_DATA_def GDT_ACCESS_PRIVILEGE_def GDT_GRAN_4KB_def GDT_GRAN_32BIT_def

section \<open>Properties\<close>

text \<open>A segment descriptor gives back everything it was built from: the processor reads the
  base and, for limits of at most 20 bits, the limit that were passed, the access byte from the low
  half of the flags and the granularity nibble from their top four bits.\<close>

lemma gdt_entry_roundtrip:
  assumes "unat limit < 1048576"
  shows "seg_base (gdt_create_entry base limit flags) = base \<and>
    seg_limit (gdt_create_entry base limit flags) = limit \<and>
    gdt_access (gdt_create_entry base limit flags) = ucast flags \<and>
    drop_bit 4 (granularity (gdt_create_entry base limit flags)) = ucast (drop_bit 12 flags)"
  using seg_base_create seg_limit_create [OF assms] seg_flags_create by simp

text \<open>C26. \<open>gdt_init\<close> loads a table of five descriptors: the null segment, and flat code and data
  segments over all 4 GiB, present, for ring 0 and for ring 3.\<close>

theorem gdt_init_flat:
  assumes "length (g_gdt_entries s) = GDT_SEGMENTS"
  shows "gdtr (gdt_init table s) = Some \<lparr>ptr_limit = 39, ptr_base = table\<rparr> \<and>
    map seg_present (g_gdt_entries (gdt_init table s)) = [False, True, True, True, True] \<and>
    map seg_base (g_gdt_entries (gdt_init table s)) = [0, 0, 0, 0, 0] \<and>
    map seg_top (tl (g_gdt_entries (gdt_init table s))) = [4294967295, 4294967295, 4294967295, 4294967295] \<and>
    map seg_dpl (tl (g_gdt_entries (gdt_init table s))) = [0, 0, 3, 3] \<and>
    map seg_is_code (tl (g_gdt_entries (gdt_init table s))) = [True, False, True, False] \<and>
    map seg_is_data (tl (g_gdt_entries (gdt_init table s))) = [False, True, False, True]"
proof -
  obtain a b c d e where l: "g_gdt_entries s = [a, b, c, d, e]"
    using assms by (auto simp: GDT_SEGMENTS_def numeral_eq_Suc length_Suc_conv)
  have top: "seg_top (gdt_create_entry 0 0xFFFFF f) = (if bit f 15 then 4294967295 else 1048575)" for f
    using seg_limit_create [of "0xFFFFF" 0 f] by (simp add: seg_top_def seg_granular_create)
  show ?thesis
    by (simp add: gdt_init_def gdt_load_def Let_def l gdt_create_ptr_def GDT_SEGMENTS_def
        seg_present_def seg_base_create top seg_dpl_def seg_is_code_def seg_is_data_def
        seg_flags_create(1) gdt_consts push_bit_eq_mult drop_bit_eq_div bit_iff_odd)
qed

theorem gdt_init_flat_witness:
  "map seg_present (g_gdt_entries (gdt_init 0xC0100000
     \<lparr>g_gdt_entries = replicate GDT_SEGMENTS (gdt_create_entry 0 0 0), g_gdt_ptr = gdt_create_ptr 0 0, gdtr = None\<rparr>))
   = [False, True, True, True, True]"
  using gdt_init_flat [of "\<lparr>g_gdt_entries = replicate GDT_SEGMENTS (gdt_create_entry 0 0 0),
    g_gdt_ptr = gdt_create_ptr 0 0, gdtr = None\<rparr>" "0xC0100000"] by simp

end
