(* ===== verification/Interrupts.thy ===== *)
theory Interrupts
  imports Descriptors KIO
begin

text \<open>
  \<^verbatim>\<open>kernel/src/arch/x86/idt/pic.c\<close> and \<^verbatim>\<open>kernel/src/arch/x86/idt/idt.c\<close>: programming the
  interrupt controllers, the gate table, and the dispatch of exceptions and interrupt requests.

  A handler is a name of type \<open>'h\<close>; \<open>call h frame\<close> is what running it does to the rest of the
  kernel's state, so the dispatchers are stated for every set of handlers. \<open>lit\<close> gives the address
  of a string literal.
\<close>

section \<open>Interrupt controllers\<close>

definition PIC1_COMMAND :: u16 where "PIC1_COMMAND = 0x20"
definition PIC1_DATA :: u16 where "PIC1_DATA = 0x21"
definition PIC2_COMMAND :: u16 where "PIC2_COMMAND = 0xA0"
definition PIC2_DATA :: u16 where "PIC2_DATA = 0xA1"
definition PIC_EOI :: u8 where "PIC_EOI = 0x20"
definition CASCADE_IRQ :: nat where "CASCADE_IRQ = 2"

definition ICW1_ICW4 :: u8 where [simp]: "ICW1_ICW4 = 0x01"
definition ICW1_INIT :: u8 where [simp]: "ICW1_INIT = 0x10"
definition ICW4_8086 :: u8 where [simp]: "ICW4_8086 = 0x01"

lemmas pic_ports = PIC1_COMMAND_def PIC1_DATA_def PIC2_COMMAND_def PIC2_DATA_def

definition pic_remap :: "u8 \<Rightarrow> u8 \<Rightarrow> io \<Rightarrow> io" where
  "pic_remap offset_1 offset_2 tr =
     (let tr = outb PIC1_COMMAND (ICW1_INIT OR ICW1_ICW4) tr;
          tr = outb PIC2_COMMAND (ICW1_INIT OR ICW1_ICW4) tr;
          tr = outb PIC1_DATA offset_1 tr;
          tr = outb PIC2_DATA offset_2 tr;
          tr = outb PIC1_DATA (push_bit CASCADE_IRQ 1) tr;
          tr = outb PIC2_DATA 2 tr;
          tr = outb PIC1_DATA ICW4_8086 tr;
          tr = outb PIC2_DATA ICW4_8086 tr;
          tr = outb PIC1_DATA 0 tr
      in outb PIC2_DATA 0 tr)"

definition pic_send_eoi :: "u8 \<Rightarrow> io \<Rightarrow> io" where
  "pic_send_eoi irq tr =
     (let tr = (if irq \<ge> 8 then outb PIC2_COMMAND PIC_EOI tr else tr)
      in outb PIC1_COMMAND PIC_EOI tr)"

text \<open>\<open>1 << irq\<close> shifts an \<open>int\<close>: by 32 places or more it has no meaning.\<close>

definition pic_line :: "u8 \<Rightarrow> u16 \<times> u8" where
  "pic_line irq = (if irq < 8 then (PIC1_DATA, irq) else (PIC2_DATA, irq - 8))"

definition pic_set_mask :: "device \<Rightarrow> u8 \<Rightarrow> io \<Rightarrow> (u8 \<times> io) res" where
  "pic_set_mask dev irq tr =
     (case pic_line irq of (port, irq) \<Rightarrow>
        if unat irq \<ge> 32 then undef ''shift''
        else
          case inb dev port tr of (v, tr) \<Rightarrow>
            let val = v OR ucast (push_bit (unat irq) 1 :: u32)
            in ret (val, outb port val tr))"

definition pic_clear_mask :: "device \<Rightarrow> u8 \<Rightarrow> io \<Rightarrow> (u8 \<times> io) res" where
  "pic_clear_mask dev irq tr =
     (case pic_line irq of (port, irq) \<Rightarrow>
        if unat irq \<ge> 32 then undef ''shift''
        else
          case inb dev port tr of (v, tr) \<Rightarrow>
            let val = v AND ucast (NOT (push_bit (unat irq) 1) :: u32)
            in ret (val, outb port val tr))"

definition pic_disable :: "io \<Rightarrow> io" where
  "pic_disable tr = outb PIC2_DATA 0xFF (outb PIC1_DATA 0xFF tr)"

text \<open>
  The 8259A as its data sheet describes it: a command byte with bit 4 set starts the initialisation
  sequence, whose next three data bytes are the vector offset, the cascade wiring and the mode;
  after it a data byte is the interrupt mask. A plain end-of-interrupt command is counted.
\<close>

record pic_chip =
  stage :: nat
  vector_offset :: u8
  cascade :: u8
  pic_mode :: u8
  imr :: u8
  eois :: nat

fun chip_data :: "u8 \<Rightarrow> pic_chip \<Rightarrow> pic_chip" where
  "chip_data d c =
     (if stage c = 1 then c\<lparr>stage := 2, vector_offset := d\<rparr>
      else if stage c = 2 then c\<lparr>stage := 3, cascade := d\<rparr>
      else if stage c = 3 then c\<lparr>stage := 0, pic_mode := d\<rparr>
      else c\<lparr>imr := d\<rparr>)"

fun chip_command :: "u8 \<Rightarrow> pic_chip \<Rightarrow> pic_chip" where
  "chip_command d c =
     (if bit d 4 then c\<lparr>stage := 1, imr := 0\<rparr>
      else if d = 0x20 then c\<lparr>eois := eois c + 1\<rparr> else c)"

fun chip_step :: "u16 \<Rightarrow> u16 \<Rightarrow> io_event \<Rightarrow> pic_chip \<Rightarrow> pic_chip" where
  "chip_step cmd dat (Out p d) c =
     (if p = cmd then chip_command d c else if p = dat then chip_data d c else c)"
| "chip_step cmd dat (In p d) c = c"

definition master :: "io \<Rightarrow> pic_chip \<Rightarrow> pic_chip" where
  "master tr = fold (chip_step PIC1_COMMAND PIC1_DATA) tr"

definition slave :: "io \<Rightarrow> pic_chip \<Rightarrow> pic_chip" where
  "slave tr = fold (chip_step PIC2_COMMAND PIC2_DATA) tr"

section \<open>Gates and handlers\<close>

record isr_frame_t =
  cr2 :: u32   fr_ds :: u32
  edi :: u32   esi :: u32   ebp :: u32   esp :: u32   ebx :: u32   edx :: u32   ecx :: u32   eax :: u32
  int_no :: u32   err_code :: u32
  eip :: u32   fr_cs :: u32   eflags :: u32
  user_esp :: u32   fr_ss :: u32

record 'h idt_state =
  g_idt_entries :: "idt_entry_t list"
  g_idt_ptr :: table_ptr
  g_isr_handlers :: "'h option list"
  g_irq_handlers :: "'h option list"
  idtr :: "table_ptr option"

definition IDT_ENTRIES_AMOUNT :: nat where
  "IDT_ENTRIES_AMOUNT = 48"

text \<open>The exceptions, their vectors, and the designated initialisers of the table of messages.\<close>

datatype (plugins only:) isr_exception_t =
    EXCEPTION_DIVIDE_BY_ZERO | EXCEPTION_DEBUG | EXCEPTION_NON_MASKABLE_INTERRUPT
  | EXCEPTION_BREAKPOINT | EXCEPTION_INTO_DETECTED_OVERFLOW | EXCEPTION_OUT_OF_BOUNDS
  | EXCEPTION_INVALID_OPCODE | EXCEPTION_NO_COPROCESSOR | EXCEPTION_DOUBLE_FAULT
  | EXCEPTION_COPROCESSOR_SEGMENT_OVERRUN | EXCEPTION_BAD_TSS | EXCEPTION_SEGMENT_NOT_PRESENT
  | EXCEPTION_STACK_FAULT | EXCEPTION_GENERAL_PROTECTION_FAULT | EXCEPTION_PAGE_FAULT
  | EXCEPTION_UNKNOWN_INTERRUPT | EXCEPTION_COPROCESSOR_FAULT | EXCEPTION_ALIGNMENT_FAULT
  | EXCEPTION_MACHINE_CHECK | EXCEPTION_RESERVED_19 | EXCEPTION_RESERVED_20
  | EXCEPTION_RESERVED_21 | EXCEPTION_RESERVED_22 | EXCEPTION_RESERVED_23
  | EXCEPTION_RESERVED_24 | EXCEPTION_RESERVED_25 | EXCEPTION_RESERVED_26
  | EXCEPTION_RESERVED_27 | EXCEPTION_RESERVED_28 | EXCEPTION_RESERVED_29
  | EXCEPTION_RESERVED_30 | EXCEPTION_RESERVED_31

primrec exception_value :: "isr_exception_t \<Rightarrow> u8" where
  "exception_value EXCEPTION_DIVIDE_BY_ZERO = 0"
| "exception_value EXCEPTION_DEBUG = 1"
| "exception_value EXCEPTION_NON_MASKABLE_INTERRUPT = 2"
| "exception_value EXCEPTION_BREAKPOINT = 3"
| "exception_value EXCEPTION_INTO_DETECTED_OVERFLOW = 4"
| "exception_value EXCEPTION_OUT_OF_BOUNDS = 5"
| "exception_value EXCEPTION_INVALID_OPCODE = 6"
| "exception_value EXCEPTION_NO_COPROCESSOR = 7"
| "exception_value EXCEPTION_DOUBLE_FAULT = 8"
| "exception_value EXCEPTION_COPROCESSOR_SEGMENT_OVERRUN = 9"
| "exception_value EXCEPTION_BAD_TSS = 10"
| "exception_value EXCEPTION_SEGMENT_NOT_PRESENT = 11"
| "exception_value EXCEPTION_STACK_FAULT = 12"
| "exception_value EXCEPTION_GENERAL_PROTECTION_FAULT = 13"
| "exception_value EXCEPTION_PAGE_FAULT = 14"
| "exception_value EXCEPTION_UNKNOWN_INTERRUPT = 15"
| "exception_value EXCEPTION_COPROCESSOR_FAULT = 16"
| "exception_value EXCEPTION_ALIGNMENT_FAULT = 17"
| "exception_value EXCEPTION_MACHINE_CHECK = 18"
| "exception_value EXCEPTION_RESERVED_19 = 19"
| "exception_value EXCEPTION_RESERVED_20 = 20"
| "exception_value EXCEPTION_RESERVED_21 = 21"
| "exception_value EXCEPTION_RESERVED_22 = 22"
| "exception_value EXCEPTION_RESERVED_23 = 23"
| "exception_value EXCEPTION_RESERVED_24 = 24"
| "exception_value EXCEPTION_RESERVED_25 = 25"
| "exception_value EXCEPTION_RESERVED_26 = 26"
| "exception_value EXCEPTION_RESERVED_27 = 27"
| "exception_value EXCEPTION_RESERVED_28 = 28"
| "exception_value EXCEPTION_RESERVED_29 = 29"
| "exception_value EXCEPTION_RESERVED_30 = 30"
| "exception_value EXCEPTION_RESERVED_31 = 31"

primrec exception_text :: "isr_exception_t \<Rightarrow> string" where
  "exception_text EXCEPTION_DIVIDE_BY_ZERO = ''Division By Zero''"
| "exception_text EXCEPTION_DEBUG = ''Debug''"
| "exception_text EXCEPTION_NON_MASKABLE_INTERRUPT = ''Non Maskable Interrupt''"
| "exception_text EXCEPTION_BREAKPOINT = ''Breakpoint''"
| "exception_text EXCEPTION_INTO_DETECTED_OVERFLOW = ''Into Detected Overflow''"
| "exception_text EXCEPTION_OUT_OF_BOUNDS = ''Out of Bounds''"
| "exception_text EXCEPTION_INVALID_OPCODE = ''Invalid Opcode''"
| "exception_text EXCEPTION_NO_COPROCESSOR = ''No Coprocessor''"
| "exception_text EXCEPTION_DOUBLE_FAULT = ''Double fault''"
| "exception_text EXCEPTION_COPROCESSOR_SEGMENT_OVERRUN = ''Coprocessor Segment Overrun''"
| "exception_text EXCEPTION_BAD_TSS = ''Bad TSS''"
| "exception_text EXCEPTION_SEGMENT_NOT_PRESENT = ''Segment not present''"
| "exception_text EXCEPTION_STACK_FAULT = ''Stack fault''"
| "exception_text EXCEPTION_GENERAL_PROTECTION_FAULT = ''General protection fault''"
| "exception_text EXCEPTION_PAGE_FAULT = ''Page fault''"
| "exception_text EXCEPTION_UNKNOWN_INTERRUPT = ''Unknown Interrupt''"
| "exception_text EXCEPTION_COPROCESSOR_FAULT = ''Coprocessor Fault''"
| "exception_text EXCEPTION_ALIGNMENT_FAULT = ''Alignment Fault''"
| "exception_text EXCEPTION_MACHINE_CHECK = ''Machine Check''"
| "exception_text EXCEPTION_RESERVED_19 = ''Reserved''"
| "exception_text EXCEPTION_RESERVED_20 = ''Reserved''"
| "exception_text EXCEPTION_RESERVED_21 = ''Reserved''"
| "exception_text EXCEPTION_RESERVED_22 = ''Reserved''"
| "exception_text EXCEPTION_RESERVED_23 = ''Reserved''"
| "exception_text EXCEPTION_RESERVED_24 = ''Reserved''"
| "exception_text EXCEPTION_RESERVED_25 = ''Reserved''"
| "exception_text EXCEPTION_RESERVED_26 = ''Reserved''"
| "exception_text EXCEPTION_RESERVED_27 = ''Reserved''"
| "exception_text EXCEPTION_RESERVED_28 = ''Reserved''"
| "exception_text EXCEPTION_RESERVED_29 = ''Reserved''"
| "exception_text EXCEPTION_RESERVED_30 = ''Reserved''"
| "exception_text EXCEPTION_RESERVED_31 = ''Reserved''"

definition EXCEPTION_MESSAGES :: "string list" where
  "EXCEPTION_MESSAGES =
     [''Division By Zero'', ''Debug'', ''Non Maskable Interrupt'', ''Breakpoint'',
      ''Into Detected Overflow'', ''Out of Bounds'', ''Invalid Opcode'', ''No Coprocessor'',
      ''Double fault'', ''Coprocessor Segment Overrun'', ''Bad TSS'', ''Segment not present'',
      ''Stack fault'', ''General protection fault'', ''Page fault'', ''Unknown Interrupt'',
      ''Coprocessor Fault'', ''Alignment Fault'', ''Machine Check''] @ replicate 13 ''Reserved''"

definition idt_load :: "'h idt_state \<Rightarrow> 'h idt_state" where
  "idt_load s = s\<lparr>idtr := Some (g_idt_ptr s)\<rparr>"

text \<open>\<open>isr_stubs\<close> and \<open>irq_stubs\<close> are the tables of entry points that the assembly files define.\<close>

definition idt_init ::
  "u32 \<Rightarrow> (nat \<Rightarrow> u32) \<Rightarrow> (nat \<Rightarrow> u32) \<Rightarrow> 'h idt_state \<times> io \<Rightarrow> 'h idt_state \<times> io" where
  "idt_init table isr_stubs irq_stubs = (\<lambda>(s, tr).
     let s1 = s\<lparr>g_idt_ptr := idt_create_ptr (of_nat IDT_ENTRIES_AMOUNT) table\<rparr>;
         s2 = fold (\<lambda>vector s. s\<lparr>g_idt_entries := (g_idt_entries s)
                [vector := idt_create_entry (isr_stubs vector) 0x8E]\<rparr>) [0..<32] s1;
         tr1 = pic_remap 0x20 0x28 tr;
         s3 = fold (\<lambda>vector s. s\<lparr>g_idt_entries := (g_idt_entries s)
                [vector := idt_create_entry (irq_stubs (vector - 32)) 0x8E]\<rparr>) [32..<48] s2
     in (idt_load s3, tr1))"

text \<open>The four table updates index a C array: past its end the write has no meaning.\<close>

definition isr_install :: "u8 \<Rightarrow> 'h option \<Rightarrow> 'h idt_state \<Rightarrow> 'h idt_state res" where
  "isr_install isr handler s =
     (if unat isr < length (g_isr_handlers s)
      then ret (s\<lparr>g_isr_handlers := (g_isr_handlers s)[unat isr := handler]\<rparr>)
      else undef ''g_isr_handlers'')"

definition isr_uninstall :: "u8 \<Rightarrow> 'h idt_state \<Rightarrow> 'h idt_state res" where
  "isr_uninstall isr s =
     (if unat isr < length (g_isr_handlers s)
      then ret (s\<lparr>g_isr_handlers := (g_isr_handlers s)[unat isr := None]\<rparr>)
      else undef ''g_isr_handlers'')"

definition irq_install :: "u8 \<Rightarrow> 'h option \<Rightarrow> 'h idt_state \<Rightarrow> 'h idt_state res" where
  "irq_install irq handler s =
     (if unat irq < length (g_irq_handlers s)
      then ret (s\<lparr>g_irq_handlers := (g_irq_handlers s)[unat irq := handler]\<rparr>)
      else undef ''g_irq_handlers'')"

definition irq_uninstall :: "u8 \<Rightarrow> 'h idt_state \<Rightarrow> 'h idt_state res" where
  "irq_uninstall irq s =
     (if unat irq < length (g_irq_handlers s)
      then ret (s\<lparr>g_irq_handlers := (g_irq_handlers s)[unat irq := None]\<rparr>)
      else undef ''g_irq_handlers'')"

definition isr_handler ::
  "(string \<Rightarrow> u32) \<Rightarrow> ('h \<Rightarrow> isr_frame_t \<Rightarrow> 's \<Rightarrow> 's res) \<Rightarrow> isr_frame_t \<Rightarrow> 'h idt_state \<Rightarrow> 's \<Rightarrow> 's res" where
  "isr_handler lit call frame t st =
     (if int_no frame \<ge> 32 then panic ''Invalid ISR with interrupt number %u'' [int_no frame]
      else
        case g_isr_handlers t ! unat (int_no frame) of
          Some h \<Rightarrow> call h frame st
        | None \<Rightarrow>
            panic (''Unhandled exception: %u (%s)'' @ [CHR 0x0A])
              [int_no frame, lit (EXCEPTION_MESSAGES ! unat (int_no frame))])"

definition irq_handler ::
  "('h \<Rightarrow> isr_frame_t \<Rightarrow> 's \<times> io \<Rightarrow> ('s \<times> io) res) \<Rightarrow> isr_frame_t \<Rightarrow> 'h idt_state \<Rightarrow> 's \<times> io \<Rightarrow> ('s \<times> io) res" where
  "irq_handler call frame t st =
     (let irq = int_no frame - 32
      in if unat irq \<ge> length (g_irq_handlers t) then undef ''g_irq_handlers''
         else
           bindR (case g_irq_handlers t ! unat irq of Some h \<Rightarrow> call h frame st | None \<Rightarrow> ret st)
             (\<lambda>(s, tr). ret (s, pic_send_eoi (ucast irq) tr)))"

text \<open>The table holds each exception's message at its vector, and the vectors are exactly 0 to 31.\<close>

lemma exception_messages:
  "unat (exception_value e) < length EXCEPTION_MESSAGES" "EXCEPTION_MESSAGES ! unat (exception_value e) = exception_text e"
  by (cases e; simp add: EXCEPTION_MESSAGES_def)+

section \<open>Controller lemmas\<close>

lemma chip_outb:
  "master (outb p d tr) c = chip_step PIC1_COMMAND PIC1_DATA (Out p d) (master tr c)"
  "slave (outb p d tr) c = chip_step PIC2_COMMAND PIC2_DATA (Out p d) (slave tr c)"
  by (simp_all add: master_def slave_def outb_def)

lemma pic_send_eoi_counts:
  "eois (master (pic_send_eoi irq tr) c) = Suc (eois (master tr c))"
  "eois (slave (pic_send_eoi irq tr) c) = (if irq \<ge> 8 then Suc else id) (eois (slave tr c))"
  by (simp_all add: pic_send_eoi_def Let_def chip_outb pic_ports PIC_EOI_def bit_iff_odd)

lemma pic_line_cases:
  assumes "unat irq < 16"
  shows "pic_line irq = (if unat irq < 8 then (PIC1_DATA, irq) else (PIC2_DATA, irq - 8))"
    and "8 \<le> unat irq \<Longrightarrow> unat (irq - 8) = unat irq - 8"
  using assms by (simp_all add: pic_line_def word_less_nat_alt unat_sub_nowrap)

lemma bit_line: "i < 8 \<Longrightarrow> k < 8 \<Longrightarrow> bit (ucast (push_bit k 1 :: u32) :: u8) i \<longleftrightarrow> i = k"
  by (auto simp: bit_simps)

lemma bit_not_line: "i < 8 \<Longrightarrow> k < 8 \<Longrightarrow> bit (ucast (NOT (push_bit k 1) :: u32) :: u8) i \<longleftrightarrow> i \<noteq> k"
  by (auto simp: bit_simps)

section \<open>Table lemmas\<close>

definition idt_inv :: "'h idt_state \<Rightarrow> bool" where
  "idt_inv s \<longleftrightarrow> length (g_idt_entries s) = 48 \<and> length (g_isr_handlers s) = 32 \<and>
     length (g_irq_handlers s) = 16"

lemma gate_fields: "selector (idt_create_entry isr attrs) = 8" "attributes (idt_create_entry isr attrs) = attrs"
  by (simp_all add: idt_create_entry_def GDT_KERNEL_CODE_SELECTOR_def push_bit_eq_mult)

lemma fold_gates:
  "g_idt_entries (fold (\<lambda>v s. s\<lparr>g_idt_entries := (g_idt_entries s)[v := f v]\<rparr>) vs s)
     = fold (\<lambda>v es. es[v := f v]) vs (g_idt_entries s)"
  "g_idt_ptr (fold (\<lambda>v s. s\<lparr>g_idt_entries := (g_idt_entries s)[v := f v]\<rparr>) vs s) = g_idt_ptr s"
  "g_isr_handlers (fold (\<lambda>v s. s\<lparr>g_idt_entries := (g_idt_entries s)[v := f v]\<rparr>) vs s) = g_isr_handlers s"
  "g_irq_handlers (fold (\<lambda>v s. s\<lparr>g_idt_entries := (g_idt_entries s)[v := f v]\<rparr>) vs s) = g_irq_handlers s"
  by (induction vs arbitrary: s) simp_all

lemma fold_list_update:
  "length (fold (\<lambda>v es. es[v := f v]) vs es) = length es"
  "i < length es \<Longrightarrow> fold (\<lambda>v es. es[v := f v]) vs es ! i = (if i \<in> set vs then f i else es ! i)"
  by (induction vs arbitrary: es) (auto simp: nth_list_update)

section \<open>Properties\<close>

text \<open>\<open>pic_remap\<close> takes both controllers, from any state, through their whole initialisation:
  afterwards the master delivers its lines at \<open>offset_1\<close> and expects the slave on line 2, the slave
  delivers at \<open>offset_2\<close>, both run in 8086 mode and no line is masked.\<close>

lemma pic_remap_programs:
  "master (pic_remap offset_1 offset_2 tr) c =
     (master tr c)\<lparr>stage := 0, vector_offset := offset_1, cascade := 4, pic_mode := 1, imr := 0\<rparr> \<and>
   slave (pic_remap offset_1 offset_2 tr) c =
     (slave tr c)\<lparr>stage := 0, vector_offset := offset_2, cascade := 2, pic_mode := 1, imr := 0\<rparr>"
  by (simp add: pic_remap_def Let_def chip_outb pic_ports CASCADE_IRQ_def bit_iff_odd push_bit_eq_mult)

text \<open>\<open>pic_set_mask\<close> and \<open>pic_clear_mask\<close> read the mask of the controller that serves the line,
  change the bit of that line only, write the result back to the same controller and return it.\<close>

lemma pic_mask_one_line:
  assumes "unat irq < 16"
  defines "port \<equiv> if unat irq < 8 then PIC1_DATA else PIC2_DATA" and "line \<equiv> unat irq mod 8"
  shows "\<exists>v w. pic_set_mask dev irq tr = ret (v, tr @ [In port (dev tr port), Out port v]) \<and>
    pic_clear_mask dev irq tr = ret (w, tr @ [In port (dev tr port), Out port w]) \<and>
    (\<forall>i < 8. bit v i = (i = line \<or> bit (dev tr port) i) \<and>
             bit w i = (i \<noteq> line \<and> bit (dev tr port) i))"
proof -
  obtain k where k: "pic_line irq = (port, k)" "unat k = line"
    using pic_line_cases [OF assms(1)] assms(1)
    by (cases "unat irq < 8") (auto simp: port_def line_def mod_if)
  have l: "line < 8" by (simp add: line_def)
  define v where "v = dev tr port OR ucast (push_bit line 1 :: u32)"
  define w where "w = dev tr port AND ucast (NOT (push_bit line 1) :: u32)"
  have "pic_set_mask dev irq tr = ret (v, tr @ [In port (dev tr port), Out port v])"
    using k l by (simp add: pic_set_mask_def inb_def outb_def Let_def v_def)
  moreover have "pic_clear_mask dev irq tr = ret (w, tr @ [In port (dev tr port), Out port w])"
    using k l by (simp add: pic_clear_mask_def inb_def outb_def Let_def w_def)
  moreover have "bit v i = (i = line \<or> bit (dev tr port) i)" "bit w i = (i \<noteq> line \<and> bit (dev tr port) i)"
    if "i < 8" for i
    using bit_line [OF that l] bit_not_line [OF that l] by (auto simp: v_def w_def bit_or_iff bit_and_iff)
  ultimately show ?thesis by blast
qed

lemma idt_init_ok:
  assumes "idt_inv s"
  shows "\<exists>s' tr'. idt_init table isr_stubs irq_stubs (s, tr) = (s', tr') \<and> idt_inv s' \<and>
    idtr s' = Some \<lparr>ptr_limit = 383, ptr_base = table\<rparr> \<and>
    g_isr_handlers s' = g_isr_handlers s \<and> g_irq_handlers s' = g_irq_handlers s \<and>
    (\<forall>v < 48. gate_offset (g_idt_entries s' ! v) = (if v < 32 then isr_stubs v else irq_stubs (v - 32)) \<and>
       selector (g_idt_entries s' ! v) = 8 \<and> attributes (g_idt_entries s' ! v) = 0x8E) \<and>
    vector_offset (master tr' c) = 32 \<and> vector_offset (slave tr' c) = 40"
proof -
  let ?f = "\<lambda>v. idt_create_entry (isr_stubs v) 0x8E" and ?g = "\<lambda>v. idt_create_entry (irq_stubs (v - 32)) 0x8E"
  define es where "es = fold (\<lambda>v es. es[v := ?g v]) [32..<48] (fold (\<lambda>v es. es[v := ?f v]) [0..<32] (g_idt_entries s))"
  obtain s' where s': "idt_init table isr_stubs irq_stubs (s, tr) = (s', pic_remap 0x20 0x28 tr)"
    "g_idt_entries s' = es" "idtr s' = Some (idt_create_ptr (of_nat IDT_ENTRIES_AMOUNT) table)"
    "g_isr_handlers s' = g_isr_handlers s" "g_irq_handlers s' = g_irq_handlers s"
    by (simp add: idt_init_def Let_def idt_load_def fold_gates es_def)
  have len: "length es = 48" using assms by (simp add: es_def fold_list_update idt_inv_def)
  have "es ! v = (if v < 32 then ?f v else ?g v)" if "v < 48" for v
  proof -
    have l: "v < length (g_idt_entries s)" using that assms by (simp add: idt_inv_def)
    then have "v < length (fold (\<lambda>v es. es[v := ?f v]) [0..<32] (g_idt_entries s))"
      by (simp only: fold_list_update(1))
    then show ?thesis
      unfolding es_def using that by (simp only: fold_list_update(2) l set_upt atLeastLessThan_iff) simp
  qed
  then have "gate_offset (es ! v) = (if v < 32 then isr_stubs v else irq_stubs (v - 32)) \<and>
      selector (es ! v) = 8 \<and> attributes (es ! v) = 0x8E" if "v < 48" for v
    using that by (simp add: gate_offset_create gate_fields)
  moreover have "idt_create_ptr (of_nat IDT_ENTRIES_AMOUNT) table = \<lparr>ptr_limit = 383, ptr_base = table\<rparr>"
    by (simp add: idt_create_ptr_def IDT_ENTRIES_AMOUNT_def)
  ultimately show ?thesis
    using s' len assms by (simp add: idt_inv_def pic_remap_def Let_def chip_outb pic_ports bit_iff_odd)
qed

text \<open>C25. \<open>idt_init\<close> fills all 48 gates: vectors 0 to 31 lead to the exception stubs, 32 to 47 to the
  interrupt stubs, each through the kernel code segment as a present 32-bit ring-0 interrupt gate;
  the table is loaded with its exact size and the controllers deliver at 32 and 40, where the
  interrupt gates are.\<close>

theorem idt_init_gates:
  assumes "idt_inv s"
  shows "\<exists>s' tr'. idt_init table isr_stubs irq_stubs (s, tr) = (s', tr') \<and> idt_inv s' \<and>
    idtr s' = Some \<lparr>ptr_limit = 383, ptr_base = table\<rparr> \<and>
    (\<forall>v < 48. gate_offset (g_idt_entries s' ! v) = (if v < 32 then isr_stubs v else irq_stubs (v - 32)) \<and>
       selector (g_idt_entries s' ! v) = 8 \<and> attributes (g_idt_entries s' ! v) = 0x8E) \<and>
    vector_offset (master tr' c) = 32 \<and> vector_offset (slave tr' c) = 40"
  using idt_init_ok [OF assms, of table isr_stubs irq_stubs tr c] by blast

text \<open>The tables of the witnesses, with a handler for line 1 and one for the page fault.\<close>

definition demo_idt :: "nat idt_state" where
  "demo_idt = \<lparr>g_idt_entries = replicate 48 (idt_create_entry 0 0), g_idt_ptr = idt_create_ptr 0 0,
     g_isr_handlers = (replicate 32 None)[14 := Some 0], g_irq_handlers = (replicate 16 None)[1 := Some 7],
     idtr = None\<rparr>"

definition demo_frame :: "u32 \<Rightarrow> isr_frame_t" where
  "demo_frame n = \<lparr>cr2 = 0, fr_ds = 0, edi = 0, esi = 0, ebp = 0, esp = 0, ebx = 0, edx = 0, ecx = 0,
     eax = 0, int_no = n, err_code = 0, eip = 0, fr_cs = 8, eflags = 0, user_esp = 0, fr_ss = 0\<rparr>"

lemma demo_idt_inv: "idt_inv demo_idt"
  by (simp add: idt_inv_def demo_idt_def)

theorem idt_init_gates_witness:
  "\<exists>s' tr'. idt_init 0xC0101000 (\<lambda>v. of_nat v) (\<lambda>v. 0x100) (demo_idt, []) = (s', tr') \<and>
     idtr s' = Some \<lparr>ptr_limit = 383, ptr_base = 0xC0101000\<rparr>"
  using idt_init_gates [OF demo_idt_inv, of "0xC0101000" "\<lambda>v. of_nat v" "\<lambda>v. 0x100" "[]"] by blast

text \<open>Interrupt requests: for a request of one of the 16 lines \<open>irq_handler\<close> runs the handler
  installed for that line and no other, or none if none is installed, and then acknowledges it: once
  at the master, and at the slave exactly for lines 8 to 15.\<close>

lemma irq_handler_ok:
  assumes "idt_inv t" and "32 \<le> unat (int_no frame)" and "unat (int_no frame) < 48"
    and "(case g_irq_handlers t ! (unat (int_no frame) - 32) of
            None \<Rightarrow> ret st | Some h \<Rightarrow> call h frame st) = ret (s', tr')"
  shows "\<exists>tr''. irq_handler call frame t st = ret (s', tr'') \<and>
    eois (master tr'' c) = eois (master tr' c) + 1 \<and>
    eois (slave tr'' c) = eois (slave tr' c) + (if 40 \<le> unat (int_no frame) then 1 else 0)"
proof -
  let ?irq = "int_no frame - 32"
  have u: "unat ?irq = unat (int_no frame) - 32" using assms(2) by (simp add: unat_sub_nowrap)
  have "unat (ucast ?irq :: u8) = unat ?irq" using u assms(3) by (intro unat_ucast_down) simp
  then have ge: "(ucast ?irq :: u8) \<ge> 8 \<longleftrightarrow> 40 \<le> unat (int_no frame)"
    using u assms(2) by (simp add: word_le_nat_alt) linarith
  have "irq_handler call frame t st = ret (s', pic_send_eoi (ucast ?irq) tr')"
    using assms u by (auto simp: irq_handler_def Let_def idt_inv_def split: option.splits)
  then show ?thesis using pic_send_eoi_counts [of "ucast ?irq" tr' c] ge by auto
qed

text \<open>Exceptions: a handler installed for one of the 32 vectors is run for that vector, the
  others are dispatched as before; a vector without handler panics with its number, and so does a
  number that is no exception.\<close>

lemma isr_install_dispatch:
  assumes "idt_inv t" and "unat n < 32"
  shows "\<exists>t'. isr_install n (Some h) t = ret t' \<and> idt_inv t' \<and>
    (\<forall>frame st. isr_handler lit call frame t' st =
       (if int_no frame = ucast n then call h frame st else isr_handler lit call frame t st)) \<and>
    (\<exists>t''. isr_uninstall n t' = ret t'' \<and> (\<forall>frame st. int_no frame = ucast n \<longrightarrow>
       isr_handler lit call frame t'' st = panic (''Unhandled exception: %u (%s)'' @ [CHR 0x0A])
         [int_no frame, lit (EXCEPTION_MESSAGES ! unat n)]))"
proof -
  have len: "length (g_isr_handlers t) = 32" using assms(1) by (simp add: idt_inv_def)
  let ?t = "t\<lparr>g_isr_handlers := (g_isr_handlers t)[unat n := Some h]\<rparr>"
  have u: "unat (ucast n :: u32) = unat n" by (rule unat_ucast_up)
  have "\<not> (ucast n :: u32) \<ge> 32" using u assms(2) by (simp add: word_le_nat_alt)
  moreover have "unat (int_no frame) = unat n \<longleftrightarrow> int_no frame = ucast n" for frame
    using u by (metis word_unat_eq_iff)
  ultimately show ?thesis
    using assms len u by (auto simp: isr_install_def isr_uninstall_def isr_handler_def idt_inv_def nth_upd)
qed

end
