(* ===== verification/Scancodes.thy ===== *)
theory Scancodes
  imports Prelude
begin

text \<open>
  The scan codes and the two ASCII tables of \<^verbatim>\<open>kernel/include/drivers/keyboard.h\<close>. The
  enumeration only names numbers: a variable of its type may hold any code the hardware sends, so
  keys are constructors and \<open>scancode_value\<close> gives the number of each.
\<close>

datatype (plugins only:) keyboard_scancode_t =
    SCANCODE_ESC | SCANCODE_1 | SCANCODE_2 | SCANCODE_3 | SCANCODE_4 | SCANCODE_5 | SCANCODE_6
  | SCANCODE_7 | SCANCODE_8 | SCANCODE_9 | SCANCODE_0 | SCANCODE_MINUS | SCANCODE_EQUAL
  | SCANCODE_BACKSPACE | SCANCODE_TAB | SCANCODE_Q | SCANCODE_W | SCANCODE_E | SCANCODE_R
  | SCANCODE_T | SCANCODE_Y | SCANCODE_U | SCANCODE_I | SCANCODE_O | SCANCODE_P
  | SCANCODE_LBRACKET | SCANCODE_RBRACKET | SCANCODE_ENTER | SCANCODE_LEFT_CTRL | SCANCODE_A
  | SCANCODE_S | SCANCODE_D | SCANCODE_F | SCANCODE_G | SCANCODE_H | SCANCODE_J | SCANCODE_K
  | SCANCODE_L | SCANCODE_SEMICOLON | SCANCODE_APOSTROPHE | SCANCODE_GRAVE | SCANCODE_LEFT_SHIFT
  | SCANCODE_BACKSLASH | SCANCODE_Z | SCANCODE_X | SCANCODE_C | SCANCODE_V | SCANCODE_B
  | SCANCODE_N | SCANCODE_M | SCANCODE_COMMA | SCANCODE_DOT | SCANCODE_SLASH
  | SCANCODE_RIGHT_SHIFT | SCANCODE_KP_STAR | SCANCODE_LEFT_ALT | SCANCODE_SPACE
  | SCANCODE_CAPS_LOCK | SCANCODE_F1 | SCANCODE_F2 | SCANCODE_F3 | SCANCODE_F4 | SCANCODE_F5
  | SCANCODE_F6 | SCANCODE_F7 | SCANCODE_F8 | SCANCODE_F9 | SCANCODE_F10 | SCANCODE_NUM_LOCK
  | SCANCODE_SCROLL_LOCK | SCANCODE_KP_7 | SCANCODE_KP_8 | SCANCODE_KP_9 | SCANCODE_KP_MINUS
  | SCANCODE_KP_4 | SCANCODE_KP_5 | SCANCODE_KP_6 | SCANCODE_KP_PLUS | SCANCODE_KP_1
  | SCANCODE_KP_2 | SCANCODE_KP_3 | SCANCODE_KP_0 | SCANCODE_KP_DOT | SCANCODE_F11 | SCANCODE_F12
  | SCANCODE_RIGHT_CTRL | SCANCODE_RIGHT_ALT

primrec scancode_value :: "keyboard_scancode_t \<Rightarrow> nat" where
  "scancode_value SCANCODE_ESC = 0x0001"
| "scancode_value SCANCODE_1 = 0x0002"
| "scancode_value SCANCODE_2 = 0x0003"
| "scancode_value SCANCODE_3 = 0x0004"
| "scancode_value SCANCODE_4 = 0x0005"
| "scancode_value SCANCODE_5 = 0x0006"
| "scancode_value SCANCODE_6 = 0x0007"
| "scancode_value SCANCODE_7 = 0x0008"
| "scancode_value SCANCODE_8 = 0x0009"
| "scancode_value SCANCODE_9 = 0x000A"
| "scancode_value SCANCODE_0 = 0x000B"
| "scancode_value SCANCODE_MINUS = 0x000C"
| "scancode_value SCANCODE_EQUAL = 0x000D"
| "scancode_value SCANCODE_BACKSPACE = 0x000E"
| "scancode_value SCANCODE_TAB = 0x000F"
| "scancode_value SCANCODE_Q = 0x0010"
| "scancode_value SCANCODE_W = 0x0011"
| "scancode_value SCANCODE_E = 0x0012"
| "scancode_value SCANCODE_R = 0x0013"
| "scancode_value SCANCODE_T = 0x0014"
| "scancode_value SCANCODE_Y = 0x0015"
| "scancode_value SCANCODE_U = 0x0016"
| "scancode_value SCANCODE_I = 0x0017"
| "scancode_value SCANCODE_O = 0x0018"
| "scancode_value SCANCODE_P = 0x0019"
| "scancode_value SCANCODE_LBRACKET = 0x001A"
| "scancode_value SCANCODE_RBRACKET = 0x001B"
| "scancode_value SCANCODE_ENTER = 0x001C"
| "scancode_value SCANCODE_LEFT_CTRL = 0x001D"
| "scancode_value SCANCODE_A = 0x001E"
| "scancode_value SCANCODE_S = 0x001F"
| "scancode_value SCANCODE_D = 0x0020"
| "scancode_value SCANCODE_F = 0x0021"
| "scancode_value SCANCODE_G = 0x0022"
| "scancode_value SCANCODE_H = 0x0023"
| "scancode_value SCANCODE_J = 0x0024"
| "scancode_value SCANCODE_K = 0x0025"
| "scancode_value SCANCODE_L = 0x0026"
| "scancode_value SCANCODE_SEMICOLON = 0x0027"
| "scancode_value SCANCODE_APOSTROPHE = 0x0028"
| "scancode_value SCANCODE_GRAVE = 0x0029"
| "scancode_value SCANCODE_LEFT_SHIFT = 0x002A"
| "scancode_value SCANCODE_BACKSLASH = 0x002B"
| "scancode_value SCANCODE_Z = 0x002C"
| "scancode_value SCANCODE_X = 0x002D"
| "scancode_value SCANCODE_C = 0x002E"
| "scancode_value SCANCODE_V = 0x002F"
| "scancode_value SCANCODE_B = 0x0030"
| "scancode_value SCANCODE_N = 0x0031"
| "scancode_value SCANCODE_M = 0x0032"
| "scancode_value SCANCODE_COMMA = 0x0033"
| "scancode_value SCANCODE_DOT = 0x0034"
| "scancode_value SCANCODE_SLASH = 0x0035"
| "scancode_value SCANCODE_RIGHT_SHIFT = 0x0036"
| "scancode_value SCANCODE_KP_STAR = 0x0037"
| "scancode_value SCANCODE_LEFT_ALT = 0x0038"
| "scancode_value SCANCODE_SPACE = 0x0039"
| "scancode_value SCANCODE_CAPS_LOCK = 0x003A"
| "scancode_value SCANCODE_F1 = 0x003B"
| "scancode_value SCANCODE_F2 = 0x003C"
| "scancode_value SCANCODE_F3 = 0x003D"
| "scancode_value SCANCODE_F4 = 0x003E"
| "scancode_value SCANCODE_F5 = 0x003F"
| "scancode_value SCANCODE_F6 = 0x0040"
| "scancode_value SCANCODE_F7 = 0x0041"
| "scancode_value SCANCODE_F8 = 0x0042"
| "scancode_value SCANCODE_F9 = 0x0043"
| "scancode_value SCANCODE_F10 = 0x0044"
| "scancode_value SCANCODE_NUM_LOCK = 0x0045"
| "scancode_value SCANCODE_SCROLL_LOCK = 0x0046"
| "scancode_value SCANCODE_KP_7 = 0x0047"
| "scancode_value SCANCODE_KP_8 = 0x0048"
| "scancode_value SCANCODE_KP_9 = 0x0049"
| "scancode_value SCANCODE_KP_MINUS = 0x004A"
| "scancode_value SCANCODE_KP_4 = 0x004B"
| "scancode_value SCANCODE_KP_5 = 0x004C"
| "scancode_value SCANCODE_KP_6 = 0x004D"
| "scancode_value SCANCODE_KP_PLUS = 0x004E"
| "scancode_value SCANCODE_KP_1 = 0x004F"
| "scancode_value SCANCODE_KP_2 = 0x0050"
| "scancode_value SCANCODE_KP_3 = 0x0051"
| "scancode_value SCANCODE_KP_0 = 0x0052"
| "scancode_value SCANCODE_KP_DOT = 0x0053"
| "scancode_value SCANCODE_F11 = 0x0057"
| "scancode_value SCANCODE_F12 = 0x0058"
| "scancode_value SCANCODE_RIGHT_CTRL = 0xE01D"
| "scancode_value SCANCODE_RIGHT_ALT = 0xE038"

text \<open>A C array with designated initialisers: entries not named are zero.\<close>

definition ascii_table :: "(keyboard_scancode_t \<times> u8) list \<Rightarrow> u8 list" where
  "ascii_table entries = fold (\<lambda>(k, ch) tab. tab[scancode_value k := ch]) entries (replicate 128 0)"

definition SCANCODE_TO_ASCII :: "u8 list" where
  "SCANCODE_TO_ASCII = ascii_table
     [
      (SCANCODE_ESC, 27), (SCANCODE_1, of_char CHR ''1''), (SCANCODE_2, of_char CHR ''2''),
      (SCANCODE_3, of_char CHR ''3''), (SCANCODE_4, of_char CHR ''4''),
      (SCANCODE_5, of_char CHR ''5''), (SCANCODE_6, of_char CHR ''6''),
      (SCANCODE_7, of_char CHR ''7''), (SCANCODE_8, of_char CHR ''8''),
      (SCANCODE_9, of_char CHR ''9''), (SCANCODE_0, of_char CHR ''0''),
      (SCANCODE_MINUS, of_char CHR ''-''), (SCANCODE_EQUAL, of_char CHR ''=''),
      (SCANCODE_BACKSPACE, 8), (SCANCODE_TAB, 9), (SCANCODE_Q, of_char CHR ''q''),
      (SCANCODE_W, of_char CHR ''w''), (SCANCODE_E, of_char CHR ''e''),
      (SCANCODE_R, of_char CHR ''r''), (SCANCODE_T, of_char CHR ''t''),
      (SCANCODE_Y, of_char CHR ''y''), (SCANCODE_U, of_char CHR ''u''),
      (SCANCODE_I, of_char CHR ''i''), (SCANCODE_O, of_char CHR ''o''),
      (SCANCODE_P, of_char CHR ''p''), (SCANCODE_LBRACKET, of_char CHR ''[''),
      (SCANCODE_RBRACKET, of_char CHR '']''), (SCANCODE_ENTER, 10),
      (SCANCODE_A, of_char CHR ''a''), (SCANCODE_S, of_char CHR ''s''),
      (SCANCODE_D, of_char CHR ''d''), (SCANCODE_F, of_char CHR ''f''),
      (SCANCODE_G, of_char CHR ''g''), (SCANCODE_H, of_char CHR ''h''),
      (SCANCODE_J, of_char CHR ''j''), (SCANCODE_K, of_char CHR ''k''),
      (SCANCODE_L, of_char CHR ''l''), (SCANCODE_SEMICOLON, of_char CHR '';''),
      (SCANCODE_APOSTROPHE, 0x27), (SCANCODE_GRAVE, 0x60), (SCANCODE_BACKSLASH, 0x5C),
      (SCANCODE_Z, of_char CHR ''z''), (SCANCODE_X, of_char CHR ''x''),
      (SCANCODE_C, of_char CHR ''c''), (SCANCODE_V, of_char CHR ''v''),
      (SCANCODE_B, of_char CHR ''b''), (SCANCODE_N, of_char CHR ''n''),
      (SCANCODE_M, of_char CHR ''m''), (SCANCODE_COMMA, of_char CHR '',''),
      (SCANCODE_DOT, of_char CHR ''.''), (SCANCODE_SLASH, of_char CHR ''/''),
      (SCANCODE_SPACE, of_char CHR '' ''), (SCANCODE_KP_0, of_char CHR ''0''),
      (SCANCODE_KP_1, of_char CHR ''1''), (SCANCODE_KP_2, of_char CHR ''2''),
      (SCANCODE_KP_3, of_char CHR ''3''), (SCANCODE_KP_4, of_char CHR ''4''),
      (SCANCODE_KP_5, of_char CHR ''5''), (SCANCODE_KP_6, of_char CHR ''6''),
      (SCANCODE_KP_7, of_char CHR ''7''), (SCANCODE_KP_8, of_char CHR ''8''),
      (SCANCODE_KP_9, of_char CHR ''9''), (SCANCODE_KP_DOT, of_char CHR ''.'')
     ]"

definition SCANCODE_TO_ASCII_SHIFT :: "u8 list" where
  "SCANCODE_TO_ASCII_SHIFT = ascii_table
     [
      (SCANCODE_1, of_char CHR ''!''), (SCANCODE_2, of_char CHR ''@''),
      (SCANCODE_3, of_char CHR ''#''), (SCANCODE_4, of_char CHR ''$''),
      (SCANCODE_5, of_char CHR ''%''), (SCANCODE_6, of_char CHR ''^''),
      (SCANCODE_7, of_char CHR ''&''), (SCANCODE_8, of_char CHR ''*''),
      (SCANCODE_9, of_char CHR ''(''), (SCANCODE_0, of_char CHR '')''),
      (SCANCODE_MINUS, of_char CHR ''_''), (SCANCODE_EQUAL, of_char CHR ''+''),
      (SCANCODE_Q, of_char CHR ''Q''), (SCANCODE_W, of_char CHR ''W''),
      (SCANCODE_E, of_char CHR ''E''), (SCANCODE_R, of_char CHR ''R''),
      (SCANCODE_T, of_char CHR ''T''), (SCANCODE_Y, of_char CHR ''Y''),
      (SCANCODE_U, of_char CHR ''U''), (SCANCODE_I, of_char CHR ''I''),
      (SCANCODE_O, of_char CHR ''O''), (SCANCODE_P, of_char CHR ''P''),
      (SCANCODE_LBRACKET, of_char CHR ''{''), (SCANCODE_RBRACKET, of_char CHR ''}''),
      (SCANCODE_A, of_char CHR ''A''), (SCANCODE_S, of_char CHR ''S''),
      (SCANCODE_D, of_char CHR ''D''), (SCANCODE_F, of_char CHR ''F''),
      (SCANCODE_G, of_char CHR ''G''), (SCANCODE_H, of_char CHR ''H''),
      (SCANCODE_J, of_char CHR ''J''), (SCANCODE_K, of_char CHR ''K''),
      (SCANCODE_L, of_char CHR ''L''), (SCANCODE_SEMICOLON, of_char CHR '':''),
      (SCANCODE_APOSTROPHE, 0x22), (SCANCODE_GRAVE, of_char CHR ''~''),
      (SCANCODE_BACKSLASH, of_char CHR ''|''), (SCANCODE_Z, of_char CHR ''Z''),
      (SCANCODE_X, of_char CHR ''X''), (SCANCODE_C, of_char CHR ''C''),
      (SCANCODE_V, of_char CHR ''V''), (SCANCODE_B, of_char CHR ''B''),
      (SCANCODE_N, of_char CHR ''N''), (SCANCODE_M, of_char CHR ''M''),
      (SCANCODE_COMMA, of_char CHR ''<''), (SCANCODE_DOT, of_char CHR ''>''),
      (SCANCODE_SLASH, of_char CHR ''?'')
     ]"

section \<open>Lookups\<close>

lemma fold_table_nth:
  assumes "i < length tab"
  shows "fold (\<lambda>(k, ch) tab. tab[scancode_value k := ch]) entries tab ! i =
    (case map_of (rev (map (\<lambda>(k, ch). (scancode_value k, ch)) entries)) i of Some ch \<Rightarrow> ch | None \<Rightarrow> tab ! i)"
  using assms
  by (induction entries arbitrary: tab) (auto simp: map_add_def nth_list_update split: option.splits)

lemma ascii_table_nth:
  "i < 128 \<Longrightarrow> ascii_table entries ! i =
     (case map_of (rev (map (\<lambda>(k, ch). (scancode_value k, ch)) entries)) i of Some ch \<Rightarrow> ch | None \<Rightarrow> 0)"
  unfolding ascii_table_def by (subst fold_table_nth) (simp_all split: option.splits)

lemmas ascii_lookup = SCANCODE_TO_ASCII_def SCANCODE_TO_ASCII_SHIFT_def ascii_table_nth

text \<open>The letter keys in alphabetical order.\<close>

definition letter_keys :: "keyboard_scancode_t list" where
  "letter_keys =
    [
     SCANCODE_A, SCANCODE_B, SCANCODE_C, SCANCODE_D, SCANCODE_E, SCANCODE_F, SCANCODE_G,
     SCANCODE_H, SCANCODE_I, SCANCODE_J, SCANCODE_K, SCANCODE_L, SCANCODE_M, SCANCODE_N,
     SCANCODE_O, SCANCODE_P, SCANCODE_Q, SCANCODE_R, SCANCODE_S, SCANCODE_T, SCANCODE_U,
     SCANCODE_V, SCANCODE_W, SCANCODE_X, SCANCODE_Y, SCANCODE_Z
    ]"

lemma letter_keys_ascii:
  "list_all2 (\<lambda>k i. scancode_value k < 128 \<and> SCANCODE_TO_ASCII ! scancode_value k = 97 + of_nat i \<and>
      SCANCODE_TO_ASCII_SHIFT ! scancode_value k = 65 + of_nat i) letter_keys [0..<26]"
  by (simp add: letter_keys_def upt_rec ascii_lookup)

lemma blank_keys_ascii:
  "\<forall>(k, ch) \<in> {(SCANCODE_SPACE, 32), (SCANCODE_ENTER, 10), (SCANCODE_TAB, 9), (SCANCODE_BACKSPACE, 8)}.
     scancode_value k < 128 \<and> SCANCODE_TO_ASCII ! scancode_value k = ch \<and>
     SCANCODE_TO_ASCII_SHIFT ! scancode_value k = 0"
  by (simp add: ascii_lookup)

end
