(* ===== verification/Keyboard.thy ===== *)
theory Keyboard
  imports KBuffer Interrupts Scancodes
begin

text \<open>
  \<^verbatim>\<open>kernel/src/drivers/keyboard.c\<close>: the PS/2 keyboard. The interrupt handler drains the
  controller, tracks the modifier keys and queues events in a cyclic buffer of 256 slots in byte
  memory. The driver is shown to implement an automaton on scan codes in front of a bounded queue.
\<close>

section \<open>Data\<close>

record keyboard_event_t =
  keycode :: u8
  scancode :: u32
  is_pressed :: bool
  shift_held :: bool
  ctrl_held :: bool
  alt_held :: bool
  caps_locked :: bool

record kbd_state =
  g_keyboard_buffer :: cyclic_buffer_t
  g_extended_pending :: bool
  g_caps_locked :: bool
  g_shift_held :: bool
  g_ctrl_held :: bool
  g_alt_held :: bool

text \<open>
  The 16 bytes of an event: the scan code is a 32-bit enumeration at offset 4, the flags follow one
  byte each, and the other bytes are padding that an assignment leaves alone.
\<close>

definition sizeof_keyboard_event_t :: u32 where
  "sizeof_keyboard_event_t = 16"

definition store_event :: "u32 \<Rightarrow> keyboard_event_t \<Rightarrow> mem \<Rightarrow> mem" where
  "store_event p e m = m(
     p := keycode e,
     p + 4 := ucast (scancode e),
     p + 5 := ucast (drop_bit 8 (scancode e)),
     p + 6 := ucast (drop_bit 16 (scancode e)),
     p + 7 := ucast (drop_bit 24 (scancode e)),
     p + 8 := of_bool (is_pressed e),
     p + 9 := of_bool (shift_held e),
     p + 10 := of_bool (ctrl_held e),
     p + 11 := of_bool (alt_held e),
     p + 12 := of_bool (caps_locked e))"

definition load_event :: "u8 list \<Rightarrow> keyboard_event_t" where
  "load_event bs = \<lparr>
     keycode = bs ! 0,
     scancode = ucast (bs ! 4) OR push_bit 8 (ucast (bs ! 5)) OR push_bit 16 (ucast (bs ! 6))
                OR push_bit 24 (ucast (bs ! 7)),
     is_pressed = (bs ! 8 \<noteq> 0), shift_held = (bs ! 9 \<noteq> 0), ctrl_held = (bs ! 10 \<noteq> 0),
     alt_held = (bs ! 11 \<noteq> 0), caps_locked = (bs ! 12 \<noteq> 0)\<rparr>"

section \<open>The driver\<close>

definition KEYBOARD_BUFFER_SIZE :: u32 where "KEYBOARD_BUFFER_SIZE = 256"
text \<open>The two masks are compared with values of different widths.\<close>

definition EXTENDED_SCANCODE_PREFIX :: "'a :: len word" where [simp]: "EXTENDED_SCANCODE_PREFIX = 0xE0"
definition RELEASED_SCANCODE_MASK :: "'a :: len word" where [simp]: "RELEASED_SCANCODE_MASK = 0x80"
definition PS2_STATUS_OUTPUT_BUFFER_FULL :: u8 where [simp]: "PS2_STATUS_OUTPUT_BUFFER_FULL = 0x01"
definition PS2_DATA_PORT :: u16 where "PS2_DATA_PORT = 0x60"
definition PS2_STATUS_PORT :: u16 where "PS2_STATUS_PORT = 0x64"

text \<open>\<open>events\<close> is the address of the static array, \<open>h\<close> the handler's name in the interrupt table.\<close>

definition keyboard_init ::
  "device \<Rightarrow> 'h \<Rightarrow> u32 \<Rightarrow> kbd_state \<times> 'h idt_state \<times> io \<Rightarrow> (kbd_state \<times> 'h idt_state \<times> io) res" where
  "keyboard_init dev h events = (\<lambda>(s, t, tr).
     let s1 = (case cyclic_buffer_init (Some (g_keyboard_buffer s)) events KEYBOARD_BUFFER_SIZE
                      sizeof_keyboard_event_t of
                 (_, Some b) \<Rightarrow> s\<lparr>g_keyboard_buffer := b\<rparr> | (_, None) \<Rightarrow> s)
     in bindR (irq_install 1 (Some h) t) (\<lambda>t1.
        bindR (pic_clear_mask dev 1 tr) (\<lambda>(_, tr1). ret (s1, t1, tr1))))"

definition handle_modifiers :: "u16 \<Rightarrow> bool \<Rightarrow> kbd_state \<Rightarrow> kbd_state" where
  "handle_modifiers code is_released s =
     (let is = (\<lambda>k. unat code = scancode_value k)
      in if is SCANCODE_LEFT_SHIFT \<or> is SCANCODE_RIGHT_SHIFT then s\<lparr>g_shift_held := \<not> is_released\<rparr>
         else if is SCANCODE_LEFT_CTRL \<or> is SCANCODE_RIGHT_CTRL then s\<lparr>g_ctrl_held := \<not> is_released\<rparr>
         else if is SCANCODE_LEFT_ALT \<or> is SCANCODE_RIGHT_ALT then s\<lparr>g_alt_held := \<not> is_released\<rparr>
         else if is SCANCODE_CAPS_LOCK \<and> \<not> is_released then s\<lparr>g_caps_locked := \<not> g_caps_locked s\<rparr>
         else s)"

text \<open>\<open>ev\<close> is the address of the local variable \<open>event\<close>.\<close>

definition handle_scancode :: "u32 \<Rightarrow> u16 \<Rightarrow> bool \<Rightarrow> kbd_state \<times> mem \<Rightarrow> (kbd_state \<times> mem) res" where
  "handle_scancode ev raw_scancode extended = (\<lambda>(s, m).
     let is_released = (raw_scancode AND RELEASED_SCANCODE_MASK \<noteq> 0);
         key = ucast (raw_scancode AND NOT RELEASED_SCANCODE_MASK) :: u8;
         scancode_prefix = push_bit 8 (if extended then EXTENDED_SCANCODE_PREFIX else 0x00) :: u16;
         extended_scancode = scancode_prefix OR ucast key;
         s1 = handle_modifiers extended_scancode is_released s;
         m1 = store_event ev \<lparr>keycode = key, scancode = ucast extended_scancode,
                is_pressed = (\<not> is_released), shift_held = g_shift_held s1,
                ctrl_held = g_ctrl_held s1, alt_held = g_alt_held s1, caps_locked = g_caps_locked s1\<rparr> m
     in bindR (cyclic_buffer_push (Some (g_keyboard_buffer s1)) ev m1) (\<lambda>(_, b, m2).
          case b of Some b \<Rightarrow> ret (s1\<lparr>g_keyboard_buffer := b\<rparr>, m2) | None \<Rightarrow> undef ''cb''))"

partial_function (option) keyboard_handler ::
  "device \<Rightarrow> u32 \<Rightarrow> kbd_state \<times> mem \<times> io \<Rightarrow> (kbd_state \<times> mem \<times> io) res" where
  "keyboard_handler dev ev st =
     (case st of (s, m, tr) \<Rightarrow>
        (case inb dev PS2_STATUS_PORT tr of (status, tr1) \<Rightarrow>
           if status AND PS2_STATUS_OUTPUT_BUFFER_FULL = 0 then ret (s, m, tr1)
           else
             (case inb dev PS2_DATA_PORT tr1 of (code, tr2) \<Rightarrow>
                if code = EXTENDED_SCANCODE_PREFIX then ret (s\<lparr>g_extended_pending := True\<rparr>, m, tr2)
                else
                  (case handle_scancode ev (ucast code) (g_extended_pending s)
                          (s\<lparr>g_extended_pending := False\<rparr>, m) of
                     None \<Rightarrow> None
                   | Some (Inl e) \<Rightarrow> Some (Inl e)
                   | Some (Inr (s1, m1)) \<Rightarrow> keyboard_handler dev ev (s1, m1, tr2)))))"

declare keyboard_handler.simps [code]

definition keyboard_has_event :: "kbd_state \<Rightarrow> bool" where
  "keyboard_has_event s = (\<not> cyclic_buffer_is_empty (Some (g_keyboard_buffer s)))"

definition keyboard_get_event :: "u32 \<Rightarrow> kbd_state \<times> mem \<Rightarrow> (bool \<times> kbd_state \<times> mem) res" where
  "keyboard_get_event p = (\<lambda>(s, m).
     if \<not> keyboard_has_event s then ret (False, s, m)
     else bindR (cyclic_buffer_pop (Some (g_keyboard_buffer s)) p m) (\<lambda>(_, b, m1).
            case b of Some b \<Rightarrow> ret (True, s\<lparr>g_keyboard_buffer := b\<rparr>, m1) | None \<Rightarrow> undef ''cb''))"

text \<open>The result and, when the table was consulted, the character stored.\<close>

definition keyboard_scancode_to_ascii :: "keyboard_event_t \<Rightarrow> bool \<times> u8 option" where
  "keyboard_scancode_to_ascii event =
     (if scancode event \<ge> 128 then (False, None)
      else
        let ascii = (if shift_held event \<or> caps_locked event
                     then SCANCODE_TO_ASCII_SHIFT ! unat (scancode event)
                     else SCANCODE_TO_ASCII ! unat (scancode event))
        in (ascii \<noteq> 0, Some ascii))"

section \<open>The automaton\<close>

text \<open>
  The modifier state and the queue of events as a user sees them. A byte of 128 or more is the
  release of the key 128 below it; 0xE0 announces an extended key.
\<close>

record kbd_spec =
  ks_ext :: bool
  ks_caps :: bool
  ks_shift :: bool
  ks_ctrl :: bool
  ks_alt :: bool
  ks_queue :: "keyboard_event_t list"

definition ks_code :: "bool \<Rightarrow> u8 \<Rightarrow> nat" where
  "ks_code ext b = unat b mod 128 + (if ext then 0xE000 else 0)"

definition ks_mods :: "u8 \<Rightarrow> kbd_spec \<Rightarrow> kbd_spec" where
  "ks_mods b k =
     (let pressed = (unat b < 128); code = ks_code (ks_ext k) b
      in k\<lparr>ks_ext := False,
           ks_shift := (if code \<in> {0x2A, 0x36} then pressed else ks_shift k),
           ks_ctrl := (if code \<in> {0x1D, 0xE01D} then pressed else ks_ctrl k),
           ks_alt := (if code \<in> {0x38, 0xE038} then pressed else ks_alt k),
           ks_caps := (if code = 0x3A \<and> pressed then \<not> ks_caps k else ks_caps k)\<rparr>)"

definition ks_event :: "u8 \<Rightarrow> kbd_spec \<Rightarrow> keyboard_event_t" where
  "ks_event b k =
     (let k' = ks_mods b k
      in \<lparr>keycode = of_nat (unat b mod 128), scancode = of_nat (ks_code (ks_ext k) b),
          is_pressed = (unat b < 128), shift_held = ks_shift k', ctrl_held = ks_ctrl k',
          alt_held = ks_alt k', caps_locked = ks_caps k'\<rparr>)"

definition ks_step :: "u8 \<Rightarrow> kbd_spec \<Rightarrow> kbd_spec" where
  "ks_step b k = (ks_mods b k)\<lparr>ks_queue := bq_push 255 (ks_event b k) (ks_queue k)\<rparr>"

text \<open>One run of the handler: it stops after the prefix byte.\<close>

fun ks_run :: "u8 list \<Rightarrow> kbd_spec \<Rightarrow> kbd_spec" where
  "ks_run [] k = k"
| "ks_run (b # bs) k = (if b = 0xE0 then k\<lparr>ks_ext := True\<rparr> else ks_run bs (ks_step b k))"

definition kbd_abs :: "kbd_state \<Rightarrow> mem \<Rightarrow> kbd_spec" where
  "kbd_abs s m = \<lparr>ks_ext = g_extended_pending s, ks_caps = g_caps_locked s, ks_shift = g_shift_held s,
     ks_ctrl = g_ctrl_held s, ks_alt = g_alt_held s,
     ks_queue = map load_event (cb_queue (g_keyboard_buffer s) m)\<rparr>"

text \<open>
  What the driver relies on: the buffer is set up for 256 events, and the local event variable does
  not overlap it.
\<close>

definition kbd_inv :: "u32 \<Rightarrow> kbd_state \<Rightarrow> bool" where
  "kbd_inv ev s \<longleftrightarrow> cb_inv (g_keyboard_buffer s) \<and> capacity (g_keyboard_buffer s) = 256 \<and>
     element_size (g_keyboard_buffer s) = 16 \<and> cb_clear_of (g_keyboard_buffer s) ev"

section \<open>Events in memory\<close>

lemma load_store_event: "load_event (read_bytes (store_event p e m) p 16) = e"
  by (simp add: load_event_def store_event_def word_bytes)

lemma store_event_frame: "\<not> in_range p 16 x \<Longrightarrow> store_event p e m x = m x"
proof -
  assume "\<not> in_range p 16 x"
  then have "x \<noteq> p + of_nat i" if "i < 16" for i using in_range_offset [of i 16 p] that by auto
  from this [of 0] this [of 4] this [of 5] this [of 6] this [of 7] this [of 8] this [of 9]
    this [of 10] this [of 11] this [of 12]
  show ?thesis by (simp add: store_event_def)
qed

lemma cb_queue_frame:
  assumes inv: "cb_inv c"
    and same: "\<And>x. in_range (buffer c) (unat (capacity c) * unat (element_size c)) x \<Longrightarrow> m' x = m x"
  shows "cb_queue c m' = cb_queue c m"
proof -
  have "cb_elem c m' i = cb_elem c m i" if "i < unat (capacity c)" for i
    unfolding cb_elem_def
  proof (rule read_bytes_cong)
    fix j assume j: "j < unat (element_size c)"
    have "in_range (cb_slot c i) (unat (element_size c)) (cb_slot c i + of_nat j)"
      using j unat_u32_lt [of "element_size c"] by (intro in_range_offset) simp_all
    then show "m' (cb_slot c i + of_nat j) = m (cb_slot c i + of_nat j)"
      by (intro same cb_slot_in_range [OF inv that])
  qed
  moreover have "0 < unat (capacity c)" using inv by (simp add: cb_inv_def)
  ultimately show ?thesis unfolding cb_queue_def by (intro nth_equalityI) simp_all
qed

lemma map_bq_push: "map f (bq_push n x q) = bq_push n (f x) (map f q)"
  unfolding bq_push_def drop_map [symmetric] by simp

section \<open>The driver implements the automaton\<close>

lemma scancode_split:
  fixes b :: u8
  defines "raw \<equiv> ucast b :: u16"
  shows "raw AND 0x80 \<noteq> 0 \<longleftrightarrow> 128 \<le> unat b"
    and "(ucast (raw AND NOT 0x80) :: u8) = of_nat (unat b mod 128)"
    and "unat (push_bit 8 (if ext then 0xE0 else 0x00) OR ucast (of_nat (unat b mod 128) :: u8) :: u16)
      = ks_code ext b"
proof -
  have e: "(0x80 :: u16) = 2 ^ 7" by simp
  have "raw AND 0x80 \<noteq> 0 \<longleftrightarrow> bit raw 7" by (simp only: e and_exp_eq_0_iff_not_bit not_not)
  also have "\<dots> \<longleftrightarrow> bit (unat b) 7" by (simp add: raw_def bit_unsigned_iff)
  also have "\<dots> \<longleftrightarrow> odd (unat b div 128)" by (simp add: bit_iff_odd)
  also have "unat b div 128 = (if 128 \<le> unat b then 1 else 0)"
    using unat_u8_lt [of b] by (auto intro: div_nat_eqI)
  also have "odd (if 128 \<le> unat b then 1 else 0 :: nat) \<longleftrightarrow> 128 \<le> unat b" by simp
  finally show "raw AND 0x80 \<noteq> 0 \<longleftrightarrow> 128 \<le> unat b" .
  have "(of_nat (unat (b AND mask 7)) :: u8) = b AND mask 7" by simp
  then have m: "(of_nat (unat b mod 128) :: u8) = b AND mask 7" unfolding unat_and_mask by simp
  have "(ucast (raw AND NOT (push_bit k 1)) :: u8) = b AND mask k" if "k < 8" "\<forall>n < 8. n \<noteq> k \<longrightarrow> n < k" for k
    by (rule bit_word_eqI) (use that in \<open>auto simp: raw_def bit_simps\<close>)
  from this [of 7] show "(ucast (raw AND NOT 0x80) :: u8) = of_nat (unat b mod 128)" by (simp add: m)
  have u: "unat (ucast (of_nat (unat b mod 128) :: u8) :: u16) = unat b mod 128"
    by (simp add: m unat_ucast_up unat_and_mask)
  have "push_bit 8 (if ext then 0xE0 else 0x00) AND (ucast (of_nat (unat b mod 128) :: u8) :: u16) = 0"
    by (rule bit_word_eqI) (auto simp: bit_simps)
  then have "push_bit 8 (if ext then 0xE0 else 0x00) OR (ucast (of_nat (unat b mod 128) :: u8) :: u16)
     = push_bit 8 (if ext then 0xE0 else 0x00) + ucast (of_nat (unat b mod 128) :: u8)"
    by (simp add: disjunctive_add_eq_or)
  then show "unat (push_bit 8 (if ext then 0xE0 else 0x00) OR ucast (of_nat (unat b mod 128) :: u8) :: u16)
      = ks_code ext b" 
    using u by (simp add: unat_word_ariths ks_code_def push_bit_eq_mult)
qed

text \<open>The code's modifier update, read on the automaton's codes.\<close>

lemma handle_modifiers_fields:
  assumes "unat code = n"
  shows "g_shift_held (handle_modifiers code r s) = (if n \<in> {0x2A, 0x36} then \<not> r else g_shift_held s)"
    and "g_ctrl_held (handle_modifiers code r s) = (if n \<in> {0x1D, 0xE01D} then \<not> r else g_ctrl_held s)"
    and "g_alt_held (handle_modifiers code r s) = (if n \<in> {0x38, 0xE038} then \<not> r else g_alt_held s)"
    and "g_caps_locked (handle_modifiers code r s) =
      (if n = 0x3A \<and> \<not> r then \<not> g_caps_locked s else g_caps_locked s)"
    and "g_extended_pending (handle_modifiers code r s) = g_extended_pending s"
    and "g_keyboard_buffer (handle_modifiers code r s) = g_keyboard_buffer s"
  using assms
  by (simp_all add: handle_modifiers_def)

lemma handle_scancode_refines:
  assumes inv: "kbd_inv ev s"
  shows "\<exists>s' m'. handle_scancode ev (ucast b) (g_extended_pending s) (s\<lparr>g_extended_pending := False\<rparr>, m)
      = ret (s', m') \<and> kbd_inv ev s' \<and> kbd_abs s' m' = ks_step b (kbd_abs s m) \<and>
    cb_same (g_keyboard_buffer s) (g_keyboard_buffer s')"
proof -
  let ?k = "kbd_abs s m" and ?c = "g_keyboard_buffer s"
  define code where "code = (push_bit 8 (if g_extended_pending s then 0xE0 else 0x00) OR
     ucast (of_nat (unat b mod 128) :: u8) :: u16)"
  define s1 where "s1 = handle_modifiers code (128 \<le> unat b) (s\<lparr>g_extended_pending := False\<rparr>)"
  define m1 where "m1 = store_event ev (ks_event b ?k) m"
  have code: "unat code = ks_code (ks_ext ?k) b"
    unfolding code_def by (simp only: scancode_split(3) kbd_abs_def kbd_spec.select_convs)
  define n where "n = ks_code (g_extended_pending s) b"
  have n: "unat code = n" "ks_code (ks_ext ?k) b = n" using code by (simp_all add: n_def kbd_abs_def)
  have k: "ks_shift ?k = g_shift_held s" "ks_ctrl ?k = g_ctrl_held s" "ks_alt ?k = g_alt_held s"
    "ks_caps ?k = g_caps_locked s" by (simp_all add: kbd_abs_def)
  have mods: "g_shift_held s1 = ks_shift (ks_mods b ?k)" "g_ctrl_held s1 = ks_ctrl (ks_mods b ?k)"
    "g_alt_held s1 = ks_alt (ks_mods b ?k)" "g_caps_locked s1 = ks_caps (ks_mods b ?k)"
    "g_extended_pending s1 = ks_ext (ks_mods b ?k)"
    unfolding s1_def handle_modifiers_fields [OF n(1)] ks_mods_def Let_def n(2) k
    by (simp_all add: not_le)
  have buf: "g_keyboard_buffer s1 = ?c" by (simp add: s1_def handle_modifiers_fields [OF code])
  have c: "cb_inv ?c" "cb_clear_of ?c ev" "unat (capacity ?c) = 256" "unat (element_size ?c) = 16"
    using inv by (simp_all add: kbd_inv_def)
  have q: "cb_queue ?c m1 = cb_queue ?c m"
  proof (rule cb_queue_frame [OF c(1)])
    fix x assume "in_range (buffer ?c) (unat (capacity ?c) * unat (element_size ?c)) x"
    then have "\<not> in_range ev 16 x"
      using c disjoint_ranges_in_range unfolding cb_clear_of_def by metis
    then show "m1 x = m x" unfolding m1_def by (rule store_event_frame)
  qed
  obtain c' m' where p: "cyclic_buffer_push (Some ?c) ev m1 = ret (True, Some c', m')" "cb_inv c'"
    "cb_same ?c c'" "cb_queue c' m' = bq_push 255 (read_bytes m1 ev 16) (cb_queue ?c m1)"
    by (rule cyclic_buffer_push_correct [OF c(1,2), of m1, unfolded c(3,4)]) simp
  have ev: "ks_event b ?k = \<lparr>keycode = of_nat (unat b mod 128), scancode = ucast code,
      is_pressed = (\<not> 128 \<le> unat b), shift_held = g_shift_held s1, ctrl_held = g_ctrl_held s1,
      alt_held = g_alt_held s1, caps_locked = g_caps_locked s1\<rparr>"
    unfolding ks_event_def Let_def mods code [symmetric] by (simp add: not_le)
  have run: "handle_scancode ev (ucast b) (g_extended_pending s) (s\<lparr>g_extended_pending := False\<rparr>, m)
      = ret (s1\<lparr>g_keyboard_buffer := c'\<rparr>, m')"
    unfolding handle_scancode_def Let_def EXTENDED_SCANCODE_PREFIX_def RELEASED_SCANCODE_MASK_def scancode_split(1,2) code_def [symmetric] prod.case
      s1_def [symmetric] ev [symmetric] m1_def [symmetric] buf p(1) by simp
  have "kbd_inv ev (s1\<lparr>g_keyboard_buffer := c'\<rparr>)"
    using inv p(2,3) cb_same_clear [OF p(3)] by (simp add: kbd_inv_def cb_same_def)
  moreover have "ks_queue ?k = map load_event (cb_queue ?c m)" by (simp add: kbd_abs_def)
  then have "map load_event (cb_queue c' m') = bq_push 255 (ks_event b ?k) (ks_queue ?k)"
    unfolding p(4) q map_bq_push unfolding m1_def load_store_event by simp
  then have "kbd_abs (s1\<lparr>g_keyboard_buffer := c'\<rparr>) m' = ks_step b ?k"
    by (intro kbd_spec.equality)
      (simp_all add: kbd_abs_def [of "s1\<lparr>g_keyboard_buffer := c'\<rparr>"] ks_step_def mods)
  ultimately show ?thesis using run p(3) by auto
qed

text \<open>
  A device that has the bytes \<open>bs\<close> ready: each status read before one of them has bit 0 set and
  the data read gives the byte; after the last one, or after a prefix byte has ended the handler,
  the status bit is clear or not looked at.
\<close>

fun delivers :: "device \<Rightarrow> io \<Rightarrow> u8 list \<Rightarrow> bool" where
  "delivers dev tr [] \<longleftrightarrow> dev tr PS2_STATUS_PORT AND 1 = 0"
| "delivers dev tr (b # bs) \<longleftrightarrow>
     (let tr1 = tr @ [In PS2_STATUS_PORT (dev tr PS2_STATUS_PORT)]; tr2 = tr1 @ [In PS2_DATA_PORT b]
      in dev tr PS2_STATUS_PORT AND 1 \<noteq> 0 \<and> dev tr1 PS2_DATA_PORT = b \<and>
         (b = 0xE0 \<or> delivers dev tr2 bs))"

lemma keyboard_handler_run:
  assumes "kbd_inv ev s" and "delivers dev tr bs"
  shows "\<exists>s' m' tr'. keyboard_handler dev ev (s, m, tr) = ret (s', m', tr') \<and> kbd_inv ev s' \<and>
    kbd_abs s' m' = ks_run bs (kbd_abs s m) \<and> cb_same (g_keyboard_buffer s) (g_keyboard_buffer s')"
  using assms
proof (induction bs arbitrary: s m tr)
  case Nil
  then show ?case by (subst keyboard_handler.simps) (simp add: inb_def Let_def cb_same_def)
next
  case (Cons b bs)
  let ?tr = "tr @ [In PS2_STATUS_PORT (dev tr PS2_STATUS_PORT), In PS2_DATA_PORT b]"
  have d: "dev tr PS2_STATUS_PORT AND 1 \<noteq> 0" "b = 0xE0 \<or> delivers dev ?tr bs"
    "dev (tr @ [In PS2_STATUS_PORT (dev tr PS2_STATUS_PORT)]) PS2_DATA_PORT = b"
    using Cons.prems(2) by (simp_all add: Let_def)
  show ?case
  proof (cases "b = 0xE0")
    case True
    then show ?thesis using d Cons.prems(1)
      by (subst keyboard_handler.simps) (simp add: inb_def Let_def kbd_inv_def kbd_abs_def cb_same_def)
  next
    case False
    obtain s1 m1 where s1: "handle_scancode ev (ucast b) (g_extended_pending s)
        (s\<lparr>g_extended_pending := False\<rparr>, m) = ret (s1, m1)" "kbd_inv ev s1"
      "kbd_abs s1 m1 = ks_step b (kbd_abs s m)" "cb_same (g_keyboard_buffer s) (g_keyboard_buffer s1)"
      using handle_scancode_refines [OF Cons.prems(1)] by blast
    have "keyboard_handler dev ev (s, m, tr) = keyboard_handler dev ev (s1, m1, ?tr)"
      using d(1,3) False s1(1) by (subst keyboard_handler.simps) (simp add: inb_def Let_def)
    then show ?thesis using Cons.IH [OF s1(2), of ?tr m1] d(2) False s1(3,4) by (auto simp: cb_same_def)
  qed
qed

section \<open>Taking events\<close>

text \<open>\<open>keyboard_get_event\<close> hands out the oldest event, as the handler recorded it, and removes it
  from the queue; without events it returns false and changes nothing.\<close>

lemma keyboard_get_event_correct:
  assumes "kbd_inv ev s" and "cb_clear_of (g_keyboard_buffer s) p"
  shows "case ks_queue (kbd_abs s m) of
      [] \<Rightarrow> keyboard_get_event p (s, m) = ret (False, s, m)
    | e # es \<Rightarrow> \<exists>s' m'. keyboard_get_event p (s, m) = ret (True, s', m') \<and> kbd_inv ev s' \<and>
        load_event (read_bytes m' p 16) = e \<and> kbd_abs s' m' = (kbd_abs s m)\<lparr>ks_queue := es\<rparr>"
proof -
  let ?c = "g_keyboard_buffer s"
  have c: "cb_inv ?c" "unat (element_size ?c) = 16" using assms by (simp_all add: kbd_inv_def)
  have has: "keyboard_has_event s \<longleftrightarrow> cb_queue ?c m \<noteq> []"
    by (simp add: keyboard_has_event_def cyclic_buffer_is_empty_correct [OF c(1)])
  show ?thesis
  proof (cases "cb_queue ?c m")
    case Nil
    then show ?thesis using has by (simp add: kbd_abs_def keyboard_get_event_def)
  next
    case (Cons x xs)
    then have "cb_queue ?c m \<noteq> []" by simp
    then obtain c' m' where p: "cyclic_buffer_pop (Some ?c) p m = ret (True, Some c', m')" "cb_inv c'"
      "cb_same ?c c'" "cb_queue ?c m = read_bytes m' p 16 # cb_queue c' m'"
      by (rule cyclic_buffer_pop_correct [OF c(1) assms(2), unfolded c(2)])
    have "keyboard_get_event p (s, m) = ret (True, s\<lparr>g_keyboard_buffer := c'\<rparr>, m')"
      using has Cons p(1) by (simp add: keyboard_get_event_def)
    moreover have "kbd_inv ev (s\<lparr>g_keyboard_buffer := c'\<rparr>)"
      using assms(1) p(2,3) cb_same_clear [OF p(3)] by (simp add: kbd_inv_def cb_same_def)
    ultimately show ?thesis using p(4) by (simp add: kbd_abs_def)
  qed
qed

section \<open>Properties\<close>

text \<open>The keyboard of the witnesses, and a controller that holds Shift, \<open>a\<close>, release of Shift.\<close>

definition demo_kbd :: kbd_state where
  "demo_kbd = \<lparr>g_keyboard_buffer = \<lparr>buffer = 0x1000, head = 0, tail = 0, capacity = 256, element_size = 16\<rparr>,
     g_extended_pending = False, g_caps_locked = False, g_shift_held = False, g_ctrl_held = False,
     g_alt_held = False\<rparr>"

definition demo_ps2 :: device where
  "demo_ps2 tr port =
     (if port = PS2_STATUS_PORT then (if length tr < 6 then 1 else 0)
      else [0x2A, 0x1E, 0xAA] ! (length tr div 2))"

lemma demo_kbd_inv: "kbd_inv 0x8000 demo_kbd"
proof -
  have "disjoint_ranges 0x1000 4096 0x8000 16" by (rule disjoint_rangesI) simp_all
  then show ?thesis by (simp add: kbd_inv_def demo_kbd_def cb_inv_def cb_clear_of_def disjoint_ranges_sym)
qed

lemma demo_ps2_delivers: "delivers demo_ps2 [] [0x2A, 0x1E, 0xAA]"
  by (simp add: demo_ps2_def PS2_STATUS_PORT_def PS2_DATA_PORT_def)

text \<open>C23. The keyboard interrupt handler implements the scan code automaton: for every sequence of
  bytes the controller holds, the handler returns, and modifiers, prefix state and event queue are
  those of the automaton run on the bytes; the oldest events are dropped beyond 255.\<close>

theorem keyboard_handler_refines:
  assumes "kbd_inv ev s" and "delivers dev tr bs"
  shows "\<exists>s' m' tr'. keyboard_handler dev ev (s, m, tr) = ret (s', m', tr') \<and> kbd_inv ev s' \<and>
    kbd_abs s' m' = ks_run bs (kbd_abs s m)"
  using keyboard_handler_run [OF assms] by blast

theorem keyboard_handler_refines_witness:
  "\<exists>s' m' tr'. keyboard_handler demo_ps2 0x8000 (demo_kbd, \<lambda>_. 0, []) = ret (s', m', tr') \<and>
    map (\<lambda>e. (scancode e, is_pressed e, shift_held e)) (ks_queue (kbd_abs s' m'))
      = [(0x2A, True, True), (0x1E, True, True), (0x2A, False, False)]"
proof -
  have "kbd_abs demo_kbd (\<lambda>_. 0) = \<lparr>ks_ext = False, ks_caps = False, ks_shift = False, ks_ctrl = False,
      ks_alt = False, ks_queue = []\<rparr>"
    by (simp add: kbd_abs_def demo_kbd_def cb_queue_def ring_def ring_len_def)
  then have "map (\<lambda>e. (scancode e, is_pressed e, shift_held e)) (ks_queue (ks_run [0x2A, 0x1E, 0xAA] (kbd_abs demo_kbd (\<lambda>_. 0))))
      = [(0x2A, True, True), (0x1E, True, True), (0x2A, False, False)]"
    by (simp add: ks_step_def ks_mods_def ks_event_def ks_code_def Let_def bq_push_def)
  then show ?thesis
    using keyboard_handler_refines [OF demo_kbd_inv demo_ps2_delivers, of "\<lambda>_. 0"] by (metis (no_types, lifting))
qed

text \<open>\<open>keyboard_init\<close> makes the driver ready: with the event array at a valid address the queue
  is empty and set up for the handler, the handler is the one run for interrupt line 1 and the other
  lines keep theirs, and line 1 is enabled in the mask without touching the other lines.\<close>

lemma keyboard_init_ready:
  assumes "idt_inv t" and "events \<noteq> NULL" and "unat events + 4096 \<le> 4294967296"
    and "ev \<noteq> NULL" and "disjoint_ranges ev 16 events 4096"
  shows "\<exists>s' t' v. keyboard_init dev h events (s, t, tr) =
      ret (s', t', tr @ [In PIC1_DATA (dev tr PIC1_DATA), Out PIC1_DATA v]) \<and>
    kbd_inv ev s' \<and> idt_inv t' \<and> ks_queue (kbd_abs s' m) = [] \<and>
    g_irq_handlers t' = (g_irq_handlers t)[1 := Some h] \<and>
    (\<forall>i < 8. bit v i = (i \<noteq> 1 \<and> bit (dev tr PIC1_DATA) i))"
proof -
  define b where "b = \<lparr>buffer = events, head = 0, tail = 0, capacity = 256, element_size = 16\<rparr>"
  define t' where "t' = t\<lparr>g_irq_handlers := (g_irq_handlers t)[1 := Some h]\<rparr>"
  define v where "v = dev tr PIC1_DATA AND ucast (NOT (push_bit 1 1) :: u32)"
  have "cyclic_buffer_init (Some (g_keyboard_buffer s)) events 256 16 = (True, Some b)"
    using assms(2) by (simp add: cyclic_buffer_init_def b_def)
  moreover have "irq_install 1 (Some h) t = ret t'"
    using assms(1) by (simp add: irq_install_def idt_inv_def t'_def)
  moreover have "pic_clear_mask dev 1 tr = ret (v, tr @ [In PIC1_DATA (dev tr PIC1_DATA), Out PIC1_DATA v])"
    by (simp add: pic_clear_mask_def pic_line_def inb_def outb_def Let_def v_def)
  ultimately have "keyboard_init dev h events (s, t, tr) =
      ret (s\<lparr>g_keyboard_buffer := b\<rparr>, t', tr @ [In PIC1_DATA (dev tr PIC1_DATA), Out PIC1_DATA v])"
    by (simp add: keyboard_init_def KEYBOARD_BUFFER_SIZE_def sizeof_keyboard_event_t_def)
  moreover have "kbd_inv ev (s\<lparr>g_keyboard_buffer := b\<rparr>)"
    using assms by (simp add: kbd_inv_def cb_inv_def cb_clear_of_def b_def)
  moreover have "ks_queue (kbd_abs (s\<lparr>g_keyboard_buffer := b\<rparr>) m) = []"
    by (simp add: kbd_abs_def b_def cb_queue_def ring_def ring_len_def)
  moreover have "idt_inv t'" using assms(1) by (simp add: t'_def idt_inv_def)
  moreover have "bit v i = (i \<noteq> 1 \<and> bit (dev tr PIC1_DATA) i)" if "i < 8" for i
    using bit_not_line [OF that, of 1] by (auto simp: v_def bit_and_iff)
  ultimately show ?thesis by (auto simp: t'_def)
qed

lemma ascii_of_key:
  assumes "scancode e = of_nat n" and "n < 128"
  shows "keyboard_scancode_to_ascii e =
    (let ascii = (if shift_held e \<or> caps_locked e then SCANCODE_TO_ASCII_SHIFT else SCANCODE_TO_ASCII) ! n
     in (ascii \<noteq> 0, Some ascii))"
proof -
  have "unat (scancode e) = n" using assms by (simp add: unat_of_nat_u32)
  then show ?thesis using assms(2) by (simp add: keyboard_scancode_to_ascii_def Let_def word_le_nat_alt)
qed

lemma letter_nonzero:
  assumes "i < 26"
  shows "65 + of_nat i \<noteq> (0 :: u8)" and "97 + of_nat i \<noteq> (0 :: u8)"
proof -
  have "unat (of_nat (65 + i) :: u8) = 65 + i" "unat (of_nat (97 + i) :: u8) = 97 + i"
    using assms by (simp_all only: unat_of_nat) (simp_all add: take_bit_eq_mod)
  then show "65 + of_nat i \<noteq> (0 :: u8)" "97 + of_nat i \<noteq> (0 :: u8)" by (auto simp del: unat_of_nat)
qed

text \<open>C24. Translation to ASCII: the key of the \<open>i\<close>-th letter gives the lower-case letter, and the
  upper-case one under Shift or Caps Lock. Space, Enter, Tab and Backspace give their character only
  without both: under Shift or Caps Lock the function reports that there is none.\<close>

theorem keyboard_ascii_keys:
  "(\<forall>i < 26. scancode e = of_nat (scancode_value (letter_keys ! i)) \<longrightarrow>
      keyboard_scancode_to_ascii e =
        (True, Some ((if shift_held e \<or> caps_locked e then 65 else 97) + of_nat i))) \<and>
   (\<forall>(k, ch) \<in> {(SCANCODE_SPACE, 32), (SCANCODE_ENTER, 10), (SCANCODE_TAB, 9), (SCANCODE_BACKSPACE, 8)}.
      scancode e = of_nat (scancode_value k) \<longrightarrow>
        keyboard_scancode_to_ascii e =
          (if shift_held e \<or> caps_locked e then (False, Some 0) else (True, Some ch)))"
proof (intro conjI allI impI)
  fix i :: nat
  assume i: "i < 26" and e: "scancode e = of_nat (scancode_value (letter_keys ! i))"
  have "scancode_value (letter_keys ! i) < 128 \<and>
      SCANCODE_TO_ASCII ! scancode_value (letter_keys ! i) = 97 + of_nat i \<and>
      SCANCODE_TO_ASCII_SHIFT ! scancode_value (letter_keys ! i) = 65 + of_nat i"
    using list_all2_nthD2 [OF letter_keys_ascii, of i] i by simp
  then show "keyboard_scancode_to_ascii e =
      (True, Some ((if shift_held e \<or> caps_locked e then 65 else 97) + of_nat i))"
    using ascii_of_key [OF e] letter_nonzero [OF i] by (simp add: Let_def)
next
  show "\<forall>(k, ch) \<in> {(SCANCODE_SPACE, 32), (SCANCODE_ENTER, 10), (SCANCODE_TAB, 9), (SCANCODE_BACKSPACE, 8)}.
      scancode e = of_nat (scancode_value k) \<longrightarrow> keyboard_scancode_to_ascii e =
        (if shift_held e \<or> caps_locked e then (False, Some 0) else (True, Some ch))"
  proof (intro ballI)
    fix x assume x: "x \<in> {(SCANCODE_SPACE, 32 :: u8), (SCANCODE_ENTER, 10), (SCANCODE_TAB, 9), (SCANCODE_BACKSPACE, 8)}"
    obtain k ch where kc: "x = (k, ch)" by (rule prod.exhaust)
    have "scancode_value k < 128" "SCANCODE_TO_ASCII ! scancode_value k = ch"
      "SCANCODE_TO_ASCII_SHIFT ! scancode_value k = 0" "ch \<noteq> 0"
      using blank_keys_ascii x kc by auto
    then show "case x of (k, ch) \<Rightarrow> scancode e = of_nat (scancode_value k) \<longrightarrow> keyboard_scancode_to_ascii e =
        (if shift_held e \<or> caps_locked e then (False, Some 0) else (True, Some ch))"
      using ascii_of_key [of e "scancode_value k"] kc by (simp add: Let_def)
  qed
qed

theorem keyboard_ascii_keys_witness:
  "keyboard_scancode_to_ascii \<lparr>keycode = 0x10, scancode = 0x10, is_pressed = True, shift_held = True,
     ctrl_held = False, alt_held = False, caps_locked = False\<rparr> = (True, Some 81)"
  using keyboard_ascii_keys [of "\<lparr>keycode = 0x10, scancode = 0x10, is_pressed = True, shift_held = True,
     ctrl_held = False, alt_held = False, caps_locked = False\<rparr>"]
  by (auto simp: letter_keys_def dest: spec [of _ 16])

end
