(* ===== verification/VMM.thy ===== *)
theory VMM
  imports PMM_Props Interrupts
begin

text \<open>
  \<^verbatim>\<open>kernel/src/lib/memory/vmm.c\<close>: 32-bit paging. The page directory, the identity table and
  the page tables are words of physical memory; every access the code makes to them goes through
  the processor's own address translation, which walks the same words. The processor's TLB is part
  of the state. An access to an address that is not mapped raises a page fault inside the memory
  manager itself; the model stops there.
\<close>

section \<open>The processor\<close>

text \<open>
  \<open>tlb\<close> maps the numbers of virtual pages to the frames the processor may still have cached. The
  processor's setting of accessed and dirty bits, which no code reads, is left out.
\<close>

record vm_state =
  phys :: mem
  cr0 :: u32
  cr3 :: u32
  tlb :: "u32 \<rightharpoonup> u32"

definition frame_of :: "u32 \<Rightarrow> u32" where
  "frame_of w = w AND NOT 0xFFF"

text \<open>Entry \<open>i\<close> of the table of 1024 words at \<open>base\<close>.\<close>

definition slot_addr :: "u32 \<Rightarrow> u32 \<Rightarrow> u32" where
  "slot_addr base i = base + 4 * i"

definition entry_at :: "mem \<Rightarrow> u32 \<Rightarrow> u32 \<Rightarrow> u32" where
  "entry_at m base i = rd32 m (slot_addr base i)"

definition dir_index :: "u32 \<Rightarrow> u32" where
  "dir_index va = drop_bit 22 va AND 0x3FF"

definition table_index :: "u32 \<Rightarrow> u32" where
  "table_index va = drop_bit 12 va AND 0x3FF"

definition walk :: "vm_state \<Rightarrow> u32 \<Rightarrow> u32 option" where
  "walk s va =
     (let pde = entry_at (phys s) (frame_of (cr3 s)) (dir_index va)
      in if \<not> bit pde 0 then None
         else
           let pte = entry_at (phys s) (frame_of pde) (table_index va)
           in if \<not> bit pte 0 then None else Some (frame_of pte OR (va AND 0xFFF)))"

definition translate :: "vm_state \<Rightarrow> u32 \<Rightarrow> u32 option" where
  "translate s va = (if bit (cr0 s) 31 then walk s va else Some va)"

definition vm_read :: "u32 \<Rightarrow> vm_state \<Rightarrow> u32 res" where
  "vm_read va s =
     (case translate s va of None \<Rightarrow> undef ''page fault'' | Some pa \<Rightarrow> ret (rd32 (phys s) pa))"

definition vm_write :: "u32 \<Rightarrow> u32 \<Rightarrow> vm_state \<Rightarrow> vm_state res" where
  "vm_write va v s =
     (case translate s va of None \<Rightarrow> undef ''page fault'' | Some pa \<Rightarrow> ret (s\<lparr>phys := wr32 pa v (phys s)\<rparr>))"

text \<open>\<open>kmemset\<close> of bytes that lie inside one page: one translation covers them all.\<close>

definition vm_memset :: "u32 \<Rightarrow> u8 \<Rightarrow> u32 \<Rightarrow> vm_state \<Rightarrow> vm_state res" where
  "vm_memset va v sz s =
     (if va = NULL then ret s
      else
        case translate s va of
          None \<Rightarrow> undef ''page fault''
        | Some pa \<Rightarrow> ret (s\<lparr>phys := kmemset_loop (unat sz) pa v (phys s)\<rparr>))"

section \<open>Entries\<close>

record pde_t =
  d_present :: bool
  d_rw :: bool
  d_user :: bool
  d_write_through :: bool
  d_cache_disabled :: bool
  d_accessed :: bool
  d_avl_1 :: bool
  d_page_size :: bool
  d_avl_2 :: "4 word"
  d_address :: "20 word"

record pte_t =
  t_present :: bool
  t_rw :: bool
  t_user :: bool
  t_write_through :: bool
  t_cache_disabled :: bool
  t_accessed :: bool
  t_dirty :: bool
  t_pat :: bool
  t_global :: bool
  t_avl :: "3 word"
  t_address :: "20 word"

text \<open>The eight or nine flags of an entry, lowest bit first.\<close>

definition flag_word :: "bool list \<Rightarrow> u32" where
  "flag_word bs = horner_sum of_bool 2 bs"

definition pde_word :: "pde_t \<Rightarrow> u32" where
  "pde_word e = flag_word [d_present e, d_rw e, d_user e, d_write_through e, d_cache_disabled e,
       d_accessed e, d_avl_1 e, d_page_size e]
     OR push_bit 8 (ucast (d_avl_2 e)) OR push_bit 12 (ucast (d_address e))"

definition word_pde :: "u32 \<Rightarrow> pde_t" where
  "word_pde w = \<lparr>d_present = bit w 0, d_rw = bit w 1, d_user = bit w 2, d_write_through = bit w 3,
     d_cache_disabled = bit w 4, d_accessed = bit w 5, d_avl_1 = bit w 6, d_page_size = bit w 7,
     d_avl_2 = ucast (drop_bit 8 w), d_address = ucast (drop_bit 12 w)\<rparr>"

definition pte_word :: "pte_t \<Rightarrow> u32" where
  "pte_word e = flag_word [t_present e, t_rw e, t_user e, t_write_through e, t_cache_disabled e,
       t_accessed e, t_dirty e, t_pat e, t_global e]
     OR push_bit 9 (ucast (t_avl e)) OR push_bit 12 (ucast (t_address e))"

definition word_pte :: "u32 \<Rightarrow> pte_t" where
  "word_pte w = \<lparr>t_present = bit w 0, t_rw = bit w 1, t_user = bit w 2, t_write_through = bit w 3,
     t_cache_disabled = bit w 4, t_accessed = bit w 5, t_dirty = bit w 6, t_pat = bit w 7,
     t_global = bit w 8, t_avl = ucast (drop_bit 9 w), t_address = ucast (drop_bit 12 w)\<rparr>"

section \<open>The manager\<close>

definition VMM_FLAG_PRESENT :: u32 where "VMM_FLAG_PRESENT = push_bit 0 1"
definition VMM_FLAG_RW :: u32 where "VMM_FLAG_RW = push_bit 1 1"
definition VMM_FLAG_USER :: u32 where "VMM_FLAG_USER = push_bit 2 1"
definition VMM_FLAG_WRITE_THROUGH :: u32 where "VMM_FLAG_WRITE_THROUGH = push_bit 3 1"
definition VMM_FLAG_CACHE_DISABLED :: u32 where "VMM_FLAG_CACHE_DISABLED = push_bit 4 1"
definition VMM_FLAG_GLOBAL :: u32 where "VMM_FLAG_GLOBAL = push_bit 8 1"

definition KERNEL_VIRTUAL_BASE :: u32 where
  "KERNEL_VIRTUAL_BASE = 0xC0000000"

definition PAGE_ENTRIES :: nat where
  "PAGE_ENTRIES = 1024"

definition virtual_to_physical :: "u32 \<Rightarrow> u32" where
  "virtual_to_physical virtual_address = virtual_address - KERNEL_VIRTUAL_BASE"

definition physical_to_virtual :: "u32 \<Rightarrow> u32" where
  "physical_to_virtual physical_address = physical_address + KERNEL_VIRTUAL_BASE"

definition enable_paging :: "vm_state \<Rightarrow> vm_state" where
  "enable_paging s = s\<lparr>cr0 := cr0 s OR 0x80000000\<rparr>"

text \<open>Loading CR3 drops what the TLB holds.\<close>

definition load_page_directory :: "u32 \<Rightarrow> vm_state \<Rightarrow> vm_state" where
  "load_page_directory pd_physical s = s\<lparr>cr3 := pd_physical, tlb := Map.empty\<rparr>"

definition flush_tlb_entry :: "u32 \<Rightarrow> vm_state \<Rightarrow> vm_state" where
  "flush_tlb_entry virtual_address s = s\<lparr>tlb := (tlb s)(drop_bit 12 virtual_address := None)\<rparr>"

text \<open>
  \<open>pd\<close> is the address of the static array \<open>g_page_directories\<close>, \<open>idt\<close> that of
  \<open>g_identity_table\<close>; the result is the address of the entry or NULL. An assignment to a bit
  field reads and writes the whole word.
\<close>

definition get_or_create_pte ::
  "u32 \<Rightarrow> u32 \<Rightarrow> u32 \<Rightarrow> vm_state \<times> pmm_state \<Rightarrow> (u32 \<times> vm_state \<times> pmm_state) res" where
  "get_or_create_pte pd virtual_address flags = (\<lambda>(s, p).
     let pde_index = drop_bit 22 virtual_address AND 0x3FF;
         pte_index = drop_bit 12 virtual_address AND 0x3FF;
         directory_entry = pd + 4 * pde_index
     in bindR (vm_read directory_entry s) (\<lambda>w.
          if d_present (word_pde w)
          then
            let pt_physical = push_bit 12 (ucast (d_address (word_pde w)));
                pt_virtual = physical_to_virtual pt_physical
            in ret (pt_virtual + 4 * pte_index, s, p)
          else
            bindR (pmm_alloc_pages 1 p) (\<lambda>(physical_page, p1).
              if physical_page = NULL then ret (NULL, s, p1)
              else
                let pt_virtual = physical_to_virtual physical_page
                in bindR (vm_memset pt_virtual 0 PAGE_SIZE s) (\<lambda>s1.
                   bindR (vm_read directory_entry s1) (\<lambda>w1.
                   let entry = (word_pde w1)\<lparr>
                         d_address := ucast (drop_bit 12 physical_page),
                         d_present := True,
                         d_rw := (flags AND VMM_FLAG_RW \<noteq> 0),
                         d_user := (flags AND VMM_FLAG_USER \<noteq> 0),
                         d_write_through := (flags AND VMM_FLAG_WRITE_THROUGH \<noteq> 0),
                         d_cache_disabled := (flags AND VMM_FLAG_CACHE_DISABLED \<noteq> 0)\<rparr>
                   in bindR (vm_write directory_entry (pde_word entry) s1) (\<lambda>s2.
                      ret (pt_virtual + 4 * pte_index, s2, p1)))))))"

text \<open>One iteration of the loop that fills the identity table.\<close>

definition identity_entry :: "u32 \<Rightarrow> nat \<Rightarrow> vm_state \<Rightarrow> vm_state res" where
  "identity_entry identity_physical i s =
     (let a = identity_physical + 4 * of_nat i
      in bindR (vm_read a s) (\<lambda>w.
         vm_write a (pte_word ((word_pte w)\<lparr>
           t_address := ucast (drop_bit 12 (of_nat i * PAGE_SIZE)), t_present := True, t_rw := True\<rparr>)) s))"

fun identity_loop :: "u32 \<Rightarrow> nat list \<Rightarrow> vm_state \<Rightarrow> vm_state res" where
  "identity_loop identity_physical [] s = ret s"
| "identity_loop identity_physical (i # is) s =
     bindR (identity_entry identity_physical i s) (identity_loop identity_physical is)"

definition set_directory_entry :: "u32 \<Rightarrow> u32 \<Rightarrow> u32 \<Rightarrow> vm_state \<Rightarrow> vm_state res" where
  "set_directory_entry pd_physical i identity_physical s =
     (let a = pd_physical + 4 * i
      in bindR (vm_read a s) (\<lambda>w.
         vm_write a (pde_word ((word_pde w)\<lparr>
           d_address := ucast (drop_bit 12 identity_physical), d_present := True, d_rw := True\<rparr>)) s))"

definition vmm_preinit :: "u32 \<Rightarrow> u32 \<Rightarrow> vm_state \<Rightarrow> vm_state res" where
  "vmm_preinit pd idt s =
     (let pd_physical = virtual_to_physical pd;
          identity_physical = virtual_to_physical idt
      in bindR (vm_memset pd_physical 0 4096 s) (\<lambda>s1.
         bindR (vm_memset identity_physical 0 4096 s1) (\<lambda>s2.
         bindR (identity_loop identity_physical [0..<PAGE_ENTRIES] s2) (\<lambda>s3.
         bindR (set_directory_entry pd_physical 0 identity_physical s3) (\<lambda>s4.
         bindR (set_directory_entry pd_physical (drop_bit 22 KERNEL_VIRTUAL_BASE) identity_physical s4) (\<lambda>s5.
         ret (enable_paging (load_page_directory pd_physical s5))))))))"

definition vmm_init :: "'h \<Rightarrow> 'h idt_state \<Rightarrow> 'h idt_state res" where
  "vmm_init h t = isr_install (exception_value EXCEPTION_PAGE_FAULT) (Some h) t"

definition vmm_map_page ::
  "u32 \<Rightarrow> u32 \<Rightarrow> u32 \<Rightarrow> u32 \<Rightarrow> vm_state \<times> pmm_state \<Rightarrow> (bool \<times> vm_state \<times> pmm_state) res" where
  "vmm_map_page pd virtual_address physical_address flags = (\<lambda>(s, p).
     if virtual_address mod PAGE_SIZE \<noteq> 0 \<or> physical_address mod PAGE_SIZE \<noteq> 0 then ret (False, s, p)
     else
       bindR (get_or_create_pte pd virtual_address flags (s, p)) (\<lambda>(entry, s1, p1).
         if entry = NULL then ret (False, s1, p1)
         else
           bindR (vm_read entry s1) (\<lambda>w.
             if t_present (word_pte w) then ret (False, s1, p1)
             else
               let e = (word_pte w)\<lparr>
                     t_address := ucast (drop_bit 12 physical_address),
                     t_present := (flags AND VMM_FLAG_PRESENT \<noteq> 0),
                     t_rw := (flags AND VMM_FLAG_RW \<noteq> 0),
                     t_user := (flags AND VMM_FLAG_USER \<noteq> 0),
                     t_write_through := (flags AND VMM_FLAG_WRITE_THROUGH \<noteq> 0),
                     t_cache_disabled := (flags AND VMM_FLAG_CACHE_DISABLED \<noteq> 0),
                     t_global := (flags AND VMM_FLAG_GLOBAL \<noteq> 0)\<rparr>
               in bindR (vm_write entry (pte_word e) s1) (\<lambda>s2.
                  ret (True, flush_tlb_entry virtual_address s2, p1)))))"

definition vmm_unmap_page :: "u32 \<Rightarrow> u32 \<Rightarrow> vm_state \<Rightarrow> (bool \<times> vm_state) res" where
  "vmm_unmap_page pd virtual_address s =
     (if virtual_address mod PAGE_SIZE \<noteq> 0 then ret (False, s)
      else
        let pde_index = drop_bit 22 virtual_address AND 0x3FF;
            pte_index = drop_bit 12 virtual_address AND 0x3FF
        in bindR (vm_read (pd + 4 * pde_index) s) (\<lambda>w.
             if \<not> d_present (word_pde w) then ret (False, s)
             else
               let pt_physical = push_bit 12 (ucast (d_address (word_pde w)));
                   entry = physical_to_virtual pt_physical + 4 * pte_index
               in bindR (vm_read entry s) (\<lambda>v.
                    if \<not> t_present (word_pte v) then ret (False, s)
                    else bindR (vm_memset entry 0 4 s) (\<lambda>s1.
                           ret (True, flush_tlb_entry virtual_address s1)))))"

definition vmm_page_fault_handler ::
  "u32 \<Rightarrow> isr_frame_t \<Rightarrow> vm_state \<times> pmm_state \<Rightarrow> (vm_state \<times> pmm_state) res" where
  "vmm_page_fault_handler pd frame = (\<lambda>(s, p).
     let faulting_address = cr2 frame; error_code = err_code frame
     in if error_code AND 1 = 0
        then
          let aligned_address = kalign_down faulting_address PAGE_SIZE
          in bindR (pmm_alloc_pages 1 p) (\<lambda>(physical_page, p1).
               if physical_page = NULL then panic ''Out of memory in page fault handler!'' []
               else
                 bindR (vmm_map_page pd aligned_address physical_page (VMM_FLAG_RW OR VMM_FLAG_PRESENT) (s, p1))
                   (\<lambda>(ok, s2, p2).
                     if \<not> ok
                     then bindR (pmm_free physical_page p2) (\<lambda>_.
                            panic ''Failed to map page in page fault handler!'' [])
                     else bindR (vm_memset aligned_address 0 PAGE_SIZE s2) (\<lambda>s3. ret (s3, p2))))
        else panic ''Unhandled page fault!'' [])"

end
