(* ===== verification/VMM_Walk.thy ===== *)
theory VMM_Walk
  imports VMM
begin

text \<open>
  Facts on the words of page tables: reading after writing, entries as bit fields, and the walk in
  terms of directory and table entries.
\<close>

section \<open>Words in memory\<close>

lemma aligned_offset:
  assumes "4 dvd unat (a :: u32)" and "i < 4"
  shows "unat (a + of_nat i) = unat a + i"
proof -
  obtain q where q: "unat a = 4 * q" using assms(1) by (rule dvdE)
  then have "q < 1073741824" using unat_u32_lt [of a] by simp
  then show ?thesis using q assms(2) by (subst unat_add_nowrap) (simp_all add: unat_of_nat_u32)
qed

lemma aligned_distinct:
  assumes "4 dvd unat (a :: u32)" and "4 dvd unat b" and "a \<noteq> b" and "i < 4" and "j < 4"
  shows "a + of_nat i \<noteq> b + of_nat j"
proof
  assume "a + of_nat i = b + of_nat j"
  then have "unat a + i = unat b + j" using aligned_offset assms by metis
  moreover obtain q r where "unat a = 4 * q" "unat b = 4 * r" using assms(1,2) by (metis dvdE)
  ultimately have "unat a = unat b" using assms(4,5) by presburger
  then show False using assms(3) by (simp add: word_unat_eq_iff)
qed

lemma rd32_wr32:
  assumes "4 dvd unat a" and "4 dvd unat b"
  shows "rd32 (wr32 a v m) b = (if a = b then v else rd32 m b)"
proof (cases "a = b")
  case False
  have "rd32 (wr32 a v m) b = rd32 m b"
  proof (rule rd32_cong)
    fix i :: nat assume i: "i < 4"
    have "b + of_nat i \<noteq> a + of_nat j" if "j < 4" for j
      using aligned_distinct [OF assms(2,1) _ i that] False by auto
    from this [of 0] this [of 1] this [of 2] this [of 3]
    show "wr32 a v m (b + of_nat i) = m (b + of_nat i)" by (simp add: wr32_def)
  qed
  then show ?thesis using False by simp
qed (simp add: rd32_wr32_same)

section \<open>Pages and slots\<close>

definition page_aligned :: "u32 \<Rightarrow> bool" where
  "page_aligned a \<longleftrightarrow> 4096 dvd unat a"

lemma page_aligned_mod: "a mod PAGE_SIZE = 0 \<longleftrightarrow> page_aligned a"
  by (simp add: page_aligned_def PAGE_SIZE_def word_unat_eq_iff unat_mod dvd_eq_mod_eq_0)

lemma mask_12: "(0xFFF :: u32) = mask 12"
  by (simp add: mask_eq_exp_minus_1)

lemma unat_frame_of: "unat (frame_of w) = unat w div 4096 * 4096"
  using unat_and_not_mask [of w 12] unfolding frame_of_def mask_12 by simp

lemma frame_of_aligned [simp]: "page_aligned (frame_of w)"
  by (simp add: page_aligned_def unat_frame_of)

lemma frame_of_id: "page_aligned a \<Longrightarrow> frame_of a = a"
  by (simp add: page_aligned_def unat_frame_of word_unat_eq_iff)

lemma unat_dir_index: "unat (dir_index va) = unat va div 4194304"
proof -
  have "(0x3FF :: u32) = mask 10" by (simp add: mask_eq_exp_minus_1)
  then have "unat (dir_index va) = unat va div 4194304 mod 1024"
    using unat_and_mask [of "drop_bit 22 va" 10] by (simp add: dir_index_def drop_bit_eq_div unat_div)
  also have "\<dots> = unat va div 4194304" using unat_u32_lt [of va] by (intro mod_less) (simp add: div_less_iff_less_mult)
  finally show ?thesis .
qed

lemma unat_table_index: "unat (table_index va) = unat va div 4096 mod 1024"
proof -
  have "(0x3FF :: u32) = mask 10" by (simp add: mask_eq_exp_minus_1)
  then show ?thesis
    using unat_and_mask [of "drop_bit 12 va" 10] by (simp add: table_index_def drop_bit_eq_div unat_div)
qed

lemma index_less: "unat (dir_index va) < 1024" "unat (table_index va) < 1024"
  using unat_u32_lt [of va] by (simp_all add: unat_dir_index unat_table_index div_less_iff_less_mult)

lemma page_room: "page_aligned b \<Longrightarrow> unat b + 4096 \<le> 4294967296"
proof -
  assume "page_aligned b"
  then obtain q where q: "unat b = 4096 * q" unfolding page_aligned_def by (rule dvdE)
  then have "q < 1048576" using unat_u32_lt [of b] by simp
  then show ?thesis using q by simp
qed

lemma unat_slot:
  assumes "page_aligned b" and "unat i < 1024"
  shows "unat (slot_addr b i) = unat b + 4 * unat i"
proof -
  have "unat (4 * i) = 4 * unat i" using assms(2) by (subst unat_mult_nowrap) simp_all
  then show ?thesis unfolding slot_addr_def
    using page_room [OF assms(1)] assms(2) by (subst unat_add_nowrap) simp_all
qed

lemma slot_word_aligned: "page_aligned b \<Longrightarrow> unat i < 1024 \<Longrightarrow> 4 dvd unat (slot_addr b i)"
  by (auto simp: unat_slot page_aligned_def intro: dvd_trans [of 4 4096])

lemma page_offset_unique:
  assumes "page_aligned b" "page_aligned c" and "unat b + x = unat c + y" and "x < 4096" "y < 4096"
  shows "b = c" and "x = y"
proof -
  have "unat b = unat b div 4096 * 4096" "unat c = unat c div 4096 * 4096"
    using assms(1,2) by (simp_all add: page_aligned_def)
  moreover have "(unat b + x) div 4096 = unat b div 4096" "(unat c + y) div 4096 = unat c div 4096"
    using assms(1,2,4,5) by (simp_all add: page_aligned_def div_plus_div_distrib_dvd_left)
  ultimately have "unat b = unat c" using assms(3) by metis
  then show "b = c" "x = y" using assms(3) by (simp_all add: word_unat_eq_iff)
qed

lemma slot_eq_iff:
  assumes "page_aligned b" "page_aligned c" and "unat i < 1024" "unat j < 1024"
  shows "slot_addr b i = slot_addr c j \<longleftrightarrow> b = c \<and> i = j"
proof
  assume "slot_addr b i = slot_addr c j"
  then have e: "unat b + 4 * unat i = unat c + 4 * unat j" using unat_slot assms by metis
  have "b = c" "4 * unat i = 4 * unat j"
    using page_offset_unique [OF assms(1,2) e] assms(3,4) by simp_all
  then show "b = c \<and> i = j" by (simp add: word_unat_eq_iff)
qed simp

lemma entry_at_wr32:
  assumes "page_aligned b" "page_aligned c" and "unat i < 1024" "unat j < 1024"
  shows "entry_at (wr32 (slot_addr b i) v m) c j = (if b = c \<and> i = j then v else entry_at m c j)"
  unfolding entry_at_def
  by (simp add: rd32_wr32 [OF slot_word_aligned [OF assms(1,3)] slot_word_aligned [OF assms(2,4)]] slot_eq_iff [OF assms])

lemma slot_byte:
  assumes "page_aligned b" and "unat i < 1024" and "k < 4"
  shows "unat (slot_addr b i + of_nat k) = unat b + (4 * unat i + k)"
    and "slot_addr b i + of_nat k = b + of_nat (4 * unat i + k)"
  using aligned_offset [OF slot_word_aligned [OF assms(1,2)] assms(3)] unat_slot [OF assms(1,2)]
  by (simp_all add: slot_addr_def)

text \<open>Bytes of different pages are different, and so are bytes of one page at different offsets.\<close>

lemma page_in_range:
  assumes "page_aligned b" "page_aligned c" and "k < 4096"
  shows "in_range c 4096 (b + of_nat k) \<longleftrightarrow> b = c"
proof
  assume "in_range c 4096 (b + of_nat k)"
  then obtain j where j: "j < 4096" "b + of_nat k = c + of_nat j" by (rule in_rangeE)
  have "unat (b + of_nat k) = unat b + k" "unat (c + of_nat j) = unat c + j"
    using page_room [OF assms(1)] page_room [OF assms(2)] assms(3) j(1)
    by (subst unat_add_nowrap; simp add: unat_of_nat_u32)+
  then have e: "unat b + k = unat c + j" using j(2) by simp
  show "b = c" using page_offset_unique(1) [OF assms(1,2) e assms(3) j(1)] .
qed (use assms(3) in \<open>simp add: in_range_offset\<close>)

lemma entry_at_fill_page:
  assumes "page_aligned b" "page_aligned c" and "unat j < 1024"
  shows "entry_at (kmemset_loop 4096 b 0 m) c j = (if b = c then 0 else entry_at m c j)"
proof -
  have byte: "kmemset_loop 4096 b 0 m (slot_addr c j + of_nat k) =
      (if b = c then 0 else m (slot_addr c j + of_nat k))" if "k < 4" for k
  proof -
    have "4 * unat j + k < 4096" using assms(3) that by simp
    from page_in_range [OF assms(2,1) this] slot_byte(2) [OF assms(2,3) that]
    have "in_range b 4096 (slot_addr c j + of_nat k) \<longleftrightarrow> c = b" by metis
    then show ?thesis by (auto simp: kmemset_loop_apply)
  qed
  show ?thesis
  proof (cases "b = c")
    case True
    then show ?thesis unfolding entry_at_def using byte by (simp add: rd32_zero)
  next
    case False
    then show ?thesis unfolding entry_at_def using byte by (simp add: rd32_cong [of "kmemset_loop 4096 b 0 m"])
  qed
qed

text \<open>Clearing the four bytes of an entry is storing zero.\<close>

lemma fill_entry: "kmemset_loop 4 a 0 m = wr32 a 0 m"
proof -
  have "kmemset_loop (Suc (Suc (Suc (Suc 0)))) a 0 m = wr32 a 0 m"
    by (simp add: wr32_def add.assoc)
  then show ?thesis by (simp add: numeral_eq_Suc)
qed

section \<open>Entries as bit fields\<close>

lemma bit_flag_word: "bit (flag_word bs) n \<longleftrightarrow> n < 32 \<and> n < length bs \<and> bs ! n"
  by (simp add: flag_word_def bit_horner_sum_bit_word_iff)

lemma frame_field: "push_bit 12 (ucast (ucast (drop_bit 12 w) :: 20 word)) = frame_of w"
  unfolding frame_of_def mask_12
  by (rule bit_word_eqI)
    (auto simp: bit_and_iff bit_not_iff bit_mask_iff bit_push_bit_iff bit_unsigned_iff bit_drop_bit_eq)

lemma pde_word_bits:
  "n < 8 \<Longrightarrow> bit (pde_word e) n \<longleftrightarrow> [d_present e, d_rw e, d_user e, d_write_through e, d_cache_disabled e, d_accessed e, d_avl_1 e, d_page_size e] ! n"
  "8 \<le> n \<Longrightarrow> n < 12 \<Longrightarrow> bit (pde_word e) n = bit (d_avl_2 e) (n - 8)"
  "12 \<le> n \<Longrightarrow> n < 32 \<Longrightarrow> bit (pde_word e) n = bit (d_address e) (n - 12)"
  by (auto simp: pde_word_def bit_flag_word bit_or_iff bit_push_bit_iff bit_unsigned_iff dest: bit_imp_le_length)

lemma pde_word_roundtrip: "pde_word (word_pde w) = w"
proof (rule bit_word_eqI)
  fix n assume n: "n < LENGTH(32)"
  consider "n = 0" | "n = 1" | "n = 2" | "n = 3" | "n = 4" | "n = 5" | "n = 6" | "n = 7" | "8 \<le> n" "n < 12" | "12 \<le> n" by linarith
  then show "bit (pde_word (word_pde w)) n = bit w n"
    using n by cases (auto simp: pde_word_bits word_pde_def bit_unsigned_iff bit_drop_bit_eq)
qed

lemma word_pde_roundtrip: "word_pde (pde_word e) = e"
proof (rule pde_t.equality)
  show "d_avl_2 (word_pde (pde_word e)) = d_avl_2 e"
    by (rule bit_word_eqI) (simp add: word_pde_def bit_unsigned_iff bit_drop_bit_eq pde_word_bits)
  show "d_address (word_pde (pde_word e)) = d_address e"
    by (rule bit_word_eqI) (simp add: word_pde_def bit_unsigned_iff bit_drop_bit_eq pde_word_bits)
qed (simp_all add: word_pde_def pde_word_bits)

lemma pde_word_present: "bit (pde_word e) 0 \<longleftrightarrow> d_present e"
  by (simp add: pde_word_bits)

lemma pde_word_frame: "frame_of (pde_word e) = push_bit 12 (ucast (d_address e))"
proof (rule bit_word_eqI)
  fix n assume "n < LENGTH(32)"
  then show "bit (frame_of (pde_word e)) n = bit (push_bit 12 (ucast (d_address e)) :: u32) n"
    unfolding frame_of_def mask_12
    by (cases "n < 12") (auto simp: bit_and_iff bit_not_iff bit_mask_iff pde_word_bits bit_push_bit_iff bit_unsigned_iff)
qed

lemma word_pde_fields: "d_present (word_pde w) \<longleftrightarrow> bit w 0"
  "push_bit 12 (ucast (d_address (word_pde w))) = frame_of w"
  by (simp_all add: word_pde_def frame_field)

lemma pte_word_bits:
  "n < 9 \<Longrightarrow> bit (pte_word e) n \<longleftrightarrow> [t_present e, t_rw e, t_user e, t_write_through e, t_cache_disabled e, t_accessed e, t_dirty e, t_pat e, t_global e] ! n"
  "9 \<le> n \<Longrightarrow> n < 12 \<Longrightarrow> bit (pte_word e) n = bit (t_avl e) (n - 9)"
  "12 \<le> n \<Longrightarrow> n < 32 \<Longrightarrow> bit (pte_word e) n = bit (t_address e) (n - 12)"
  by (auto simp: pte_word_def bit_flag_word bit_or_iff bit_push_bit_iff bit_unsigned_iff dest: bit_imp_le_length)

lemma pte_word_roundtrip: "pte_word (word_pte w) = w"
proof (rule bit_word_eqI)
  fix n assume n: "n < LENGTH(32)"
  consider "n = 0" | "n = 1" | "n = 2" | "n = 3" | "n = 4" | "n = 5" | "n = 6" | "n = 7" | "n = 8" | "9 \<le> n" "n < 12" | "12 \<le> n" by linarith
  then show "bit (pte_word (word_pte w)) n = bit w n"
    using n by cases (auto simp: pte_word_bits word_pte_def bit_unsigned_iff bit_drop_bit_eq)
qed

lemma word_pte_roundtrip: "word_pte (pte_word e) = e"
proof (rule pte_t.equality)
  show "t_avl (word_pte (pte_word e)) = t_avl e"
    by (rule bit_word_eqI) (simp add: word_pte_def bit_unsigned_iff bit_drop_bit_eq pte_word_bits)
  show "t_address (word_pte (pte_word e)) = t_address e"
    by (rule bit_word_eqI) (simp add: word_pte_def bit_unsigned_iff bit_drop_bit_eq pte_word_bits)
qed (simp_all add: word_pte_def pte_word_bits)

lemma pte_word_present: "bit (pte_word e) 0 \<longleftrightarrow> t_present e"
  by (simp add: pte_word_bits)

lemma pte_word_frame: "frame_of (pte_word e) = push_bit 12 (ucast (t_address e))"
proof (rule bit_word_eqI)
  fix n assume "n < LENGTH(32)"
  then show "bit (frame_of (pte_word e)) n = bit (push_bit 12 (ucast (t_address e)) :: u32) n"
    unfolding frame_of_def mask_12
    by (cases "n < 12") (auto simp: bit_and_iff bit_not_iff bit_mask_iff pte_word_bits bit_push_bit_iff bit_unsigned_iff)
qed

lemma word_pte_fields: "t_present (word_pte w) \<longleftrightarrow> bit w 0"
  "push_bit 12 (ucast (t_address (word_pte w))) = frame_of w"
  by (simp_all add: word_pte_def frame_field)

text \<open>Storing the number of a frame keeps the frame.\<close>

lemma address_field: "page_aligned a \<Longrightarrow> push_bit 12 (ucast (ucast (drop_bit 12 a) :: 20 word)) = a"
  by (simp add: frame_field frame_of_id)

end
