(* ===== verification/VMM_Correct.thy ===== *)
theory VMM_Correct
  imports VMM_Walk
begin

text \<open>
  The invariant of the page tables and what the operations of the memory manager do to the walk
  of the processor. The page allocator is used through the contract \<open>frame_source\<close>.
\<close>

section \<open>The contract of a source of frames\<close>

locale frame_source =
  fixes inv :: "'s \<Rightarrow> bool" and held :: "'s \<Rightarrow> u32 set" and pool :: "'s \<Rightarrow> nat set"
    and al :: "'s \<Rightarrow> (u32 \<times> 's) res"
  assumes al_inv: "inv s \<Longrightarrow> al s = ret (a, s') \<Longrightarrow> inv s'"
    and al_new: "inv s \<Longrightarrow> al s = ret (a, s') \<Longrightarrow> a \<notin> held s"
    and al_held: "inv s \<Longrightarrow> al s = ret (a, s') \<Longrightarrow> held s' = insert a (held s)"
    and al_pool: "inv s \<Longrightarrow> al s = ret (a, s') \<Longrightarrow> pool s' = pool s"
    and held_page: "inv s \<Longrightarrow> a \<in> held s \<Longrightarrow> 4096 dvd unat a \<and> {unat a..<unat a + 4096} \<subseteq> pool s"
begin

lemma fresh_frame:
  assumes "inv s" and "al s = ret (a, s')"
  shows "page_aligned a" and "{unat a..<unat a + 4096} \<subseteq> pool s"
  using held_page [OF al_inv [OF assms], of a] al_held [OF assms] al_pool [OF assms]
  by (simp_all add: page_aligned_def)

text \<open>A frame outside the pool is never handed out.\<close>

lemma fresh_outside:
  assumes "inv s" and "al s = ret (a, s')" and "{unat b..<unat b + 4096} \<inter> pool s = {}"
  shows "a \<noteq> b"
  using fresh_frame(2) [OF assms(1,2)] assms(3) by fastforce

end

definition single_frames :: "pmm_state \<Rightarrow> u32 set" where
  "single_frames p = {a. (a, 0) \<in> live p}"

lemma pmm_alloc_one_page: "pmm_alloc_pages 1 p = pmm_alloc_order 0 p"
proof -
  have u: "unat PAGE_SIZE = 4096" by (simp add: PAGE_SIZE_def)
  have "size_to_order PAGE_SIZE \<noteq> None" unfolding size_to_order_None u MAX_ORDER_def by simp
  then obtain k where k: "size_to_order PAGE_SIZE = Some k" by blast
  have z: "k = 0" using size_to_order_Some(3) [OF k, of 0] u by (cases "0 < k") simp_all
  have "pmm_alloc_pages 1 p = pmm_alloc_size PAGE_SIZE p" by (simp add: pmm_alloc_pages_def PAGE_SIZE_def)
  also have "\<dots> = pmm_alloc_order 0 p" by (rule pmm_alloc_size_eq [OF _ k [unfolded z]]) (simp add: u)
  finally show ?thesis .
qed

lemma alloc_one_cases:
  assumes "pmm_inv p" and "pmm_alloc_pages 1 p = ret (a, p')"
  shows "pmm_inv p'" and "a \<notin> single_frames p" and "single_frames p' = insert a (single_frames p)"
    and "managed p' = managed p"
proof -
  note C = pmm_alloc_order_cases [OF assms(1) assms(2) [unfolded pmm_alloc_one_page]]
  show "pmm_inv p'" by (rule C(1))
  show "a \<notin> single_frames p" using C(2) by (simp add: single_frames_def)
  show "single_frames p' = insert a (single_frames p)" unfolding single_frames_def C(3) by blast
  show "managed p' = managed p" by (rule managed_frames [OF C(6)])
qed

interpretation frm: frame_source pmm_inv single_frames managed "pmm_alloc_pages 1"
proof (unfold_locales, goal_cases)
  case (5 s a)
  then show ?case using live_managed [of s a 0] by (simp add: single_frames_def)
qed (fact alloc_one_cases)+

section \<open>The invariant\<close>

definition LOW_MEMORY :: nat where
  "LOW_MEMORY = 4194304"

definition table_of :: "vm_state \<Rightarrow> u32 \<Rightarrow> u32 option" where
  "table_of s i =
     (let pde = entry_at (phys s) (cr3 s) i in if bit pde 0 then Some (frame_of pde) else None)"

definition identity_table :: "mem \<Rightarrow> u32 \<Rightarrow> bool" where
  "identity_table m t \<longleftrightarrow>
     (\<forall>i. unat i < 1024 \<longrightarrow> bit (entry_at m t i) 0 \<and> frame_of (entry_at m t i) = push_bit 12 i)"

text \<open>
  Directory slots 0 and 768 share the identity table; every other table is a low frame of its own,
  held from the allocator. Directory and identity table lie in low memory that the allocator does
  not manage.
\<close>

abbreviation shared_slot :: "u32 \<Rightarrow> bool" where
  "shared_slot i \<equiv> i = 0 \<or> i = 768"

definition static_page :: "pmm_state \<Rightarrow> u32 \<Rightarrow> bool" where
  "static_page p a \<longleftrightarrow> page_aligned a \<and> unat a < LOW_MEMORY \<and>
     {unat a..<unat a + 4096} \<inter> managed p = {}"

definition own_table :: "vm_state \<Rightarrow> pmm_state \<Rightarrow> u32 \<Rightarrow> u32 \<Rightarrow> bool" where
  "own_table s p ident t \<longleftrightarrow>
     unat t < LOW_MEMORY \<and> t \<noteq> ident \<and> t \<noteq> cr3 s \<and> t \<in> single_frames p"

definition vm_inv :: "u32 \<Rightarrow> u32 \<Rightarrow> vm_state \<times> pmm_state \<Rightarrow> bool" where
  "vm_inv pd idt = (\<lambda>(s, p).
     let ident = virtual_to_physical idt
     in bit (cr0 s) 31 \<and> cr3 s = virtual_to_physical pd \<and> ident \<noteq> cr3 s \<and>
        static_page p (cr3 s) \<and> static_page p ident \<and> pmm_inv p \<and>
        table_of s 0 = Some ident \<and> table_of s 768 = Some ident \<and> identity_table (phys s) ident \<and>
        (\<forall>i t. unat i < 1024 \<longrightarrow> \<not> shared_slot i \<longrightarrow> table_of s i = Some t \<longrightarrow> own_table s p ident t) \<and>
        (\<forall>i j t. unat i < 1024 \<longrightarrow> unat j < 1024 \<longrightarrow> \<not> shared_slot i \<longrightarrow>
           table_of s i = Some t \<longrightarrow> table_of s j = Some t \<longrightarrow> i = j))"

lemma vm_invD:
  assumes "vm_inv pd idt (s, p)"
  shows "bit (cr0 s) 31" and "cr3 s = virtual_to_physical pd" and "virtual_to_physical idt \<noteq> cr3 s"
    and "static_page p (cr3 s)" and "static_page p (virtual_to_physical idt)" and "pmm_inv p"
    and "table_of s 0 = Some (virtual_to_physical idt)" and "table_of s 768 = Some (virtual_to_physical idt)"
    and "identity_table (phys s) (virtual_to_physical idt)"
    and "\<And>i t. unat i < 1024 \<Longrightarrow> \<not> shared_slot i \<Longrightarrow> table_of s i = Some t \<Longrightarrow>
      own_table s p (virtual_to_physical idt) t"
    and "\<And>i j t. unat i < 1024 \<Longrightarrow> unat j < 1024 \<Longrightarrow> \<not> shared_slot i \<Longrightarrow> table_of s i = Some t \<Longrightarrow>
      table_of s j = Some t \<Longrightarrow> i = j"
  using assms unfolding vm_inv_def Let_def prod.case by blast+

lemma vm_invI:
  assumes "bit (cr0 s) 31" and "cr3 s = virtual_to_physical pd" and "virtual_to_physical idt \<noteq> cr3 s"
    and "static_page p (cr3 s)" and "static_page p (virtual_to_physical idt)" and "pmm_inv p"
    and "table_of s 0 = Some (virtual_to_physical idt)" and "table_of s 768 = Some (virtual_to_physical idt)"
    and "identity_table (phys s) (virtual_to_physical idt)"
    and "\<And>i t. unat i < 1024 \<Longrightarrow> \<not> shared_slot i \<Longrightarrow> table_of s i = Some t \<Longrightarrow>
      own_table s p (virtual_to_physical idt) t"
    and "\<And>i j t. unat i < 1024 \<Longrightarrow> unat j < 1024 \<Longrightarrow> \<not> shared_slot i \<Longrightarrow> table_of s i = Some t \<Longrightarrow>
      table_of s j = Some t \<Longrightarrow> i = j"
  shows "vm_inv pd idt (s, p)"
  unfolding vm_inv_def Let_def prod.case
  by (intro conjI allI impI; (fact assms(1-9) | erule (2) assms(10) | erule (4) assms(11)))

definition tlb_ok :: "vm_state \<Rightarrow> bool" where
  "tlb_ok s \<longleftrightarrow> (\<forall>va f. tlb s (drop_bit 12 va) = Some f \<longrightarrow> walk s (frame_of va) = Some f)"

section \<open>The walk\<close>

lemma static_pageD: "static_page p a \<Longrightarrow> page_aligned a" "static_page p a \<Longrightarrow> unat a < 4194304"
  by (simp_all add: static_page_def LOW_MEMORY_def)

lemma walk_table:
  assumes "page_aligned (cr3 s)"
  shows "walk s va =
    (case table_of s (dir_index va) of
       None \<Rightarrow> None
     | Some t \<Rightarrow>
         let w = entry_at (phys s) t (table_index va)
         in if bit w 0 then Some (frame_of w OR (va AND 0xFFF)) else None)"
  by (simp add: walk_def table_of_def Let_def frame_of_id [OF assms])

lemma frame_or: "frame_of w OR (va AND 0xFFF) = frame_of w + (va AND 0xFFF)"
proof -
  have "frame_of w AND (va AND 0xFFF) = 0"
    unfolding frame_of_def mask_12
    by (rule bit_word_eqI) (auto simp: bit_and_iff bit_not_iff bit_mask_iff)
  then show ?thesis by (simp add: disjunctive_add_eq_or)
qed

lemma unat_page_offset: "unat (va AND 0xFFF :: u32) = unat va mod 4096"
  using unat_and_mask [of va 12] unfolding mask_12 by simp

text \<open>The kernel's window: low memory is visible at \<open>KERNEL_VIRTUAL_BASE\<close>.\<close>

lemma window_address:
  assumes "page_aligned t" and "unat t < 4194304" and "unat i < 1024"
  defines "va \<equiv> physical_to_virtual t + 4 * i"
  shows "unat va = 3221225472 + unat t + 4 * unat i" and "dir_index va = 768"
    and "unat (table_index va) = unat t div 4096" and "unat va mod 4096 = 4 * unat i"
proof -
  have m: "unat (4 * i) = 4 * unat i" using assms(3) by (subst unat_mult_nowrap) simp_all
  obtain q where q: "unat t = 4096 * q" using assms(1) unfolding page_aligned_def by (rule dvdE)
  have q': "q < 1024" using q assms(2) by simp
  have "unat (physical_to_virtual t) = unat t + 3221225472"
    unfolding physical_to_virtual_def KERNEL_VIRTUAL_BASE_def using assms(2)
    by (subst unat_add_nowrap) simp_all
  then show u: "unat va = 3221225472 + unat t + 4 * unat i"
    unfolding va_def using q q' m assms(3) by (subst unat_add_nowrap) simp_all
  define c :: nat where "c = 768"
  define k where "k = 1024 * c + q"
  have d: "unat va = 4096 * k + 4 * unat i" using u q by (simp add: k_def c_def)
  have d1: "unat va div 4096 = k" unfolding d using assms(3) by simp
  show "unat va mod 4096 = 4 * unat i" unfolding d using assms(3) by simp
  show "unat (table_index va) = unat t div 4096" unfolding unat_table_index d1 using q q' by (simp add: k_def)
  have "unat va div 4194304 = unat va div 4096 div 1024" by (simp add: div_mult2_eq [symmetric])
  also have "\<dots> = 768" unfolding d1 using q' by (simp add: k_def) (simp add: c_def)
  finally show "dir_index va = 768" by (simp add: word_unat_eq_iff unat_dir_index)
qed

lemma window_translate:
  assumes inv: "vm_inv pd idt (s, p)" and t: "page_aligned t" "unat t < 4194304" and i: "unat i < 1024"
  shows "translate s (physical_to_virtual t + 4 * i) = Some (slot_addr t i)"
proof -
  let ?va = "physical_to_virtual t + 4 * i" and ?id = "virtual_to_physical idt"
  note V = vm_invD [OF inv] and W = window_address [OF t i]
  let ?w = "entry_at (phys s) ?id (table_index ?va)"
  have w: "bit ?w 0" "frame_of ?w = push_bit 12 (table_index ?va)"
    using V(9) index_less(2) [of ?va] by (simp_all add: identity_table_def)
  have "unat (push_bit 12 (table_index ?va)) = unat (table_index ?va) * 4096"
    using W(3) t(2) by (simp add: push_bit_eq_mult unat_mult_nowrap)
  then have "unat (frame_of ?w) = unat t" using w(2) W(3) t(1) by (simp add: page_aligned_def)
  then have f: "frame_of ?w = t" by (simp add: word_unat_eq_iff)
  have off: "?va AND 0xFFF = 4 * i"
    using W(4) unat_page_offset [of ?va] i by (simp add: word_unat_eq_iff unat_mult_nowrap)
  have "frame_of ?w OR (?va AND 0xFFF) = frame_of ?w + (?va AND 0xFFF)" by (rule frame_or)
  also have "\<dots> = slot_addr t i" by (simp only: f off slot_addr_def)
  finally have "walk s ?va = Some (slot_addr t i)"
    using W(2) V(8) w(1) by (simp add: walk_table [OF static_pageD(1) [OF V(4)]])
  then show ?thesis using V(1) by (simp add: translate_def)
qed

section \<open>Accesses through the window\<close>

definition vm_set :: "u32 \<Rightarrow> u32 \<Rightarrow> u32 \<Rightarrow> vm_state \<Rightarrow> vm_state" where
  "vm_set b i v s = s\<lparr>phys := wr32 (slot_addr b i) v (phys s)\<rparr>"

definition vm_zero :: "u32 \<Rightarrow> vm_state \<Rightarrow> vm_state" where
  "vm_zero b s = s\<lparr>phys := kmemset_loop 4096 b 0 (phys s)\<rparr>"

lemma vm_set_simps [simp]:
  "cr0 (vm_set b i v s) = cr0 s" "cr3 (vm_set b i v s) = cr3 s" "tlb (vm_set b i v s) = tlb s"
  "cr0 (vm_zero b s) = cr0 s" "cr3 (vm_zero b s) = cr3 s" "tlb (vm_zero b s) = tlb s"
  by (simp_all add: vm_set_def vm_zero_def)

lemma window_access:
  assumes "vm_inv pd idt (s, p)" and "page_aligned t" "unat t < 4194304" and "unat i < 1024"
  shows "vm_read (physical_to_virtual t + 4 * i) s = ret (entry_at (phys s) t i)"
    and "vm_write (physical_to_virtual t + 4 * i) v s = ret (vm_set t i v s)"
    and "physical_to_virtual t + 4 * i \<noteq> NULL"
    and "vm_memset (physical_to_virtual t + 4 * i) 0 4 s = ret (vm_set t i 0 s)"
proof -
  note T = window_translate [OF assms]
  show "vm_read (physical_to_virtual t + 4 * i) s = ret (entry_at (phys s) t i)"
    "vm_write (physical_to_virtual t + 4 * i) v s = ret (vm_set t i v s)"
    by (simp_all add: vm_read_def vm_write_def T entry_at_def vm_set_def)
  show n: "physical_to_virtual t + 4 * i \<noteq> NULL" using window_address(1) [OF assms(2-)] by auto
  then show "vm_memset (physical_to_virtual t + 4 * i) 0 4 s = ret (vm_set t i 0 s)"
    by (simp add: vm_memset_def T vm_set_def fill_entry)
qed

lemma window_zero:
  assumes "vm_inv pd idt (s, p)" and "page_aligned t" "unat t < 4194304"
  shows "vm_memset (physical_to_virtual t) 0 PAGE_SIZE s = ret (vm_zero t s)"
proof -
  have "translate s (physical_to_virtual t) = Some t" "physical_to_virtual t \<noteq> NULL"
    using window_translate [OF assms, of 0] window_access(3) [OF assms, of 0] by (simp_all add: slot_addr_def)
  then show ?thesis by (simp add: vm_memset_def vm_zero_def PAGE_SIZE_def)
qed

lemma directory_access:
  assumes "vm_inv pd idt (s, p)"
  shows "vm_read (pd + 4 * dir_index va) s = ret (entry_at (phys s) (cr3 s) (dir_index va))"
    and "vm_write (pd + 4 * dir_index va) v s = ret (vm_set (cr3 s) (dir_index va) v s)"
proof -
  note V = vm_invD [OF assms]
  have "pd = physical_to_virtual (cr3 s)" using V(2) by (simp add: physical_to_virtual_def virtual_to_physical_def)
  then show "vm_read (pd + 4 * dir_index va) s = ret (entry_at (phys s) (cr3 s) (dir_index va))"
    "vm_write (pd + 4 * dir_index va) v s = ret (vm_set (cr3 s) (dir_index va) v s)"
    using window_access(1,2) [OF assms static_pageD [OF V(4)] index_less(1)] by simp_all
qed

section \<open>Effects on tables and on the walk\<close>

lemma entry_at_vm_set:
  assumes "page_aligned b" "page_aligned c" and "unat i < 1024" "unat j < 1024"
  shows "entry_at (phys (vm_set b i v s)) c j = (if b = c \<and> i = j then v else entry_at (phys s) c j)"
  using entry_at_wr32 [OF assms] by (simp add: vm_set_def)

lemma entry_at_vm_zero:
  assumes "page_aligned b" "page_aligned c" and "unat j < 1024"
  shows "entry_at (phys (vm_zero b s)) c j = (if b = c then 0 else entry_at (phys s) c j)"
  using entry_at_fill_page [OF assms] by (simp add: vm_zero_def)

lemma table_aligned: "table_of s i = Some t \<Longrightarrow> page_aligned t"
  by (auto simp: table_of_def Let_def split: if_splits)

lemma table_of_cong:
  "cr3 s' = cr3 s \<Longrightarrow> entry_at (phys s') (cr3 s) i = entry_at (phys s) (cr3 s) i \<Longrightarrow> table_of s' i = table_of s i"
  by (simp add: table_of_def)

text \<open>Writing an entry of a table of its own changes the walk of one page.\<close>

lemma own_table_facts:
  assumes "vm_inv pd idt (s, p)" and "unat k < 1024" "\<not> shared_slot k" and "table_of s k = Some t"
  shows "page_aligned t" "unat t < 4194304" "t \<noteq> cr3 s" "t \<noteq> virtual_to_physical idt"
  using vm_invD(10) [OF assms] table_aligned [OF assms(4)] by (simp_all add: own_table_def LOW_MEMORY_def)

lemma table_of_set_own:
  assumes "vm_inv pd idt (s, p)" and "unat k < 1024" "\<not> shared_slot k" and "table_of s k = Some t"
    and "unat i < 1024" and "unat j < 1024"
  shows "table_of (vm_set t i v s) j = table_of s j"
proof -
  note O = own_table_facts [OF assms(1-4)] and V = vm_invD [OF assms(1)]
  show ?thesis
    by (rule table_of_cong) (use O(3) in \<open>simp_all add: entry_at_vm_set [OF O(1) static_pageD(1) [OF V(4)] assms(5,6)]\<close>)
qed

lemma vm_inv_set_own:
  assumes "vm_inv pd idt (s, p)" and "unat k < 1024" "\<not> shared_slot k" and "table_of s k = Some t"
    and "unat i < 1024"
  shows "vm_inv pd idt (vm_set t i v s, p)"
proof -
  note O = own_table_facts [OF assms(1-4)] and V = vm_invD [OF assms(1)]
  have T: "table_of (vm_set t i v s) j = table_of s j" if "unat j < 1024" for j
    by (rule table_of_set_own [OF assms that])
  have "identity_table (phys (vm_set t i v s)) (virtual_to_physical idt)"
    using V(9) O(4) entry_at_vm_set [OF O(1) static_pageD(1) [OF V(5)] assms(5)]
    by (simp add: identity_table_def)
  then show ?thesis
  proof (intro vm_invI)
    fix j u assume "unat j < 1024" "\<not> shared_slot j" "table_of (vm_set t i v s) j = Some u"
    then show "own_table (vm_set t i v s) p (virtual_to_physical idt) u"
      using V(10) T by (simp add: own_table_def)
  next
    fix j j' u assume "unat j < 1024" "unat j' < 1024" "\<not> shared_slot j"
      "table_of (vm_set t i v s) j = Some u" "table_of (vm_set t i v s) j' = Some u"
    then show "j = j'" using V(11) [of j j' u] T by simp
  qed (use V(1-9) T in simp_all)
qed

lemma walk_set_own:
  assumes "vm_inv pd idt (s, p)" and "unat k < 1024" "\<not> shared_slot k" and "table_of s k = Some t"
    and "unat i < 1024"
  shows "walk (vm_set t i v s) va =
    (if dir_index va = k \<and> table_index va = i
     then (if bit v 0 then Some (frame_of v OR (va AND 0xFFF)) else None) else walk s va)"
proof -
  note O = own_table_facts [OF assms(1-4)] and V = vm_invD [OF assms(1)]
  have C: "page_aligned (cr3 s)" "page_aligned (cr3 (vm_set t i v s))" using static_pageD(1) [OF V(4)] by simp_all
  have T: "table_of (vm_set t i v s) (dir_index va) = table_of s (dir_index va)"
    by (rule table_of_set_own [OF assms index_less(1)])
  show ?thesis
  proof (cases "table_of s (dir_index va)")
    case None
    then have "dir_index va \<noteq> k" using assms(4) by auto
    then show ?thesis unfolding C [THEN walk_table] T None by simp
  next
    case (Some t')
    have "t = t' \<longleftrightarrow> dir_index va = k"
    proof
      assume "t = t'"
      then show "dir_index va = k" using V(11) [OF assms(2) index_less(1) assms(3,4)] Some by metis
    qed (use Some assms(4) in simp)
    then have E: "entry_at (phys (vm_set t i v s)) t' (table_index va) =
        (if dir_index va = k \<and> i = table_index va then v else entry_at (phys s) t' (table_index va))"
      using entry_at_vm_set [OF O(1) table_aligned [OF Some] assms(5) index_less(2)] by simp
    show ?thesis unfolding C [THEN walk_table] T Some option.case Let_def E by auto
  qed
qed

text \<open>The bytes that hold the directory and the tables; all other memory is the clients'.\<close>

definition paging_byte :: "vm_state \<Rightarrow> u32 \<Rightarrow> bool" where
  "paging_byte s x \<longleftrightarrow> in_range (cr3 s) 4096 x \<or>
     (\<exists>i t. unat i < 1024 \<and> table_of s i = Some t \<and> in_range t 4096 x)"

lemma vm_zero_frame: "\<not> in_range b 4096 x \<Longrightarrow> phys (vm_zero b s) x = phys s x"
  by (simp add: vm_zero_def kmemset_loop_apply)

lemma vm_set_frame:
  assumes "page_aligned b" and "unat i < 1024" and "\<not> in_range b 4096 x"
  shows "phys (vm_set b i v s) x = phys s x"
proof -
  have "x \<noteq> slot_addr b i + of_nat k" if "k < 4" for k
  proof -
    have "in_range b 4096 (b + of_nat (4 * unat i + k))" using assms(2) that by (intro in_range_offset) simp_all
    then show ?thesis using slot_byte(2) [OF assms(1,2) that] assms(3) by metis
  qed
  from this [of 0] this [of 1] this [of 2] this [of 3] show ?thesis by (simp add: vm_set_def wr32_def)
qed

definition paging_page :: "vm_state \<Rightarrow> u32 \<Rightarrow> bool" where
  "paging_page s a \<longleftrightarrow> a = cr3 s \<or> (\<exists>i. unat i < 1024 \<and> table_of s i = Some a)"

text \<open>An allocation hands out no page of the paging structures and keeps the invariant.\<close>

lemma alloc_frame:
  assumes inv: "vm_inv pd idt (s, p)" and al: "pmm_alloc_pages 1 p = ret (a, p')"
  shows "vm_inv pd idt (s, p')" and "\<not> paging_page s a" and "page_aligned a"
    and "a \<in> single_frames p'" and "a \<noteq> virtual_to_physical idt"
proof -
  note V = vm_invD [OF inv] and A = alloc_one_cases [OF V(6) al]
  show "page_aligned a" by (rule frm.fresh_frame(1) [OF V(6) al])
  show "a \<in> single_frames p'" using A(3) by simp
  have ne: "a \<noteq> cr3 s" "a \<noteq> virtual_to_physical idt"
    using frm.fresh_outside [OF V(6) al] V(4,5) by (simp_all add: static_page_def)
  then show "a \<noteq> virtual_to_physical idt" by simp
  have "table_of s j \<noteq> Some a" if "unat j < 1024" for j
  proof (cases "shared_slot j")
    case True
    then show ?thesis using V(7,8) ne(2) by auto
  next
    case False
    then show ?thesis using V(10) [OF that False, of a] A(2) by (auto simp: own_table_def)
  qed
  then show "\<not> paging_page s a" using ne(1) by (auto simp: paging_page_def)
  show "vm_inv pd idt (s, p')"
  proof (intro vm_invI)
    fix i t assume "unat i < 1024" "\<not> shared_slot i" "table_of s i = Some t"
    then show "own_table s p' (virtual_to_physical idt) t" using V(10) [of i t] A(3) by (simp add: own_table_def)
  next
    show "\<And>i j t. unat i < 1024 \<Longrightarrow> unat j < 1024 \<Longrightarrow> \<not> shared_slot i \<Longrightarrow> table_of s i = Some t \<Longrightarrow>
        table_of s j = Some t \<Longrightarrow> i = j" by (fact V(11))
  qed (use V(1-9) A in \<open>simp_all add: static_page_def\<close>)
qed

text \<open>A change of memory that spares the entries of the paging structures changes no translation.\<close>

lemma client_change:
  assumes inv: "vm_inv pd idt (s, p)" and cr: "cr0 s' = cr0 s" "cr3 s' = cr3 s"
    and E: "\<And>b j. paging_page s b \<Longrightarrow> page_aligned b \<Longrightarrow> unat j < 1024 \<Longrightarrow>
      entry_at (phys s') b j = entry_at (phys s) b j"
  shows "vm_inv pd idt (s', p)" and "unat j < 1024 \<Longrightarrow> table_of s' j = table_of s j" and "walk s' va = walk s va"
proof -
  note V = vm_invD [OF inv] and C = static_pageD [OF vm_invD(4) [OF inv]]
  have T: "table_of s' j = table_of s j" if "unat j < 1024" for j
    by (rule table_of_cong) (simp_all add: E [OF _ C(1) that] paging_page_def cr)
  then show "unat j < 1024 \<Longrightarrow> table_of s' j = table_of s j" .
  have "paging_page s (virtual_to_physical idt)" using V(7) by (auto simp: paging_page_def intro: exI [of _ 0])
  then have "identity_table (phys s') (virtual_to_physical idt)"
    using V(9) E static_pageD(1) [OF V(5)] by (simp add: identity_table_def)
  then show "vm_inv pd idt (s', p)"
  proof (intro vm_invI)
    fix i t assume "unat i < 1024" "\<not> shared_slot i" "table_of s' i = Some t"
    then show "own_table s' p (virtual_to_physical idt) t"
      using V(10) [of i t] T by (simp add: own_table_def cr)
  next
    fix i j t assume "unat i < 1024" "unat j < 1024" "\<not> shared_slot i" "table_of s' i = Some t" "table_of s' j = Some t"
    then show "i = j" using V(11) [of i j t] T by simp
  qed (use V(1-8) T cr in simp_all)
  have Cs: "page_aligned (cr3 s')" using C(1) cr by simp
  have W: "entry_at (phys s') t (table_index va) = entry_at (phys s) t (table_index va)"
    if "table_of s (dir_index va) = Some t" for t
    using E [OF _ table_aligned [OF that] index_less(2)] that index_less(1) [of va] by (auto simp: paging_page_def)
  show "walk s' va = walk s va"
    unfolding walk_table [OF Cs] walk_table [OF C(1)] T [OF index_less(1)] by (simp add: W split: option.split)
qed

text \<open>So memory that holds no paging structure can be cleared and written.\<close>

lemma zero_frame:
  assumes inv: "vm_inv pd idt (s, p)" and a: "page_aligned a" "\<not> paging_page s a"
  shows "vm_inv pd idt (vm_zero a s, p)" and "unat j < 1024 \<Longrightarrow> table_of (vm_zero a s) j = table_of s j"
    and "walk (vm_zero a s) va = walk s va"
  by (rule client_change [OF inv]; use entry_at_vm_zero [OF a(1)] a(2) in auto)+

lemma write_frame:
  assumes inv: "vm_inv pd idt (s, p)" and a: "page_aligned a" "\<not> paging_page s a" and i: "unat i < 1024"
  shows "vm_inv pd idt (vm_set a i v s, p)" and "unat j < 1024 \<Longrightarrow> table_of (vm_set a i v s) j = table_of s j"
    and "walk (vm_set a i v s) va = walk s va"
  by (rule client_change [OF inv]; use entry_at_vm_set [OF a(1) _ i] a(2) in auto)+

text \<open>Adding an empty table leaves every translation as it was.\<close>

lemma add_table:
  assumes inv: "vm_inv pd idt (s, p)" and k: "unat k < 1024" "table_of s k = None"
    and own: "own_table s p (virtual_to_physical idt) a" and new: "\<not> paging_page s a"
    and clear: "\<And>i. unat i < 1024 \<Longrightarrow> entry_at (phys s) a i = 0" and w: "bit w 0" "frame_of w = a"
  defines "s' \<equiv> vm_set (cr3 s) k w s"
  shows "vm_inv pd idt (s', p)" and "table_of s' k = Some a" and "walk s' va = walk s va"
    and "unat j < 1024 \<Longrightarrow> table_of s' j = (if j = k then Some a else table_of s j)"
proof -
  note V = vm_invD [OF inv] and C = static_pageD [OF vm_invD(4) [OF inv]]
  have ns: "\<not> shared_slot k" using k(2) V(7,8) by auto
  have E: "entry_at (phys s') b j = entry_at (phys s) b j" if "page_aligned b" "b \<noteq> cr3 s" "unat j < 1024" for b j
    using entry_at_vm_set [OF C(1) that(1) k(1) that(3)] that(2) by (auto simp: s'_def)
  have T: "table_of s' j = (if j = k then Some a else table_of s j)" if "unat j < 1024" for j
    using entry_at_vm_set [OF C(1) C(1) k(1) that, of w s] w by (auto simp: table_of_def Let_def s'_def)
  then show "unat j < 1024 \<Longrightarrow> table_of s' j = (if j = k then Some a else table_of s j)" .
  show Tk: "table_of s' k = Some a" using T [OF k(1)] by simp
  have old: "table_of s j \<noteq> Some a" if "unat j < 1024" for j using new that by (auto simp: paging_page_def)
  show "vm_inv pd idt (s', p)"
  proof (intro vm_invI)
    fix j t assume j: "unat j < 1024" "\<not> shared_slot j" "table_of s' j = Some t"
    then show "own_table s' p (virtual_to_physical idt) t"
      using V(10) [OF j(1,2), of t] own T by (auto simp: own_table_def s'_def split: if_splits)
  next
    fix i j t assume ij: "unat i < 1024" "unat j < 1024" "\<not> shared_slot i"
      "table_of s' i = Some t" "table_of s' j = Some t"
    then show "i = j" using V(11) [OF ij(1,2,3), of t] T old by (auto split: if_splits)
  next
    show "identity_table (phys s') (virtual_to_physical idt)"
      using V(9) E [OF static_pageD(1) [OF V(5)] V(3)] by (simp add: identity_table_def)
  qed (use V(1-8) T ns in \<open>auto simp: s'_def\<close>)
  have Cs: "page_aligned (cr3 s')" using C(1) by (simp add: s'_def)
  have ne: "t \<noteq> cr3 s" if "unat j < 1024" "table_of s' j = Some t" for j t
    using that T own own_table_facts(3) [OF inv that(1), of t] V(3,7,8)
    by (cases "shared_slot j") (auto simp: own_table_def split: if_splits)
  show "walk s' va = walk s va"
  proof (cases "table_of s' (dir_index va)")
    case None
    then have "table_of s (dir_index va) = None" using T [OF index_less(1), of va] by (auto split: if_splits)
    then show ?thesis unfolding walk_table [OF Cs] walk_table [OF C(1)] None by simp
  next
    case (Some t)
    note Et = E [OF table_aligned [OF Some] ne [OF index_less(1) Some] index_less(2)]
    show ?thesis
    proof (cases "dir_index va = k")
      case True
      then have "t = a" "table_of s (dir_index va) = None" using Some Tk k(2) by simp_all
      then show ?thesis
        using Et clear [OF index_less(2), of va] unfolding walk_table [OF Cs] walk_table [OF C(1)] Some by simp
    next
      case False
      then have "table_of s (dir_index va) = Some t" using Some T [OF index_less(1)] by simp
      then show ?thesis unfolding walk_table [OF Cs] walk_table [OF C(1)] Some by (simp add: Et)
    qed
  qed
qed

section \<open>The operations\<close>

text \<open>What \<open>get_or_create_pte\<close> needs when the table is missing: a low frame other than frame 0.\<close>

definition table_ready :: "vm_state \<Rightarrow> pmm_state \<Rightarrow> u32 \<Rightarrow> bool" where
  "table_ready s p va \<longleftrightarrow> table_of s (dir_index va) \<noteq> None \<or>
     (\<exists>a p'. pmm_alloc_pages 1 p = ret (a, p') \<and> a \<noteq> NULL \<and> unat a < LOW_MEMORY)"

lemma get_or_create_pte_ok:
  assumes inv: "vm_inv pd idt (s, p)" and ns: "\<not> shared_slot (dir_index va)" and rdy: "table_ready s p va"
  obtains t s' p' where "get_or_create_pte pd va flags (s, p) =
      ret (physical_to_virtual t + 4 * table_index va, s', p')"
    and "vm_inv pd idt (s', p')" and "table_of s' (dir_index va) = Some t"
    and "\<And>v. walk s' v = walk s v" and "tlb s' = tlb s" and "cr3 s' = cr3 s"
    and "\<And>x. \<not> paging_byte s' x \<Longrightarrow> phys s' x = phys s x"
    and "\<And>b. b \<in> single_frames p \<Longrightarrow> \<not> paging_page s b \<Longrightarrow> \<not> paging_page s' b"
proof (cases "table_of s (dir_index va)")
  case (Some t)
  then have "bit (entry_at (phys s) (cr3 s) (dir_index va)) 0"
    "frame_of (entry_at (phys s) (cr3 s) (dir_index va)) = t"
    by (auto simp: table_of_def Let_def split: if_splits)
  then have "get_or_create_pte pd va flags (s, p) = ret (physical_to_virtual t + 4 * table_index va, s, p)"
    using directory_access(1) [OF inv, of va]
    by (simp add: get_or_create_pte_def Let_def word_pde_fields flip: dir_index_def table_index_def)
  then show ?thesis using that inv Some by blast
next
  case None
  then obtain a p' where a: "pmm_alloc_pages 1 p = ret (a, p')" "a \<noteq> NULL" "unat a < 4194304"
    using rdy by (auto simp: table_ready_def LOW_MEMORY_def)
  note V = vm_invD [OF inv] and A = alloc_one_cases [OF vm_invD(6) [OF inv] a(1)]
  note F = alloc_frame [OF inv a(1)]
  note Z = zero_frame [OF F(1,3,2)]
  let ?d = "entry_at (phys s) (cr3 s) (dir_index va)"
  define e where "e = (word_pde ?d)\<lparr>d_address := ucast (drop_bit 12 a), d_present := True,
      d_rw := (flags AND VMM_FLAG_RW \<noteq> 0), d_user := (flags AND VMM_FLAG_USER \<noteq> 0),
      d_write_through := (flags AND VMM_FLAG_WRITE_THROUGH \<noteq> 0),
      d_cache_disabled := (flags AND VMM_FLAG_CACHE_DISABLED \<noteq> 0)\<rparr>"
  have e: "bit (pde_word e) 0" "frame_of (pde_word e) = a"
    by (simp_all add: pde_word_present pde_word_frame e_def address_field [OF F(3)])
  let ?s = "vm_set (cr3 s) (dir_index va) (pde_word e) (vm_zero a s)"
  have na: "a \<noteq> cr3 s" using F(2) by (simp add: paging_page_def)
  have d: "\<not> bit ?d 0" "entry_at (phys (vm_zero a s)) (cr3 s) (dir_index va) = ?d"
    using None na entry_at_vm_zero [OF F(3) static_pageD(1) [OF V(4)] index_less(1)]
    by (auto simp: table_of_def Let_def split: if_splits)
  have run: "get_or_create_pte pd va flags (s, p) = ret (physical_to_virtual a + 4 * table_index va, ?s, p')"
    using directory_access(1) [OF inv, of va] directory_access [OF Z(1), of va] window_zero [OF F(1,3) a(3)] d a
    by (simp add: get_or_create_pte_def Let_def word_pde_fields e_def flip: dir_index_def table_index_def)
  have own: "own_table (vm_zero a s) p' (virtual_to_physical idt) a"
    using a(3) F(4,5) na by (simp add: own_table_def LOW_MEMORY_def)
  have new: "\<not> paging_page (vm_zero a s) a" using F(2) Z(2) by (auto simp: paging_page_def)
  have tab: "table_of (vm_zero a s) (dir_index va) = None" using None Z(2) [OF index_less(1)] by simp
  have clear: "entry_at (phys (vm_zero a s)) a i = 0" if "unat i < 1024" for i
    using entry_at_vm_zero [OF F(3,3) that] by simp
  note T = add_table [OF Z(1) index_less(1) tab own new clear e, unfolded vm_set_simps]
  show ?thesis
  proof (rule that [OF run T(1,2)])
    show "walk ?s v = walk s v" for v using T(3) Z(3) by simp
    fix x assume "\<not> paging_byte ?s x"
    then have "\<not> in_range (cr3 s) 4096 x" "\<not> in_range a 4096 x"
      using T(2) index_less(1) [of va] by (auto simp: paging_byte_def)
    then show "phys ?s x = phys s x"
      by (simp add: vm_set_frame [OF static_pageD(1) [OF V(4)] index_less(1)] vm_zero_frame)
  next
    fix b assume "b \<in> single_frames p" "\<not> paging_page s b"
    then show "\<not> paging_page ?s b"
      using A(2) T(4) Z(2) by (auto simp: paging_page_def split: if_splits)
  qed simp_all
qed

lemma page_number: "frame_of v = push_bit 12 (drop_bit 12 v)"
  unfolding frame_of_def mask_12
  by (rule bit_word_eqI) (auto simp: bit_and_iff bit_not_iff bit_mask_iff bit_push_bit_iff bit_drop_bit_eq)

lemma page_number_eq: "drop_bit 12 v = drop_bit 12 w \<longleftrightarrow> frame_of v = frame_of w"
proof
  assume "frame_of v = frame_of w"
  then have "unat v div 4096 = unat w div 4096" using unat_frame_of [of v] unat_frame_of [of w] by simp
  then show "drop_bit 12 v = drop_bit 12 w" by (simp add: word_unat_eq_iff drop_bit_eq_div unat_div)
qed (simp add: page_number)

lemma same_page: "dir_index v = dir_index w \<and> table_index v = table_index w \<longleftrightarrow> frame_of v = frame_of w"
proof -
  have "unat v div 4096 = unat (dir_index v) * 1024 + unat (table_index v)" for v :: u32
    unfolding unat_dir_index unat_table_index using div_mult_mod_eq [of "unat v div 4096" 1024]
    by (simp add: div_mult2_eq [symmetric])
  then have "dir_index v = dir_index w \<and> table_index v = table_index w \<Longrightarrow> frame_of v = frame_of w"
    by (simp add: word_unat_eq_iff unat_frame_of)
  moreover have "unat v div 4194304 = unat v div 4096 div 1024" for v :: u32 by (simp add: div_mult2_eq [symmetric])
  then have "frame_of v = frame_of w \<Longrightarrow> dir_index v = dir_index w \<and> table_index v = table_index w"
    by (simp add: word_unat_eq_iff unat_frame_of unat_dir_index unat_table_index)
  ultimately show ?thesis by blast
qed

lemma flush_simps [simp]:
  "walk (flush_tlb_entry va s) v = walk s v" "table_of (flush_tlb_entry va s) i = table_of s i"
  "phys (flush_tlb_entry va s) = phys s" "cr3 (flush_tlb_entry va s) = cr3 s"
  "paging_byte (flush_tlb_entry va s) x = paging_byte s x" "paging_page (flush_tlb_entry va s) a = paging_page s a"
  "vm_inv pd idt (flush_tlb_entry va s, p) = vm_inv pd idt (s, p)"
  by (simp_all add: walk_def table_of_def paging_byte_def paging_page_def flush_tlb_entry_def Let_def vm_inv_def
      own_table_def)

lemma tlb_flush_ok:
  assumes "tlb_ok s" and "tlb s' = tlb s" and "page_aligned va"
    and "\<And>v. frame_of v \<noteq> va \<Longrightarrow> walk s' v = walk s v"
  shows "tlb_ok (flush_tlb_entry va s')"
  unfolding tlb_ok_def
proof (intro allI impI)
  fix v f assume h: "tlb (flush_tlb_entry va s') (drop_bit 12 v) = Some f"
  have n: "drop_bit 12 v \<noteq> drop_bit 12 va" and "tlb s (drop_bit 12 v) = Some f"
    using h assms(2) by (auto simp: flush_tlb_entry_def split: if_splits)
  then have "walk s (frame_of v) = Some f" using assms(1) by (simp add: tlb_ok_def)
  moreover have "frame_of (frame_of v) \<noteq> va"
    using n page_number_eq [of v va] frame_of_id [OF assms(3)] by (simp add: frame_of_id)
  ultimately show "walk (flush_tlb_entry va s') (frame_of v) = Some f" using assms(4) by simp
qed

text \<open>The operations, up to the present bit of the entry.\<close>

lemma vmm_map_page_ok:
  assumes inv: "vm_inv pd idt (s, p)" and va: "page_aligned va" "\<not> shared_slot (dir_index va)"
    and pa: "page_aligned pa" and rdy: "table_ready s p va" and free: "walk s va = None"
  obtains s' p' where "vmm_map_page pd va pa flags (s, p) = ret (True, s', p')" and "vm_inv pd idt (s', p')"
    and "\<And>v. walk s' v = (if frame_of v = va
      then (if flags AND VMM_FLAG_PRESENT \<noteq> 0 then Some (pa OR (v AND 0xFFF)) else None) else walk s v)"
    and "tlb_ok s \<Longrightarrow> tlb_ok s'" and "cr3 s' = cr3 s"
    and "\<And>x. \<not> paging_byte s' x \<Longrightarrow> phys s' x = phys s x"
    and "\<And>b. b \<in> single_frames p \<Longrightarrow> \<not> paging_page s b \<Longrightarrow> \<not> paging_page s' b"
proof -
  obtain t s1 p1 where g: "get_or_create_pte pd va flags (s, p) =
      ret (physical_to_virtual t + 4 * table_index va, s1, p1)" "vm_inv pd idt (s1, p1)"
    "table_of s1 (dir_index va) = Some t" "\<And>v. walk s1 v = walk s v" "tlb s1 = tlb s" "cr3 s1 = cr3 s"
    "\<And>x. \<not> paging_byte s1 x \<Longrightarrow> phys s1 x = phys s x"
    "\<And>b. b \<in> single_frames p \<Longrightarrow> \<not> paging_page s b \<Longrightarrow> \<not> paging_page s1 b"
    by (rule get_or_create_pte_ok [OF inv va(2) rdy]) blast
  note O = own_table_facts [OF g(2) index_less(1) va(2) g(3)] and I = index_less(2) [of va]
  note W = window_access [OF g(2) O(1,2) I]
  let ?w = "entry_at (phys s1) t (table_index va)"
  have C: "page_aligned (cr3 s1)" using static_pageD(1) [OF vm_invD(4) [OF g(2)]] .
  have nb: "\<not> bit ?w 0" using free g(4) [of va] g(3) by (auto simp: walk_table [OF C] Let_def split: if_splits)
  define e where "e = (word_pte ?w)\<lparr>t_address := ucast (drop_bit 12 pa),
      t_present := (flags AND VMM_FLAG_PRESENT \<noteq> 0), t_rw := (flags AND VMM_FLAG_RW \<noteq> 0),
      t_user := (flags AND VMM_FLAG_USER \<noteq> 0), t_write_through := (flags AND VMM_FLAG_WRITE_THROUGH \<noteq> 0),
      t_cache_disabled := (flags AND VMM_FLAG_CACHE_DISABLED \<noteq> 0),
      t_global := (flags AND VMM_FLAG_GLOBAL \<noteq> 0)\<rparr>"
  have e: "bit (pte_word e) 0 \<longleftrightarrow> flags AND VMM_FLAG_PRESENT \<noteq> 0" "frame_of (pte_word e) = pa"
    by (simp_all add: pte_word_present pte_word_frame e_def address_field [OF pa])
  let ?s = "vm_set t (table_index va) (pte_word e) s1"
  have run: "vmm_map_page pd va pa flags (s, p) = ret (True, flush_tlb_entry va ?s, p1)"
    using va(1) pa g(1) W nb
    by (simp add: vmm_map_page_def page_aligned_mod word_pte_fields Let_def e_def)
  have wk: "walk ?s v = (if frame_of v = va
      then (if flags AND VMM_FLAG_PRESENT \<noteq> 0 then Some (pa OR (v AND 0xFFF)) else None) else walk s v)" for v
    using walk_set_own [OF g(2) index_less(1) va(2) g(3) I, of "pte_word e" v] same_page [of v va] frame_of_id [OF va(1)]
    by (simp add: e g(4))
  have T: "table_of ?s j = table_of s1 j" if "unat j < 1024" for j
    by (rule table_of_set_own [OF g(2) index_less(1) va(2) g(3) I that])
  show thesis
  proof (rule that [OF run])
    show "vm_inv pd idt (flush_tlb_entry va ?s, p1)"
      using vm_inv_set_own [OF g(2) index_less(1) va(2) g(3) I] by simp
    show "tlb_ok (flush_tlb_entry va ?s)" if "tlb_ok s"
      by (rule tlb_flush_ok [OF that _ va(1)]) (simp_all add: g(5) wk)
    show "\<not> paging_page (flush_tlb_entry va ?s) b" if "b \<in> single_frames p" "\<not> paging_page s b" for b
      using g(8) [OF that] T by (auto simp: paging_page_def)
    fix x assume "\<not> paging_byte (flush_tlb_entry va ?s) x"
    then have "\<not> paging_byte s1 x" "\<not> in_range t 4096 x"
      using T g(3) index_less(1) [of va] by (auto simp: paging_byte_def)
    then show "phys (flush_tlb_entry va ?s) x = phys s x" using g(7) by (simp add: vm_set_frame [OF O(1) I])
  qed (simp_all add: wk g(6))
qed

text \<open>Every table, the shared one included, is reached through the window.\<close>

lemma table_low:
  assumes "vm_inv pd idt (s, p)" and "unat k < 1024" and "table_of s k = Some t"
  shows "page_aligned t" and "unat t < 4194304"
proof -
  note V = vm_invD [OF assms(1)]
  show "page_aligned t" by (rule table_aligned [OF assms(3)])
  show "unat t < 4194304"
  proof (cases "shared_slot k")
    case True
    then show ?thesis using assms(3) V(7,8) static_pageD(2) [OF V(5)] by auto
  next
    case False
    then show ?thesis using own_table_facts(2) [OF assms(1,2) False assms(3)] by simp
  qed
qed

lemma walk_entry:
  assumes "vm_inv pd idt (s, p)"
  shows "walk s va = None \<longleftrightarrow> (case table_of s (dir_index va) of None \<Rightarrow> True
    | Some t \<Rightarrow> \<not> bit (entry_at (phys s) t (table_index va)) 0)"
  unfolding walk_table [OF static_pageD(1) [OF vm_invD(4) [OF assms]]] by (simp add: Let_def split: option.split)

lemma table_of_Some_iff:
  "table_of s i = Some t \<longleftrightarrow> bit (entry_at (phys s) (cr3 s) i) 0 \<and> frame_of (entry_at (phys s) (cr3 s) i) = t"
  by (simp add: table_of_def Let_def)

lemma table_of_None_iff: "table_of s i = None \<longleftrightarrow> \<not> bit (entry_at (phys s) (cr3 s) i) 0"
  by (simp add: table_of_def Let_def)

lemma vmm_unmap_page_run:
  assumes inv: "vm_inv pd idt (s, p)" and va: "page_aligned va"
  shows "vmm_unmap_page pd va s =
    (case table_of s (dir_index va) of
       None \<Rightarrow> ret (False, s)
     | Some t \<Rightarrow> if walk s va = None then ret (False, s)
                 else ret (True, flush_tlb_entry va (vm_set t (table_index va) 0 s)))"
proof (cases "table_of s (dir_index va)")
  case None
  then show ?thesis
    using va directory_access(1) [OF inv, of va] unfolding table_of_None_iff
    by (simp add: vmm_unmap_page_def page_aligned_mod Let_def word_pde_fields None flip: dir_index_def table_index_def)
next
  case (Some t)
  note L = table_low [OF inv index_less(1) Some]
  have "bit (entry_at (phys s) (cr3 s) (dir_index va)) 0" "frame_of (entry_at (phys s) (cr3 s) (dir_index va)) = t"
    using Some by (simp_all add: table_of_Some_iff)
  then show ?thesis
    using va Some walk_entry [OF inv, of va] directory_access(1) [OF inv, of va] window_access(1,4) [OF inv L index_less(2)]
    by (simp add: vmm_unmap_page_def page_aligned_mod Let_def word_pde_fields word_pte_fields
        flip: dir_index_def table_index_def)
qed

lemma vmm_unmap_page_ok:
  assumes inv: "vm_inv pd idt (s, p)" and va: "page_aligned va" "\<not> shared_slot (dir_index va)"
    and mapped: "walk s va \<noteq> None"
  obtains s' where "vmm_unmap_page pd va s = ret (True, s')" and "vm_inv pd idt (s', p)"
    and "\<And>v. walk s' v = (if frame_of v = va then None else walk s v)" and "tlb_ok s \<Longrightarrow> tlb_ok s'"
    and "\<And>x. \<not> paging_byte s' x \<Longrightarrow> phys s' x = phys s x"
proof -
  obtain t where t: "table_of s (dir_index va) = Some t"
    using mapped walk_entry [OF inv, of va] by (auto split: option.splits)
  note O = own_table_facts [OF inv index_less(1) va(2) t] and I = index_less(2) [of va]
  let ?s = "vm_set t (table_index va) 0 s"
  have wk: "walk ?s v = (if frame_of v = va then None else walk s v)" for v
    using walk_set_own [OF inv index_less(1) va(2) t I, of 0 v] same_page [of v va] frame_of_id [OF va(1)] by simp
  have T: "table_of ?s j = table_of s j" if "unat j < 1024" for j
    by (rule table_of_set_own [OF inv index_less(1) va(2) t I that])
  show thesis
  proof (rule that [of "flush_tlb_entry va ?s"])
    show "vmm_unmap_page pd va s = ret (True, flush_tlb_entry va ?s)"
      using vmm_unmap_page_run [OF inv va(1)] t mapped by simp
    show "vm_inv pd idt (flush_tlb_entry va ?s, p)"
      using vm_inv_set_own [OF inv index_less(1) va(2) t I] by simp
    show "tlb_ok (flush_tlb_entry va ?s)" if "tlb_ok s"
      by (rule tlb_flush_ok [OF that _ va(1)]) (simp_all add: wk)
    fix x assume "\<not> paging_byte (flush_tlb_entry va ?s) x"
    then have "\<not> in_range t 4096 x" using T t index_less(1) [of va] by (auto simp: paging_byte_def)
    then show "phys (flush_tlb_entry va ?s) x = phys s x" by (simp add: vm_set_frame [OF O(1) I])
  qed (simp add: wk)
qed

text \<open>A page that is mapped stays as it is.\<close>

lemma vmm_map_page_mapped:
  assumes inv: "vm_inv pd idt (s, p)" and va: "page_aligned va" "page_aligned pa" and mapped: "walk s va \<noteq> None"
  shows "vmm_map_page pd va pa flags (s, p) = ret (False, s, p)"
proof -
  obtain t where t: "table_of s (dir_index va) = Some t" "bit (entry_at (phys s) t (table_index va)) 0"
    using mapped walk_entry [OF inv, of va] by (auto split: option.splits)
  note L = table_low [OF inv index_less(1) t(1)]
  have "bit (entry_at (phys s) (cr3 s) (dir_index va)) 0" "frame_of (entry_at (phys s) (cr3 s) (dir_index va)) = t"
    using t(1) by (simp_all add: table_of_Some_iff)
  then have "get_or_create_pte pd va flags (s, p) = ret (physical_to_virtual t + 4 * table_index va, s, p)"
    using directory_access(1) [OF inv, of va]
    by (simp add: get_or_create_pte_def Let_def word_pde_fields flip: dir_index_def table_index_def)
  then show ?thesis
    using va window_access(1,3) [OF inv L index_less(2)] t(2)
    by (simp add: vmm_map_page_def page_aligned_mod word_pte_fields)
qed

end
