(* ===== verification/VMM_Props.thy ===== *)
theory VMM_Props
  imports VMM_Correct
begin

text \<open>
  The properties of the virtual memory manager: start-up, mapping and unmapping, demand paging, and
  the coherence of the TLB along every sequence of operations.
\<close>

section \<open>Start-up\<close>

text \<open>With paging off the tables are reached at their physical addresses.\<close>

lemma off_access:
  assumes "\<not> bit (cr0 s) 31"
  shows "vm_read (b + 4 * i) s = ret (entry_at (phys s) b i)" and "vm_write (b + 4 * i) v s = ret (vm_set b i v s)"
    and "b \<noteq> NULL \<Longrightarrow> vm_memset b 0 4096 s = ret (vm_zero b s)"
  using assms
  by (simp_all add: vm_read_def vm_write_def vm_memset_def translate_def entry_at_def vm_set_def slot_addr_def vm_zero_def)

definition identity_word :: "nat \<Rightarrow> u32" where
  "identity_word i = pte_word ((word_pte 0)\<lparr>t_address := ucast (drop_bit 12 (of_nat i * PAGE_SIZE)),
     t_present := True, t_rw := True\<rparr>)"

lemma identity_word_fields:
  assumes "i < 1024"
  shows "bit (identity_word i) 0" and "frame_of (identity_word i) = push_bit 12 (of_nat i)"
proof -
  show "bit (identity_word i) 0" by (simp add: identity_word_def pte_word_present)
  have "unat (of_nat i * PAGE_SIZE) = i * 4096"
    using assms by (subst unat_mult_nowrap) (simp_all add: PAGE_SIZE_def unat_of_nat_u32)
  then have "page_aligned (of_nat i * PAGE_SIZE)" by (simp add: page_aligned_def)
  then have "frame_of (identity_word i) = of_nat i * PAGE_SIZE"
    by (simp add: identity_word_def pte_word_frame address_field)
  then show "frame_of (identity_word i) = push_bit 12 (of_nat i)" by (simp add: push_bit_eq_mult PAGE_SIZE_def)
qed

lemma identity_loop_ok:
  assumes "\<not> bit (cr0 s) 31" and "page_aligned b" and "distinct ns" and "\<And>i. i \<in> set ns \<Longrightarrow> i < 1024"
    and "\<And>i. i \<in> set ns \<Longrightarrow> entry_at (phys s) b (of_nat i) = 0"
  obtains s' where "identity_loop b ns s = ret s'" and "cr0 s' = cr0 s" "cr3 s' = cr3 s" "tlb s' = tlb s"
    and "\<And>c j. page_aligned c \<Longrightarrow> unat j < 1024 \<Longrightarrow> entry_at (phys s') c j =
      (if c = b \<and> unat j \<in> set ns then identity_word (unat j) else entry_at (phys s) c j)"
  using assms
proof (induction ns arbitrary: s thesis)
  case Nil
  then show ?case by simp
next
  case (Cons i ns)
  let ?s = "vm_set b (of_nat i) (identity_word i) s"
  have i: "i < 1024" "unat (of_nat i :: u32) = i" using Cons.prems(5) [of i] by (simp_all add: unat_of_nat_u32)
  have z: "entry_at (phys s) b (of_nat i) = 0" using Cons.prems(6) by simp
  have step: "identity_entry b i s = ret ?s"
    unfolding identity_entry_def Let_def off_access(1,2) [OF Cons.prems(2)] z identity_word_def bindR_simps by (rule refl)
  have E: "entry_at (phys ?s) c j = (if b = c \<and> of_nat i = j then identity_word i else entry_at (phys s) c j)"
    if "page_aligned c" "unat j < 1024" for c j
    using entry_at_vm_set [OF Cons.prems(3) that(1) _ that(2), of "of_nat i"] i by simp
  have clear: "entry_at (phys ?s) b (of_nat j) = 0" if "j \<in> set ns" for j
  proof -
    have "j < 1024" "j \<noteq> i" "unat (of_nat j :: u32) = j"
      using that Cons.prems(4) Cons.prems(5) [of j] by (auto simp: unat_of_nat_u32)
    then show ?thesis using E [OF Cons.prems(3), of "of_nat j"] Cons.prems(6) [of j] that i by (auto simp: word_unat_eq_iff)
  qed
  have off: "\<not> bit (cr0 ?s) 31" using Cons.prems(2) by simp
  obtain s' where s': "identity_loop b ns ?s = ret s'" "cr0 s' = cr0 ?s" "cr3 s' = cr3 ?s" "tlb s' = tlb ?s"
    "\<And>c j. page_aligned c \<Longrightarrow> unat j < 1024 \<Longrightarrow> entry_at (phys s') c j =
      (if c = b \<and> unat j \<in> set ns then identity_word (unat j) else entry_at (phys ?s) c j)"
    by (rule Cons.IH [OF _ off Cons.prems(3)]) (use Cons.prems(4,5) clear in auto)
  show ?case
  proof (rule Cons.prems(1))
    show "identity_loop b (i # ns) s = ret s'" using step s'(1) by simp
    fix c j assume cj: "page_aligned c" "unat (j :: u32) < 1024"
    have "of_nat i = j \<longleftrightarrow> i = unat j" using i(2) by (auto simp: word_unat_eq_iff)
    then show "entry_at (phys s') c j =
        (if c = b \<and> unat j \<in> set (i # ns) then identity_word (unat j) else entry_at (phys s) c j)"
      unfolding s'(5) [OF cj] E [OF cj] by auto
  qed (use s'(2-4) in simp_all)
qed

lemma set_directory_entry_ok:
  assumes "\<not> bit (cr0 s) 31" and "page_aligned t"
  obtains w where "set_directory_entry b i t s = ret (vm_set b i w s)" and "bit w 0" and "frame_of w = t"
proof
  let ?w = "pde_word ((word_pde (entry_at (phys s) b i))\<lparr>d_address := ucast (drop_bit 12 t), d_present := True, d_rw := True\<rparr>)"
  show "set_directory_entry b i t s = ret (vm_set b i ?w s)"
    unfolding set_directory_entry_def Let_def off_access(1,2) [OF assms(1)] bindR_simps by (rule refl)
  show "bit ?w 0" "frame_of ?w = t" by (simp_all add: pde_word_present pde_word_frame address_field [OF assms(2)])
qed

lemma walk_identity:
  assumes inv: "vm_inv pd idt (s, p)" and sh: "shared_slot (dir_index v)" and u: "unat f = unat v mod 4194304"
  shows "walk s v = Some f"
proof -
  note V = vm_invD [OF inv]
  let ?w = "entry_at (phys s) (virtual_to_physical idt) (table_index v)"
  have w: "bit ?w 0" "frame_of ?w = push_bit 12 (table_index v)"
    using V(9) index_less(2) [of v] by (simp_all add: identity_table_def)
  have f: "unat (frame_of ?w) = unat (table_index v) * 4096"
    using w(2) index_less(2) [of v] by (simp add: push_bit_eq_mult unat_mult_nowrap)
  have "unat (frame_of ?w + (v AND 0xFFF)) = unat v div 4096 mod 1024 * 4096 + unat v mod 4096"
    using f index_less(2) [of v] unat_page_offset [of v]
    by (subst unat_add_nowrap) (simp_all add: unat_table_index)
  also have "\<dots> = unat v mod 4194304" using mod_mult2_eq [of "unat v" 4096 1024] by simp
  finally have "frame_of ?w + (v AND 0xFFF) = f" using u by (simp add: word_unat_eq_iff)
  then have "frame_of ?w OR (v AND 0xFFF) = f" using frame_or [of ?w v] by simp
  moreover have "table_of s (dir_index v) = Some (virtual_to_physical idt)" using sh V(7,8) by auto
  ultimately show ?thesis
    unfolding walk_table [OF static_pageD(1) [OF V(4)]] using w(1) by simp
qed

lemma vmm_preinit_run:
  assumes off: "\<not> bit (cr0 s) 31" and pd: "page_aligned (virtual_to_physical pd)" "virtual_to_physical pd \<noteq> NULL"
    and idt: "page_aligned (virtual_to_physical idt)" "virtual_to_physical idt \<noteq> NULL"
    and ne: "virtual_to_physical pd \<noteq> virtual_to_physical idt"
  obtains s' where "vmm_preinit pd idt s = ret s'" and "bit (cr0 s') 31" and "cr3 s' = virtual_to_physical pd"
    and "tlb s' = Map.empty"
    and "\<And>i. unat i < 1024 \<Longrightarrow> table_of s' i = (if shared_slot i then Some (virtual_to_physical idt) else None)"
    and "identity_table (phys s') (virtual_to_physical idt)"
proof -
  let ?d = "virtual_to_physical pd" and ?t = "virtual_to_physical idt"
  define s2 where "s2 = vm_zero ?t (vm_zero ?d s)"
  have E2: "entry_at (phys s2) c j = (if c = ?t \<or> c = ?d then 0 else entry_at (phys s) c j)"
    if "page_aligned c" "unat j < 1024" for c j
    unfolding s2_def entry_at_vm_zero [OF idt(1) that] entry_at_vm_zero [OF pd(1) that] by auto
  have off2: "\<not> bit (cr0 s2) 31" using off by (simp add: s2_def)
  obtain s3 where s3: "identity_loop ?t [0..<1024] s2 = ret s3" "cr0 s3 = cr0 s2" "cr3 s3 = cr3 s2" "tlb s3 = tlb s2"
    "\<And>c j. page_aligned c \<Longrightarrow> unat j < 1024 \<Longrightarrow> entry_at (phys s3) c j =
      (if c = ?t \<and> unat j \<in> set [0..<1024] then identity_word (unat j) else entry_at (phys s2) c j)"
    by (rule identity_loop_ok [OF off2 idt(1), of "[0..<1024]"])
      (use E2 [OF idt(1)] in \<open>auto simp: unat_of_nat_u32 simp del: upt_rec_numeral\<close>)
  have off3: "\<not> bit (cr0 s3) 31" using off2 s3(2) by simp
  obtain v where v: "set_directory_entry ?d 0 ?t s3 = ret (vm_set ?d 0 v s3)" "bit v 0" "frame_of v = ?t"
    by (rule set_directory_entry_ok [OF off3 idt(1)])
  let ?s4 = "vm_set ?d 0 v s3"
  have off4: "\<not> bit (cr0 ?s4) 31" using off3 by simp
  obtain w where w: "set_directory_entry ?d 768 ?t ?s4 = ret (vm_set ?d 768 w ?s4)" "bit w 0" "frame_of w = ?t"
    by (rule set_directory_entry_ok [OF off4 idt(1)])
  let ?s5 = "vm_set ?d 768 w ?s4"
  let ?s' = "enable_paging (load_page_directory ?d ?s5)"
  have E: "entry_at (phys ?s') c j = (if c = ?d \<and> j = 768 then w else if c = ?d \<and> j = 0 then v
      else if c = ?t then identity_word (unat j) else if c = ?d then 0 else entry_at (phys s) c j)"
    if c: "page_aligned c" "unat j < 1024" for c j
  proof -
    have "entry_at (phys ?s') c j = entry_at (phys ?s5) c j" by (simp add: enable_paging_def load_page_directory_def)
    also have "\<dots> = (if ?d = c \<and> 768 = j then w else entry_at (phys ?s4) c j)"
      by (rule entry_at_vm_set [OF pd(1) c(1) _ c(2)]) simp
    also have "entry_at (phys ?s4) c j = (if ?d = c \<and> 0 = j then v else entry_at (phys s3) c j)"
      by (rule entry_at_vm_set [OF pd(1) c(1) _ c(2)]) simp
    also have "entry_at (phys s3) c j = (if c = ?t then identity_word (unat j) else entry_at (phys s2) c j)"
      using s3(5) [OF c] c(2) by simp
    finally show ?thesis using E2 [OF c] ne by auto
  qed
  have k: "drop_bit 22 KERNEL_VIRTUAL_BASE = 768" by (simp add: KERNEL_VIRTUAL_BASE_def drop_bit_eq_div)
  show thesis
  proof (rule that)
    show "vmm_preinit pd idt s = ret ?s'"
      using off_access(3) [OF off pd(2)] off_access(3) [of "vm_zero ?d s" ?t] off idt(2) s3(1) v(1) w(1)
      by (simp add: vmm_preinit_def Let_def k s2_def PAGE_ENTRIES_def del: upt_rec_numeral)
    show "table_of ?s' i = (if shared_slot i then Some ?t else None)" if "unat i < 1024" for i
    proof -
      have "cr3 ?s' = ?d" by (simp add: enable_paging_def load_page_directory_def)
      then show ?thesis using E [OF pd(1) that] ne v w by (auto simp: table_of_def)
    qed
    show "identity_table (phys ?s') ?t"
      unfolding identity_table_def using E [OF idt(1)] ne identity_word_fields by auto
    have b: "bit (0x80000000 :: u32) 31" by (simp add: bit_iff_odd)
    show "bit (cr0 ?s') 31" by (simp add: enable_paging_def bit_or_iff b)
  qed (simp_all add: enable_paging_def load_page_directory_def)
qed

lemma window_slot:
  assumes v: "unat v < 4194304"
  shows "dir_index v = 0" and "dir_index (physical_to_virtual v) = 768"
    and "unat (physical_to_virtual v) mod 4194304 = unat v"
proof -
  have u: "unat (physical_to_virtual v) = unat v + 3221225472"
    unfolding physical_to_virtual_def KERNEL_VIRTUAL_BASE_def using v by (subst unat_add_nowrap) simp_all
  have "(unat v + 4194304 * 768) div 4194304 = 768" "(unat v + 4194304 * 768) mod 4194304 = unat v"
    using v by (simp_all only: div_mult_self2 mod_mult_self2) simp_all
  then show "dir_index v = 0" "dir_index (physical_to_virtual v) = 768"
    "unat (physical_to_virtual v) mod 4194304 = unat v"
    using v u by (simp_all add: word_unat_eq_iff unat_dir_index)
qed

text \<open>\<open>vmm_preinit\<close> turns paging on with a directory that maps the first 4 MiB of memory twice, at
  their own addresses and at the kernel's virtual base, and nothing else, and establishes the
  invariant of the paging structures.\<close>

lemma vmm_preinit_ok:
  assumes "\<not> bit (cr0 s) 31" and "static_page p (virtual_to_physical pd)" and "static_page p (virtual_to_physical idt)"
    and "virtual_to_physical pd \<noteq> NULL" and "virtual_to_physical idt \<noteq> NULL" and "pd \<noteq> idt" and "pmm_inv p"
  obtains s' where "vmm_preinit pd idt s = ret s'" and "vm_inv pd idt (s', p)" and "tlb_ok s'"
    and "\<And>v. unat v < 4194304 \<Longrightarrow> walk s' v = Some v \<and> walk s' (physical_to_virtual v) = Some v"
    and "\<And>v. \<not> shared_slot (dir_index v) \<Longrightarrow> walk s' v = None"
    and "\<And>i. unat i < 1024 \<Longrightarrow> \<not> shared_slot i \<Longrightarrow> table_of s' i = None"
proof -
  have ne: "virtual_to_physical pd \<noteq> virtual_to_physical idt" using assms(6) by (simp add: virtual_to_physical_def)
  obtain s' where s': "vmm_preinit pd idt s = ret s'" "bit (cr0 s') 31" "cr3 s' = virtual_to_physical pd"
    "tlb s' = Map.empty"
    "\<And>i. unat i < 1024 \<Longrightarrow> table_of s' i = (if shared_slot i then Some (virtual_to_physical idt) else None)"
    "identity_table (phys s') (virtual_to_physical idt)"
    by (rule vmm_preinit_run [OF assms(1) static_pageD(1) [OF assms(2)] assms(4) static_pageD(1) [OF assms(3)] assms(5) ne]) blast
  have inv: "vm_inv pd idt (s', p)"
    by (intro vm_invI) (use assms ne s' in \<open>auto split: if_splits\<close>)
  have walk0: "walk s' v = Some v \<and> walk s' (physical_to_virtual v) = Some v" if v: "unat v < 4194304" for v
    using walk_identity [OF inv, of v v] walk_identity [OF inv, of "physical_to_virtual v" v] window_slot [OF v] v by simp
  have "walk s' v = None" if "\<not> shared_slot (dir_index v)" for v
    using walk_entry [OF inv, of v] s'(5) [OF index_less(1), of v] that by simp
  then show thesis using that [OF s'(1) inv] s'(4,5) walk0 by (simp add: tlb_ok_def)
qed

text \<open>The machine of the witnesses: directory and identity table above the memory of \<open>demo_pmm\<close>.\<close>

definition demo_cpu :: vm_state where
  "demo_cpu = \<lparr>phys = \<lambda>_. 0xFF, cr0 = 1, cr3 = 0, tlb = Map.empty\<rparr>"

definition demo_vm :: vm_state where
  "demo_vm = (case vmm_preinit 0xC0300000 0xC0301000 demo_cpu of Some (Inr s) \<Rightarrow> s | _ \<Rightarrow> demo_cpu)"

lemma demo_static:
  "static_page demo_pmm (virtual_to_physical 0xC0300000)" "static_page demo_pmm (virtual_to_physical 0xC0301000)"
proof -
  have "managed demo_pmm = {0x100000..<0x104000}" by (simp add: managed_def demo_pmm_def demo_state_def)
  then show "static_page demo_pmm (virtual_to_physical 0xC0300000)" "static_page demo_pmm (virtual_to_physical 0xC0301000)"
    by (simp_all add: static_page_def page_aligned_def LOW_MEMORY_def virtual_to_physical_def KERNEL_VIRTUAL_BASE_def)
qed

lemma demo_vm_facts:
  "vm_inv 0xC0300000 0xC0301000 (demo_vm, demo_pmm)" "tlb_ok demo_vm"
  "unat i < 1024 \<Longrightarrow> \<not> shared_slot i \<Longrightarrow> table_of demo_vm i = None"
  "\<not> shared_slot (dir_index v) \<Longrightarrow> walk demo_vm v = None"
  "vmm_preinit 0xC0300000 0xC0301000 demo_cpu = ret demo_vm"
proof -
  have off: "\<not> bit (cr0 demo_cpu) 31" by (simp add: demo_cpu_def bit_1_iff)
  obtain s where s: "vmm_preinit 0xC0300000 0xC0301000 demo_cpu = ret s"
    "vm_inv 0xC0300000 0xC0301000 (s, demo_pmm)" "tlb_ok s" "\<And>v. \<not> shared_slot (dir_index v) \<Longrightarrow> walk s v = None"
    "\<And>i. unat i < 1024 \<Longrightarrow> \<not> shared_slot i \<Longrightarrow> table_of s i = None"
    by (rule vmm_preinit_ok [OF off demo_static _ _ _ demo_pmm_inv])
      (simp_all add: virtual_to_physical_def KERNEL_VIRTUAL_BASE_def)
  then have "demo_vm = s" by (simp add: demo_vm_def)
  then show "vm_inv 0xC0300000 0xC0301000 (demo_vm, demo_pmm)" "tlb_ok demo_vm"
    "unat i < 1024 \<Longrightarrow> \<not> shared_slot i \<Longrightarrow> table_of demo_vm i = None"
    "\<not> shared_slot (dir_index v) \<Longrightarrow> walk demo_vm v = None"
    "vmm_preinit 0xC0300000 0xC0301000 demo_cpu = ret demo_vm"
    using s by simp_all
qed

lemma demo_alloc_page:
  obtains a p where "pmm_alloc_pages 1 demo_pmm = ret (a, p)" and "a \<noteq> NULL" and "unat a < 4194304"
proof -
  have "0 \<le> MAX_ORDER" "can_alloc 0 demo_pmm" by (simp_all add: demo_can_alloc)
  then obtain a p where p: "pmm_alloc_order 0 demo_pmm = ret (a, p)"
    by (rule pmm_alloc_order_ok [OF demo_pmm_inv])
  then have al: "pmm_alloc_pages 1 demo_pmm = ret (a, p)" by (simp only: pmm_alloc_one_page)
  have "managed demo_pmm = {0x100000..<0x104000}" by (simp add: managed_def demo_pmm_def demo_state_def)
  then have "{unat a..<unat a + 4096} \<subseteq> {0x100000..<0x104000}" using frm.fresh_frame(2) [OF demo_pmm_inv al] by simp
  then have "0x100000 \<le> unat a" "unat a < 0x104000" by auto
  then have "a \<noteq> NULL" "unat a < 4194304" by auto
  then show thesis by (rule that [OF al])
qed

section \<open>The shared tables\<close>

text \<open>While the invariant holds, the first 4 MiB are mapped at both of their addresses.\<close>

lemma unmapped_not_shared:
  assumes "vm_inv pd idt (s, p)" and "walk s v = None"
  shows "\<not> shared_slot (dir_index v)"
proof
  assume sh: "shared_slot (dir_index v)"
  have "unat (of_nat (unat v mod 4194304) :: u32) = unat v mod 4194304" by (simp add: unat_of_nat_u32)
  from walk_identity [OF assms(1) sh this] show False using assms(2) by simp
qed

text \<open>The other address of a page in a shared slot.\<close>

definition window_alias :: "u32 \<Rightarrow> u32" where
  "window_alias va = (if dir_index va = 0 then physical_to_virtual va else virtual_to_physical va)"

lemma window_alias_index:
  assumes "shared_slot (dir_index va)"
  shows "dir_index (window_alias va) = (if dir_index va = 0 then 768 else 0)"
    and "table_index (window_alias va) = table_index va"
    and "page_aligned va \<Longrightarrow> page_aligned (window_alias va)"
proof -
  have low: "unat v < 4194304 \<Longrightarrow> dir_index (physical_to_virtual v) = 768 \<and>
      table_index (physical_to_virtual v) = table_index v \<and>
      (page_aligned (physical_to_virtual v) \<longleftrightarrow> page_aligned v)" for v
  proof -
    assume v: "unat v < 4194304"
    have u: "unat (physical_to_virtual v) = unat v + 3221225472"
      unfolding physical_to_virtual_def KERNEL_VIRTUAL_BASE_def using v by (subst unat_add_nowrap) simp_all
    have "(unat v + 4096 * 786432) div 4096 mod 1024 = (unat v div 4096 + 1024 * 768) mod 1024"
      by (simp only: div_mult_self2) (simp add: add.commute)
    also have "\<dots> = unat v div 4096 mod 1024" by (rule mod_mult_self2)
    finally have "table_index (physical_to_virtual v) = table_index v"
      by (simp add: word_unat_eq_iff unat_table_index u)
    moreover have "(4096 :: nat) dvd 3221225472" by simp
    then have "page_aligned (physical_to_virtual v) \<longleftrightarrow> page_aligned v"
      unfolding page_aligned_def u by (rule dvd_add_left_iff)
    ultimately show ?thesis using window_slot(2) [OF v] by blast
  qed
  have inv: "physical_to_virtual (virtual_to_physical va) = va"
    by (simp add: physical_to_virtual_def virtual_to_physical_def)
  consider "dir_index va = 0" "unat va < 4194304" | "dir_index va = 768" "unat (virtual_to_physical va) < 4194304"
  proof -
    have "unat va < 4194304" if "dir_index va = 0"
      using that unat_dir_index [of va] by (simp add: div_eq_0_iff)
    moreover have "unat (virtual_to_physical va) < 4194304" if "dir_index va = 768"
    proof -
      have "unat va div 4194304 = 768" using that unat_dir_index [of va] by simp
      then have "3221225472 \<le> unat va" "unat va < 3225419776"
        using div_mult_mod_eq [of "unat va" 4194304] mod_less_divisor [of 4194304 "unat va"] by simp_all
      then show ?thesis
        unfolding virtual_to_physical_def KERNEL_VIRTUAL_BASE_def by (subst unat_sub_nowrap) simp_all
    qed
    ultimately show thesis using assms that by blast
  qed
  note cases = this
  show "dir_index (window_alias va) = (if dir_index va = 0 then 768 else 0)"
    by (cases rule: cases) (use low window_slot(1) in \<open>auto simp: window_alias_def\<close>)
  show "table_index (window_alias va) = table_index va"
    by (cases rule: cases) (use low [of va] low [of "virtual_to_physical va"] inv in \<open>auto simp: window_alias_def\<close>)
  show "page_aligned va \<Longrightarrow> page_aligned (window_alias va)"
    by (cases rule: cases) (use low [of va] low [of "virtual_to_physical va"] inv in \<open>auto simp: window_alias_def\<close>)
qed

lemma shared_page_iff:
  assumes "shared_slot (dir_index va)" and "page_aligned va"
  shows "shared_slot (dir_index v) \<and> table_index v = table_index va \<longleftrightarrow>
    frame_of v = va \<or> frame_of v = window_alias va"
proof -
  note A = window_alias_index [OF assms(1)]
  have "frame_of v = va \<longleftrightarrow> dir_index v = dir_index va \<and> table_index v = table_index va"
    using same_page [of v va] frame_of_id [OF assms(2)] by simp
  moreover have "frame_of v = window_alias va \<longleftrightarrow>
      dir_index v = (if dir_index va = 0 then 768 else 0) \<and> table_index v = table_index va"
    using same_page [of v "window_alias va"] frame_of_id [OF A(3) [OF assms(2)]] A(1,2) by simp
  ultimately show ?thesis using assms(1) by auto
qed

lemma walk_set_shared:
  assumes inv: "vm_inv pd idt (s, p)" and i: "unat i < 1024"
  defines "t \<equiv> virtual_to_physical idt"
  shows "walk (vm_set t i 0 s) v = (if shared_slot (dir_index v) \<and> table_index v = i then None else walk s v)"
proof -
  note V = vm_invD [OF inv, folded t_def]
  have al: "page_aligned t" and C: "page_aligned (cr3 s)" "page_aligned (cr3 (vm_set t i 0 s))"
    using static_pageD(1) [OF V(5)] static_pageD(1) [OF V(4)] by simp_all
  have T: "table_of (vm_set t i 0 s) (dir_index v) = table_of s (dir_index v)"
    by (rule table_of_cong) (use V(3) entry_at_vm_set [OF al C(1) i index_less(1)] in simp_all)
  show ?thesis
  proof (cases "table_of s (dir_index v)")
    case None
    then show ?thesis unfolding C [THEN walk_table] T None by simp
  next
    case (Some t')
    have "t = t' \<longleftrightarrow> shared_slot (dir_index v)"
      using Some V(7,8) own_table_facts(4) [OF inv index_less(1) _ Some] by (auto simp: t_def)
    then have E: "entry_at (phys (vm_set t i 0 s)) t' (table_index v) =
        (if shared_slot (dir_index v) \<and> table_index v = i then 0 else entry_at (phys s) t' (table_index v))"
      using entry_at_vm_set [OF al table_aligned [OF Some] i index_less(2)] by auto
    show ?thesis unfolding C [THEN walk_table] T Some option.case Let_def E by auto
  qed
qed

section \<open>Properties\<close>

text \<open>C29. \<open>vmm_map_page\<close> on a page that is not mapped, in a state of the invariant, which keeps the
  first 4 MiB mapped at both their addresses. When the directory has a table for the page, or else the
  allocator returns a frame below 4 MiB other than frame 0 to make one from, it returns true;
  afterwards the processor translates the page to the frame (when the PRESENT flag is given) and every
  other address as before, the TLB stays coherent, and no memory outside the paging structures is
  touched. Without a table and without such a frame it fails, or faults itself.\<close>

theorem vmm_map_page_correct:
  assumes "vm_inv pd idt (s, p)" and "page_aligned va" and "page_aligned pa"
    and "table_ready s p va" and "walk s va = None"
  shows "\<exists>s' p'. vmm_map_page pd va pa flags (s, p) = ret (True, s', p') \<and> vm_inv pd idt (s', p') \<and>
    (\<forall>v. walk s' v = (if frame_of v = va
       then (if flags AND VMM_FLAG_PRESENT \<noteq> 0 then Some (pa OR (v AND 0xFFF)) else None) else walk s v)) \<and>
    (tlb_ok s \<longrightarrow> tlb_ok s') \<and> (\<forall>x. \<not> paging_byte s' x \<longrightarrow> phys s' x = phys s x)"
  by (rule vmm_map_page_ok [OF assms(1,2) unmapped_not_shared [OF assms(1,5)] assms(3-5), where flags = flags]) blast

lemma demo_page: "page_aligned 0x800000" "dir_index 0x800000 = 2" "page_aligned 0x500000"
  "frame_of 0x800004 = 0x800000"
  by (simp_all add: page_aligned_def word_unat_eq_iff unat_dir_index unat_frame_of)

lemma demo_table_ready: "table_ready demo_vm demo_pmm va"
  by (rule demo_alloc_page) (auto simp: table_ready_def LOW_MEMORY_def)

theorem vmm_map_page_correct_witness:
  "\<exists>s' p'. vmm_map_page 0xC0300000 0x800000 0x500000 (VMM_FLAG_RW OR VMM_FLAG_PRESENT) (demo_vm, demo_pmm)
      = ret (True, s', p') \<and> walk s' 0x800004 = Some 0x500004 \<and> tlb_ok s'"
proof -
  have f: "(VMM_FLAG_RW OR VMM_FLAG_PRESENT) AND VMM_FLAG_PRESENT \<noteq> 0"
    by (simp add: VMM_FLAG_RW_def VMM_FLAG_PRESENT_def push_bit_eq_mult)
  have "\<not> shared_slot (dir_index 0x800000)" by (simp add: demo_page)
  from vmm_map_page_correct [OF demo_vm_facts(1) demo_page(1) demo_page(3) demo_table_ready demo_vm_facts(4) [OF this],
      of "VMM_FLAG_RW OR VMM_FLAG_PRESENT"]
  obtain s' p' where "vmm_map_page 0xC0300000 0x800000 0x500000 (VMM_FLAG_RW OR VMM_FLAG_PRESENT) (demo_vm, demo_pmm)
      = ret (True, s', p')" "walk s' 0x800004 = Some (0x500000 OR (0x800004 AND 0xFFF))" "tlb_ok s'"
    using demo_page(4) f demo_vm_facts(2) by auto
  then show ?thesis by auto
qed

text \<open>C30. \<open>vmm_unmap_page\<close> on a mapped page returns true, and afterwards the page is not translated any
  more, neither by the walk nor from the TLB. Outside the two slots that share the identity table no
  other translation changes and invariant and TLB coherence are kept. In these slots the page goes from
  its other address as well, whose TLB entry is not flushed: if the processor has cached it, the TLB is
  left with a translation the tables do not have.\<close>

theorem vmm_unmap_page_correct:
  assumes "vm_inv pd idt (s, p)" and "page_aligned va" and "walk s va \<noteq> None"
  shows "\<exists>s'. vmm_unmap_page pd va s = ret (True, s') \<and>
    (\<forall>v. walk s' v = (if frame_of v = va \<or> shared_slot (dir_index va) \<and> frame_of v = window_alias va
       then None else walk s v)) \<and>
    tlb s' = (tlb s)(drop_bit 12 va := None) \<and>
    (\<forall>x. \<not> paging_byte s' x \<longrightarrow> phys s' x = phys s x) \<and>
    (if shared_slot (dir_index va) then tlb s (drop_bit 12 (window_alias va)) \<noteq> None \<longrightarrow> \<not> tlb_ok s'
     else vm_inv pd idt (s', p) \<and> (tlb_ok s \<longrightarrow> tlb_ok s'))"
proof (cases "shared_slot (dir_index va)")
  case False
  obtain s' where s': "vmm_unmap_page pd va s = ret (True, s')" "vm_inv pd idt (s', p)"
    "\<And>v. walk s' v = (if frame_of v = va then None else walk s v)" "tlb_ok s \<Longrightarrow> tlb_ok s'"
    "\<And>x. \<not> paging_byte s' x \<Longrightarrow> phys s' x = phys s x"
    by (rule vmm_unmap_page_ok [OF assms(1,2) False assms(3)]) blast
  moreover from this have "tlb s' = (tlb s)(drop_bit 12 va := None)"
    using vmm_unmap_page_run [OF assms(1,2)] assms(3) by (auto simp: flush_tlb_entry_def split: option.splits)
  ultimately show ?thesis using False by simp
next
  case True
  let ?t = "virtual_to_physical idt" and ?i = "table_index va" and ?al = "window_alias va"
  let ?s = "flush_tlb_entry va (vm_set ?t ?i 0 s)"
  note V = vm_invD [OF assms(1)] and A = window_alias_index [OF True] and I = index_less(2) [of va]
  have t: "table_of s (dir_index va) = Some ?t" using True V(7,8) by auto
  have run: "vmm_unmap_page pd va s = ret (True, ?s)"
    using vmm_unmap_page_run [OF assms(1,2)] t assms(3) by simp
  have wk: "walk ?s v = (if frame_of v = va \<or> frame_of v = ?al then None else walk s v)" for v
    using walk_set_shared [OF assms(1) I, of v] shared_page_iff [OF True assms(2), of v] by simp
  have mem: "phys ?s x = phys s x" if "\<not> paging_byte ?s x" for x
  proof -
    have "table_of ?s (dir_index va) = Some ?t"
      using t V(3) table_of_cong [of "vm_set ?t ?i 0 s" s "dir_index va"]
        entry_at_vm_set [OF static_pageD(1) [OF V(5)] static_pageD(1) [OF V(4)] I index_less(1)] by simp
    then have "\<not> in_range ?t 4096 x" using that index_less(1) [of va] by (auto simp: paging_byte_def)
    then show ?thesis by (simp add: vm_set_frame [OF static_pageD(1) [OF V(5)] I])
  qed
  have fl: "tlb ?s = (tlb s)(drop_bit 12 va := None)" by (simp add: flush_tlb_entry_def)
  have "\<not> tlb_ok ?s" if "tlb s (drop_bit 12 ?al) = Some f" for f
  proof
    assume ok: "tlb_ok ?s"
    have "?al \<noteq> va" using A(1) True by auto
    then have "drop_bit 12 ?al \<noteq> drop_bit 12 va"
      using page_number_eq [of ?al va] frame_of_id [OF assms(2)] frame_of_id [OF A(3) [OF assms(2)]] by simp
    then have "tlb ?s (drop_bit 12 ?al) = Some f" using that fl by simp
    then have "walk ?s (frame_of ?al) = Some f" using ok by (simp add: tlb_ok_def)
    then show False using wk [of "frame_of ?al"] frame_of_id [OF A(3) [OF assms(2)]] by simp
  qed
  then show ?thesis using run wk mem fl True by (intro exI [of _ ?s]) auto
qed

text \<open>A page outside the shared slots, and page 0x100 of the kernel's window with its low address.\<close>

theorem vmm_unmap_page_correct_witness:
  "(\<exists>s p s'. vm_inv 0xC0300000 0xC0301000 (s, p) \<and> walk s 0x800000 = Some 0x500000 \<and>
     vmm_unmap_page 0xC0300000 0x800000 s = ret (True, s') \<and> walk s' 0x800000 = None) \<and>
   (\<exists>s'. vmm_unmap_page 0xC0300000 0x100000 demo_vm = ret (True, s') \<and> walk s' 0xC0100000 = None)"
proof -
  have f: "1 AND VMM_FLAG_PRESENT \<noteq> 0" by (simp add: VMM_FLAG_PRESENT_def)
  have ns: "\<not> shared_slot (dir_index 0x800000)" by (simp add: demo_page)
  have fr: "frame_of 0x800000 = 0x800000" by (rule frame_of_id [OF demo_page(1)])
  obtain s p where s: "vm_inv 0xC0300000 0xC0301000 (s, p)" "walk s 0x800000 = Some 0x500000"
    by (rule vmm_map_page_ok [OF demo_vm_facts(1) demo_page(1) ns demo_page(3) demo_table_ready demo_vm_facts(4) [OF ns], where flags = 1])
      (use fr f in auto)
  have low: "page_aligned 0x100000" "dir_index 0x100000 = 0" "frame_of 0xC0100000 = 0xC0100000"
    "window_alias 0x100000 = 0xC0100000"
    by (simp_all add: page_aligned_def word_unat_eq_iff unat_dir_index unat_frame_of window_alias_def
        physical_to_virtual_def KERNEL_VIRTUAL_BASE_def)
  have m: "walk demo_vm 0x100000 \<noteq> None" using unmapped_not_shared [OF demo_vm_facts(1), of "0x100000"] low(2) by auto
  show ?thesis
    using vmm_unmap_page_correct [OF s(1) demo_page(1)] s fr vmm_unmap_page_correct [OF demo_vm_facts(1) low(1) m] low
    by fastforce
qed

text \<open>The requests that are refused change nothing: an address that is not page-aligned, mapping a
  page that is mapped already, and unmapping one that is not.\<close>

lemma vmm_requests_refused:
  assumes "vm_inv pd idt (s, p)"
  shows "(\<not> page_aligned va \<or> \<not> page_aligned pa \<longrightarrow> vmm_map_page pd va pa flags (s, p) = ret (False, s, p)) \<and>
    (page_aligned va \<and> page_aligned pa \<and> walk s va \<noteq> None \<longrightarrow>
       vmm_map_page pd va pa flags (s, p) = ret (False, s, p)) \<and>
    (\<not> page_aligned va \<or> walk s va = None \<longrightarrow> vmm_unmap_page pd va s = ret (False, s))"
proof (intro conjI impI)
  assume "\<not> page_aligned va \<or> \<not> page_aligned pa"
  then show "vmm_map_page pd va pa flags (s, p) = ret (False, s, p)" by (auto simp: vmm_map_page_def page_aligned_mod)
next
  assume "page_aligned va \<and> page_aligned pa \<and> walk s va \<noteq> None"
  then show "vmm_map_page pd va pa flags (s, p) = ret (False, s, p)" using vmm_map_page_mapped [OF assms] by blast
next
  assume h: "\<not> page_aligned va \<or> walk s va = None"
  show "vmm_unmap_page pd va s = ret (False, s)"
  proof (cases "page_aligned va")
    case True
    then show ?thesis using h vmm_unmap_page_run [OF assms True] by (simp split: option.split)
  next
    case False
    then show ?thesis by (simp add: vmm_unmap_page_def page_aligned_mod)
  qed
qed

text \<open>The page-fault handler, with what a client needs to go on.\<close>

lemma vmm_page_fault_ok:
  assumes inv: "vm_inv pd idt (s, p)" and err: "err_code frame AND 1 = 0"
    and ns: "\<not> shared_slot (dir_index (cr2 frame))" and np: "walk s (cr2 frame) = None"
    and al: "pmm_alloc_pages 1 p = ret (a, p1)" and nz: "a \<noteq> NULL" and rdy: "table_ready s p1 (cr2 frame)"
  shows "\<exists>s' p'. vmm_page_fault_handler pd frame (s, p) = ret (s', p') \<and> vm_inv pd idt (s', p') \<and>
    (\<forall>v. walk s' v = (if frame_of v = frame_of (cr2 frame) then Some (a OR (v AND 0xFFF)) else walk s v)) \<and>
    (\<forall>i < 4096. phys s' (a + of_nat i) = 0) \<and>
    (\<forall>x. \<not> paging_byte s' x \<and> \<not> in_range a 4096 x \<longrightarrow> phys s' x = phys s x) \<and>
    page_aligned a \<and> \<not> paging_page s' a"
proof -
  let ?va = "frame_of (cr2 frame)" and ?fl = "VMM_FLAG_RW OR VMM_FLAG_PRESENT"
  have "PAGE_SIZE - 1 = 0xFFF" by (simp add: PAGE_SIZE_def)
  then have ka: "kalign_down (cr2 frame) PAGE_SIZE = ?va" by (simp only: kalign_down_def frame_of_def)
  have ix: "dir_index ?va = dir_index (cr2 frame)" "table_index ?va = table_index (cr2 frame)"
    using same_page [of ?va "cr2 frame"] frame_of_id [OF frame_of_aligned] by auto
  note F = alloc_frame [OF inv al]
  have np': "walk s ?va = None" using np unfolding walk_entry [OF inv] ix .
  have fl: "?fl AND VMM_FLAG_PRESENT \<noteq> 0"
    by (simp add: VMM_FLAG_RW_def VMM_FLAG_PRESENT_def push_bit_eq_mult)
  obtain s2 p2 where m: "vmm_map_page pd ?va a ?fl (s, p1) = ret (True, s2, p2)" "vm_inv pd idt (s2, p2)"
    "\<And>v. walk s2 v = (if frame_of v = ?va then Some (a OR (v AND 0xFFF)) else walk s v)"
    "\<And>x. \<not> paging_byte s2 x \<Longrightarrow> phys s2 x = phys s x"
    "\<And>b. b \<in> single_frames p1 \<Longrightarrow> \<not> paging_page s b \<Longrightarrow> \<not> paging_page s2 b"
    by (rule vmm_map_page_ok [OF F(1) frame_of_aligned _ F(3) _ np', where flags = ?fl])
      (use ns rdy fl in \<open>auto simp: ix table_ready_def\<close>)
  have np2: "\<not> paging_page s2 a" by (rule m(5) [OF F(4,2)])
  note Z = zero_frame [OF m(2) F(3) np2]
  have nn: "?va \<noteq> NULL"
  proof
    assume "?va = NULL"
    then have "dir_index (cr2 frame) = 0" using ix(1) by (simp add: word_unat_eq_iff unat_dir_index)
    then show False using ns by simp
  qed
  have "?va AND 0xFFF = 0" using unat_page_offset [of ?va] by (simp add: word_unat_eq_iff unat_frame_of)
  then have "translate s2 ?va = Some a"
    using m(3) [of ?va] vm_invD(1) [OF m(2)] frame_of_id [OF frame_of_aligned] by (simp add: translate_def)
  then have "vm_memset ?va 0 PAGE_SIZE s2 = ret (vm_zero a s2)"
    using nn by (simp add: vm_memset_def vm_zero_def PAGE_SIZE_def)
  then have run: "vmm_page_fault_handler pd frame (s, p) = ret (vm_zero a s2, p2)"
    using err al nz m(1) by (simp add: vmm_page_fault_handler_def Let_def ka)
  have zero: "phys (vm_zero a s2) (a + of_nat i) = 0" if "i < 4096" for i
    using in_range_offset [of i 4096 a] that by (simp add: vm_zero_def kmemset_loop_apply)
  have "phys (vm_zero a s2) x = phys s x" if "\<not> paging_byte (vm_zero a s2) x" "\<not> in_range a 4096 x" for x
    using that m(4) [of x] Z(2) by (auto simp: vm_zero_frame paging_byte_def)
  moreover have "\<not> paging_page (vm_zero a s2) a" using np2 Z(2) by (auto simp: paging_page_def)
  ultimately show ?thesis using run Z(1,3) m(3) zero F(3) by (intro exI [of _ "vm_zero a s2"] exI [of _ p2]) auto
qed

text \<open>C27. Demand paging. On a fault at a page that is not present, in a state of the invariant, and when
  the allocator returns a frame other than frame 0 and then, if the directory has no table for the
  page, a second one below 4 MiB to make it from, \<open>vmm_page_fault_handler\<close> returns after mapping the
  fresh frame, filled with zeros, at the page of the faulting address; every other translation stays,
  and no other memory of a client changes. In the other cases the
  handler panics, or, when the frame for the table lies above, faults itself.\<close>

theorem vmm_page_fault_correct:
  assumes inv: "vm_inv pd idt (s, p)" and err: "err_code frame AND 1 = 0" and np: "walk s (cr2 frame) = None"
    and al: "pmm_alloc_pages 1 p = ret (a, p1)" and nz: "a \<noteq> NULL" and rdy: "table_ready s p1 (cr2 frame)"
  shows "\<exists>s' p'. vmm_page_fault_handler pd frame (s, p) = ret (s', p') \<and> vm_inv pd idt (s', p') \<and>
    (\<forall>v. walk s' v = (if frame_of v = frame_of (cr2 frame) then Some (a OR (v AND 0xFFF)) else walk s v)) \<and>
    (\<forall>i < 4096. phys s' (a + of_nat i) = 0) \<and>
    (\<forall>x. \<not> paging_byte s' x \<and> \<not> in_range a 4096 x \<longrightarrow> phys s' x = phys s x)"
  using vmm_page_fault_ok [OF inv err unmapped_not_shared [OF inv np] np al nz rdy] by blast

definition demo_one :: pmm_state where
  "demo_one = demo_state [(0, 1), (1, 2)] [(0, False, None), (0, True, None), (1, True, None), (0, True, None)]"

definition demo_two :: pmm_state where
  "demo_two = demo_state [(1, 2)] [(0, False, None), (0, False, None), (1, True, None), (0, True, None)]"

lemma demo_one_page: "pmm_alloc_pages 1 demo_pmm = ret (0x100000, demo_one)"
  unfolding pmm_alloc_one_page by code_simp

lemma demo_two_page: "pmm_alloc_pages 1 demo_one = ret (0x101000, demo_two)"
  unfolding pmm_alloc_one_page by code_simp

theorem vmm_page_fault_correct_witness:
  "\<exists>s' p'. vmm_page_fault_handler 0xC0300000 ((demo_frame 14)\<lparr>cr2 := 0x800004\<rparr>) (demo_vm, demo_pmm) = ret (s', p') \<and>
    walk s' 0x800004 = Some 0x100004 \<and> phys s' 0x100004 = 0"
proof -
  let ?f = "(demo_frame 14)\<lparr>cr2 := 0x800004\<rparr>"
  have f: "err_code ?f AND 1 = 0" "cr2 ?f = 0x800004" by (simp_all add: demo_frame_def)
  have ix: "dir_index 0x800004 = 2" by (simp add: word_unat_eq_iff unat_dir_index)
  then have w: "walk demo_vm (cr2 ?f) = None" unfolding f(2) by (intro demo_vm_facts(4)) simp
  have rdy: "table_ready demo_vm demo_one (cr2 ?f)"
    using demo_two_page by (auto simp: table_ready_def LOW_MEMORY_def)
  obtain s' p' where r: "vmm_page_fault_handler 0xC0300000 ?f (demo_vm, demo_pmm) = ret (s', p')"
    "\<And>v. walk s' v = (if frame_of v = frame_of (cr2 ?f) then Some (0x100000 OR (v AND 0xFFF)) else walk demo_vm v)"
    "\<And>i. i < 4096 \<Longrightarrow> phys s' (0x100000 + of_nat i) = 0"
    using vmm_page_fault_correct [OF demo_vm_facts(1) f(1) w demo_one_page _ rdy] by auto
  have "walk s' 0x800004 = Some 0x100004" using r(2) [of "0x800004"] f(2) by simp
  moreover have "phys s' 0x100004 = 0" using r(3) [of 4] by simp
  ultimately show ?thesis using r(1) by blast
qed











section \<open>Every sequence of operations\<close>

text \<open>
  The kernel maps pages anywhere, as long as a table can be made where one is missing; it unmaps pages
  outside the two slots that share the identity table; and in between the processor may cache any
  translation the walk gives. Unmapping in a shared slot is left out because it breaks the coherence.
\<close>

inductive vm_step :: "u32 \<Rightarrow> vm_state \<times> pmm_state \<Rightarrow> vm_state \<times> pmm_state \<Rightarrow> bool" for pd where
  vm_map: "table_ready s p va \<Longrightarrow>
    vmm_map_page pd va pa flags (s, p) = ret (ok, s', p') \<Longrightarrow> vm_step pd (s, p) (s', p')"
| vm_unmap: "\<not> shared_slot (dir_index va) \<Longrightarrow> vmm_unmap_page pd va s = ret (ok, s') \<Longrightarrow>
    vm_step pd (s, p) (s', p)"
| vm_cache: "walk s (frame_of va) = Some f \<Longrightarrow> vm_step pd (s, p) (s\<lparr>tlb := (tlb s)(drop_bit 12 va \<mapsto> f)\<rparr>, p)"

inductive_cases vm_stepE: "vm_step pd (s, p) (s', p')"

lemma walk_tlb: "walk (s\<lparr>tlb := t\<rparr>) v = walk s v"
  by (simp add: walk_def Let_def)

lemma tlb_cache_ok:
  assumes "tlb_ok s" and "walk s (frame_of va) = Some f"
  shows "tlb_ok (s\<lparr>tlb := (tlb s)(drop_bit 12 va \<mapsto> f)\<rparr>)"
  using assms page_number_eq [of _ va] by (auto simp: tlb_ok_def walk_tlb)

lemma vm_step_inv:
  assumes "vm_step pd (s, p) (s', p')" and inv: "vm_inv pd idt (s, p)" and tlb: "tlb_ok s"
  shows "vm_inv pd idt (s', p') \<and> tlb_ok s'"
  using assms(1)
proof (elim vm_stepE)
  fix va pa flags ok
  assume 1: "table_ready s p va" "vmm_map_page pd va pa flags (s, p) = ret (ok, s', p')"
  show ?thesis
  proof (cases "page_aligned va \<and> page_aligned pa \<and> walk s va = None")
    case True
    show ?thesis
      by (rule vmm_map_page_ok [OF inv _ unmapped_not_shared [OF inv] _ 1(1), where flags = flags and pa = pa])
        (use True 1 tlb in auto)
  next
    case False
    then have "vmm_map_page pd va pa flags (s, p) = ret (False, s, p)"
      using vmm_map_page_mapped [OF inv] by (cases "page_aligned va \<and> page_aligned pa") (auto simp: vmm_map_page_def page_aligned_mod)
    then show ?thesis using 1(2) inv tlb by simp
  qed
next
  fix va ok
  assume 2: "p' = p" "dir_index va \<noteq> 0" "dir_index va \<noteq> 768" "vmm_unmap_page pd va s = ret (ok, s')"
  show ?thesis
  proof (cases "page_aligned va \<and> walk s va \<noteq> None")
    case True
    show ?thesis by (rule vmm_unmap_page_ok [OF inv, of va]) (use True 2 tlb in auto)
  next
    case False
    then have "vmm_unmap_page pd va s = ret (False, s)"
      using vmm_unmap_page_run [OF inv, of va] by (cases "page_aligned va") (auto simp: vmm_unmap_page_def page_aligned_mod split: option.splits)
    then show ?thesis using 2 inv tlb by simp
  qed
next
  fix va f
  assume 3: "s' = s\<lparr>tlb := (tlb s)(drop_bit 12 va \<mapsto> f)\<rparr>" "p' = p" "walk s (frame_of va) = Some f"
  have "vm_inv pd idt (s\<lparr>tlb := t\<rparr>, p)" for t
    using inv by (simp add: vm_inv_def table_of_def own_table_def)
  then show ?thesis using 3 tlb_cache_ok [OF tlb] by simp
qed

text \<open>C28. Along every sequence of mappings of any page (whose table exists or can be made from a frame
  below 4 MiB other than frame 0), unmappings outside the two slots that share the identity table, and
  translations cached by the processor, the paging structures stay intact, the kernel's window on low
  memory stays mapped, and the TLB never holds a translation that the tables do not give.\<close>

theorem vmm_tlb_coherent:
  assumes "(vm_step pd)\<^sup>*\<^sup>* (s, p) (s', p')" and "vm_inv pd idt (s, p)" and "tlb_ok s"
  shows "vm_inv pd idt (s', p') \<and> tlb_ok s' \<and>
    (\<forall>v. unat v < 4194304 \<longrightarrow> walk s' (physical_to_virtual v) = Some v)"
proof -
  have "vm_inv pd idt (s', p') \<and> tlb_ok s'"
    using assms(1)
  proof (induction "(s', p')" arbitrary: s' p' rule: rtranclp_induct)
    case base
    then show ?case using assms(2,3) by simp
  next
    case (step y)
    obtain t q where "y = (t, q)" by (cases y)
    then show ?case using step vm_step_inv [of pd t q s' p' idt] by simp
  qed
  moreover have "walk s' (physical_to_virtual v) = Some v" if inv: "vm_inv pd idt (s', p')" and v: "unat v < 4194304" for v
    by (rule walk_identity [OF inv]) (use window_slot [OF v] in simp_all)
  ultimately show ?thesis by blast
qed

theorem vmm_tlb_coherent_witness:
  "\<exists>s p. (vm_step 0xC0300000)\<^sup>*\<^sup>* (demo_vm, demo_pmm) (s, p) \<and> tlb s 0x800 = Some 0x500000 \<and>
    walk s 0x800000 = Some 0x500000 \<and> tlb_ok s"
proof -
  have f: "1 AND VMM_FLAG_PRESENT \<noteq> 0" by (simp add: VMM_FLAG_PRESENT_def)
  have ns: "\<not> shared_slot (dir_index 0x800000)" by (simp add: demo_page)
  have fr: "frame_of 0x800000 = 0x800000" by (rule frame_of_id [OF demo_page(1)])
  obtain s p where s: "vmm_map_page 0xC0300000 0x800000 0x500000 1 (demo_vm, demo_pmm) = ret (True, s, p)"
    "walk s 0x800000 = Some 0x500000"
    by (rule vmm_map_page_ok [OF demo_vm_facts(1) demo_page(1) ns demo_page(3) demo_table_ready demo_vm_facts(4) [OF ns], where flags = 1])
      (use fr f in auto)
  let ?s = "s\<lparr>tlb := (tlb s)(drop_bit 12 0x800000 \<mapsto> 0x500000)\<rparr>"
  have "vm_step 0xC0300000 (demo_vm, demo_pmm) (s, p)" by (rule vm_map [OF demo_table_ready s(1)])
  moreover have "vm_step 0xC0300000 (s, p) (?s, p)" by (rule vm_cache) (simp add: fr s(2))
  ultimately have run: "(vm_step 0xC0300000)\<^sup>*\<^sup>* (demo_vm, demo_pmm) (?s, p)" by simp
  have "tlb_ok ?s" using vmm_tlb_coherent [OF run demo_vm_facts(1,2)] by blast
  moreover have "drop_bit 12 (0x800000 :: u32) = 0x800" by (simp add: drop_bit_eq_div)
  moreover have "walk ?s 0x800000 = Some 0x500000" using s(2) by (simp only: walk_tlb)
  ultimately show ?thesis using run by (intro exI [of _ ?s] exI [of _ p]) simp
qed

section \<open>Tables outside the window\<close>

text \<open>C31. A frame for a new page table is cleared at its address in the kernel's window. When the
  allocator returns a frame whose window address is not mapped, as every frame above the first
  4 MiB is after start-up, mapping a page, and so the page fault handler, raises a page fault of
  its own.\<close>

theorem vmm_high_table_faults:
  assumes "vm_inv pd idt (s, p)" and "page_aligned va" and "page_aligned pa" and "table_of s (dir_index va) = None"
    and "pmm_alloc_pages 1 p = ret (a, p')" and "a \<noteq> NULL"
    and "walk s (physical_to_virtual a) = None" and "physical_to_virtual a \<noteq> NULL"
  shows "vmm_map_page pd va pa flags (s, p) = undef ''page fault''"
proof -
  have "\<not> bit (entry_at (phys s) (cr3 s) (dir_index va)) 0" using assms(4) by (simp add: table_of_None_iff)
  moreover have "vm_memset (physical_to_virtual a) 0 PAGE_SIZE s = undef ''page fault''"
    using assms(7,8) vm_invD(1) [OF assms(1)] by (simp add: vm_memset_def translate_def)
  ultimately have "get_or_create_pte pd va flags (s, p) = undef ''page fault''"
    using directory_access(1) [OF assms(1), of va] assms(5,6)
    by (simp add: get_or_create_pte_def Let_def word_pde_fields flip: dir_index_def table_index_def)
  then show ?thesis using assms(2,3) by (simp add: vmm_map_page_def page_aligned_mod)
qed

text \<open>A machine whose only memory is the page at 8 MiB.\<close>

definition demo_high :: "bool \<Rightarrow> pmm_state" where
  "demo_high free = \<lparr>emm = \<lparr>g_cursor = 0xC020004C, g_end = 0xC0280000\<rparr>,
     g_regions = [\<lparr>
       free_lists = map (\<lambda>k. if k = 0 \<and> free then Some 0 else None) [0..<NUM_ORDERS],
       block_pool = [\<lparr>b_address = 0x800000, b_order = 0, b_is_free = free, b_next = None\<rparr>],
       block_pool_size = 1, r_start = 0x800000, r_end = 0x801000\<rparr>]\<rparr>"

lemma demo_high_region: "pmm_add_region 0x800000 0x1000 demo_boot = ret (demo_high True)"
  by code_simp

lemma demo_high_inv: "pmm_inv (demo_high True)"
proof -
  have n: "first_page 0x800000 = 0x800000" "last_page 0x800000 0x1000 = 0x801000"
    by (simp_all add: first_page_def last_page_def)
  have "region_pages 0x800000 0x1000 = 1" by (simp add: region_pages_def n)
  then have h: "heap_space (64 + 12 * region_pages 0x800000 0x1000) demo_boot"
    by (simp add: heap_space_def demo_boot_def)
  have "ram_range_ok 0x800000 0x1000" by (simp add: ram_range_ok_def)
  then show ?thesis
    by (rule pmm_add_region_ok [OF demo_boot_inv _ _ h])
      (use n demo_high_region in \<open>auto simp: demo_boot_def\<close>)
qed

lemma demo_high_page: "pmm_alloc_pages 1 (demo_high True) = ret (0x800000, demo_high False)"
  unfolding pmm_alloc_one_page by code_simp

theorem vmm_high_table_faults_witness:
  "\<exists>s. vmm_preinit 0xC0300000 0xC0301000 demo_cpu = ret s \<and>
    vmm_map_page 0xC0300000 0x40000000 0x500000 3 (s, demo_high True) = undef ''page fault''"
proof -
  have off: "\<not> bit (cr0 demo_cpu) 31" by (simp add: demo_cpu_def bit_1_iff)
  have st: "static_page (demo_high True) (virtual_to_physical 0xC0300000)"
    "static_page (demo_high True) (virtual_to_physical 0xC0301000)"
    by (auto simp: static_page_def page_aligned_def LOW_MEMORY_def virtual_to_physical_def KERNEL_VIRTUAL_BASE_def
        managed_def demo_high_def)
  obtain s where s: "vmm_preinit 0xC0300000 0xC0301000 demo_cpu = ret s"
    "vm_inv 0xC0300000 0xC0301000 (s, demo_high True)" "\<And>v. \<not> shared_slot (dir_index v) \<Longrightarrow> walk s v = None"
    "\<And>i. unat i < 1024 \<Longrightarrow> \<not> shared_slot i \<Longrightarrow> table_of s i = None"
    by (rule vmm_preinit_ok [OF off st _ _ _ demo_high_inv])
      (simp_all add: virtual_to_physical_def KERNEL_VIRTUAL_BASE_def)
  have v: "physical_to_virtual 0x800000 = 0xC0800000" by (simp add: physical_to_virtual_def KERNEL_VIRTUAL_BASE_def)
  have ix: "dir_index 0xC0800000 = 770" "dir_index 0x40000000 = 256" "page_aligned 0x40000000"
    by (simp_all add: word_unat_eq_iff unat_dir_index page_aligned_def)
  have "table_of s (dir_index 0x40000000) = None" "walk s (physical_to_virtual 0x800000) = None"
    using s(3) [of "0xC0800000"] s(4) [of 256] by (simp_all add: ix v)
  from vmm_high_table_faults [OF s(2) ix(3) demo_page(3) this(1) demo_high_page _ this(2)] show ?thesis
    using s(1) by (auto simp: v)
qed

end
