(* ===== verification/Serial.thy ===== *)
theory Serial
  imports KString KIO EMM
begin

text \<open>
  \<^verbatim>\<open>kernel/src/drivers/serial.c\<close>: polled serial ports. The list of configured ports is only
  appended to and never freed, so it is a HOL list and a \<open>serial_port_t*\<close> is an index into it
  (\<open>None\<close> for NULL). The polling loops run until the device answers; that they end is proved for
  devices that become ready.
\<close>

section \<open>Data\<close>

definition SERIAL_BASE_CLOCK :: u32 where "SERIAL_BASE_CLOCK = 115200"
definition SERIAL_PORT_COM1 :: u16 where "SERIAL_PORT_COM1 = 0x3F8"
definition SERIAL_PORT_COM2 :: u16 where "SERIAL_PORT_COM2 = 0x2F8"
definition SERIAL_REG_DATA :: u16 where "SERIAL_REG_DATA = 0"
definition SERIAL_REG_IER :: u16 where "SERIAL_REG_IER = 1"
definition SERIAL_REG_FCR :: u16 where "SERIAL_REG_FCR = 2"
definition SERIAL_REG_LCR :: u16 where "SERIAL_REG_LCR = 3"
definition SERIAL_REG_MCR :: u16 where "SERIAL_REG_MCR = 4"
definition SERIAL_REG_LSR :: u16 where "SERIAL_REG_LSR = 5"
definition SERIAL_REG_LSB :: u16 where "SERIAL_REG_LSB = 0"
definition SERIAL_REG_MSB :: u16 where "SERIAL_REG_MSB = 1"
definition SERIAL_LCR_DATA_MASK :: u8 where [simp]: "SERIAL_LCR_DATA_MASK = 0x03"
definition SERIAL_LCR_DATA_SHIFT :: nat where [simp]: "SERIAL_LCR_DATA_SHIFT = 0"
definition SERIAL_LCR_STOP_MASK :: u8 where [simp]: "SERIAL_LCR_STOP_MASK = 0x04"
definition SERIAL_LCR_STOP_SHIFT :: nat where [simp]: "SERIAL_LCR_STOP_SHIFT = 2"
definition SERIAL_LCR_PARITY_MASK :: u8 where [simp]: "SERIAL_LCR_PARITY_MASK = 0x70"
definition SERIAL_LCR_PARITY_SHIFT :: nat where [simp]: "SERIAL_LCR_PARITY_SHIFT = 4"
definition SERIAL_LSR_DATA_READY :: u8 where "SERIAL_LSR_DATA_READY = 0x01"
definition SERIAL_LSR_THR_EMPTY :: u8 where "SERIAL_LSR_THR_EMPTY = 0x20"
definition SERIAL_TEST_BYTE :: u8 where "SERIAL_TEST_BYTE = 0x2A"

lemmas serial_regs = SERIAL_REG_DATA_def SERIAL_REG_IER_def SERIAL_REG_FCR_def SERIAL_REG_LCR_def
  SERIAL_REG_MCR_def SERIAL_REG_LSR_def SERIAL_REG_LSB_def SERIAL_REG_MSB_def

datatype serial_parity_t = SERIAL_PARITY_NONE | SERIAL_PARITY_ODD | SERIAL_PARITY_EVEN
  | SERIAL_PARITY_MARK | SERIAL_PARITY_SPACE

datatype serial_stop_bits_t = SERIAL_STOP_BITS_1 | SERIAL_STOP_BITS_2

datatype serial_data_bits_t = SERIAL_DATA_BITS_5 | SERIAL_DATA_BITS_6 | SERIAL_DATA_BITS_7 | SERIAL_DATA_BITS_8

fun parity_value :: "serial_parity_t \<Rightarrow> u8" where
  "parity_value SERIAL_PARITY_NONE = 0"
| "parity_value SERIAL_PARITY_ODD = 1"
| "parity_value SERIAL_PARITY_EVEN = 3"
| "parity_value SERIAL_PARITY_MARK = 5"
| "parity_value SERIAL_PARITY_SPACE = 7"

fun stop_bits_value :: "serial_stop_bits_t \<Rightarrow> u8" where
  "stop_bits_value SERIAL_STOP_BITS_1 = 0"
| "stop_bits_value SERIAL_STOP_BITS_2 = 1"

fun data_bits_value :: "serial_data_bits_t \<Rightarrow> u8" where
  "data_bits_value SERIAL_DATA_BITS_5 = 0"
| "data_bits_value SERIAL_DATA_BITS_6 = 1"
| "data_bits_value SERIAL_DATA_BITS_7 = 2"
| "data_bits_value SERIAL_DATA_BITS_8 = 3"

record serial_port_t =
  sp_port :: u16
  sp_baudrate :: u32

definition sizeof_serial_port_t :: u32 where
  "sizeof_serial_port_t = 12"

record serial_state =
  g_cached_lookup_result :: "nat option"
  g_serial_ports :: "serial_port_t list"
  serial_emm :: emm_state

section \<open>The list of ports\<close>

text \<open>The index of the port, or of the end of the list.\<close>

fun get_serial_slot :: "serial_port_t list \<Rightarrow> u16 \<Rightarrow> nat" where
  "get_serial_slot [] port = 0"
| "get_serial_slot (c # cs) port = (if sp_port c = port then 0 else Suc (get_serial_slot cs port))"

definition upsert_serial_config :: "u16 \<Rightarrow> u32 \<Rightarrow> serial_state \<Rightarrow> (nat option \<times> serial_state) res" where
  "upsert_serial_config port baudrate s =
     (let slot = get_serial_slot (g_serial_ports s) port
      in if slot = length (g_serial_ports s)
         then
           bindR (emm_alloc sizeof_serial_port_t (serial_emm s)) (\<lambda>(config, e).
             if config = NULL then ret (None, s\<lparr>serial_emm := e\<rparr>)
             else ret (Some slot, s\<lparr>serial_emm := e,
                    g_serial_ports := g_serial_ports s @ [\<lparr>sp_port = port, sp_baudrate = baudrate\<rparr>]\<rparr>))
         else ret (Some slot, s\<lparr>g_serial_ports := (g_serial_ports s)
                [slot := \<lparr>sp_port = port, sp_baudrate = baudrate\<rparr>]\<rparr>))"

definition serial_get_port :: "u16 \<Rightarrow> serial_state \<Rightarrow> (nat option \<times> serial_state) res" where
  "serial_get_port port s =
     (let search = (let slot = get_serial_slot (g_serial_ports s) port
                    in if slot = length (g_serial_ports s) then ret (None, s)
                       else ret (Some slot, s\<lparr>g_cached_lookup_result := Some slot\<rparr>))
      in case g_cached_lookup_result s of
           None \<Rightarrow> search
         | Some i \<Rightarrow>
             if i \<ge> length (g_serial_ports s) then undef ''g_cached_lookup_result''
             else if sp_port (g_serial_ports s ! i) = port then ret (Some i, s) else search)"

section \<open>Characters\<close>

definition serial_received :: "device \<Rightarrow> u16 \<Rightarrow> io \<Rightarrow> bool \<times> io" where
  "serial_received dev port tr =
     (case inb dev (port + SERIAL_REG_LSR) tr of (v, tr1) \<Rightarrow> (v AND SERIAL_LSR_DATA_READY \<noteq> 0, tr1))"

definition try_read_char :: "device \<Rightarrow> u16 \<Rightarrow> io \<Rightarrow> u8 option \<times> io" where
  "try_read_char dev port tr =
     (case serial_received dev port tr of (r, tr1) \<Rightarrow>
        if \<not> r then (None, tr1)
        else case inb dev (port + SERIAL_REG_DATA) tr1 of (c, tr2) \<Rightarrow> (Some c, tr2))"

partial_function (option) read_char :: "device \<Rightarrow> u16 \<Rightarrow> io \<Rightarrow> (u8 \<times> io) res" where
  "read_char dev port tr =
     (case try_read_char dev port tr of (r, tr1) \<Rightarrow>
        (case r of Some c \<Rightarrow> ret (c, tr1) | None \<Rightarrow> read_char dev port tr1))"

definition is_transmit_empty :: "device \<Rightarrow> u16 \<Rightarrow> io \<Rightarrow> bool \<times> io" where
  "is_transmit_empty dev port tr =
     (case inb dev (port + SERIAL_REG_LSR) tr of (v, tr1) \<Rightarrow> (v AND SERIAL_LSR_THR_EMPTY \<noteq> 0, tr1))"

definition try_write_char :: "device \<Rightarrow> u16 \<Rightarrow> u8 \<Rightarrow> io \<Rightarrow> bool \<times> io" where
  "try_write_char dev port character tr =
     (case is_transmit_empty dev port tr of (r, tr1) \<Rightarrow>
        if \<not> r then (False, tr1) else (True, outb (port + SERIAL_REG_DATA) character tr1))"

partial_function (option) write_char :: "device \<Rightarrow> u16 \<Rightarrow> u8 \<Rightarrow> io \<Rightarrow> io res" where
  "write_char dev port character tr =
     (case try_write_char dev port character tr of (r, tr1) \<Rightarrow>
        if r then ret tr1 else write_char dev port character tr1)"

declare read_char.simps [code] write_char.simps [code]

section \<open>Ports\<close>

definition line_control :: "serial_data_bits_t \<Rightarrow> serial_parity_t \<Rightarrow> serial_stop_bits_t \<Rightarrow> u8" where
  "line_control data_bits parity stop_bits =
     (let lcr_reg = 0x00 OR (push_bit SERIAL_LCR_DATA_SHIFT (data_bits_value data_bits) AND SERIAL_LCR_DATA_MASK);
          lcr_reg = lcr_reg OR (push_bit SERIAL_LCR_STOP_SHIFT (stop_bits_value stop_bits) AND SERIAL_LCR_STOP_MASK)
      in lcr_reg OR (push_bit SERIAL_LCR_PARITY_SHIFT (parity_value parity) AND SERIAL_LCR_PARITY_MASK))"

definition serial_init_port ::
  "device \<Rightarrow> u16 \<Rightarrow> u32 \<Rightarrow> serial_data_bits_t \<Rightarrow> serial_parity_t \<Rightarrow> serial_stop_bits_t \<Rightarrow>
   serial_state \<times> io \<Rightarrow> (nat option \<times> serial_state \<times> io) res" where
  "serial_init_port dev port baudrate data_bits parity stop_bits = (\<lambda>(s, tr).
     if baudrate = 0 then undef ''division by zero''
     else
       let divisor = ucast (SERIAL_BASE_CLOCK div baudrate) :: u16;
           tr = outb (port + SERIAL_REG_IER) 0x00 tr;
           tr = outb (port + SERIAL_REG_LCR) 0x80 tr;
           tr = outb (port + SERIAL_REG_LSB) (ucast (divisor AND 0xFF)) tr;
           tr = outb (port + SERIAL_REG_MSB) (ucast (drop_bit 8 divisor AND 0xFF)) tr;
           tr = outb (port + SERIAL_REG_LCR) 0x00 tr;
           tr = outb (port + SERIAL_REG_LCR) (line_control data_bits parity stop_bits) tr;
           tr = outb (port + SERIAL_REG_FCR) 0xC7 tr;
           tr = outb (port + SERIAL_REG_MCR) 0x0B tr;
           tr = outb (port + SERIAL_REG_MCR) 0x1E tr;
           (sent, tr) = try_write_char dev port SERIAL_TEST_BYTE tr
       in if \<not> sent then ret (None, s, outb (port + SERIAL_REG_MCR) 0x00 tr)
          else
            let (received_char, tr) = try_read_char dev port tr
            in if received_char \<noteq> Some SERIAL_TEST_BYTE
               then ret (None, s, outb (port + SERIAL_REG_MCR) 0x00 tr)
               else
                 let tr = outb (port + SERIAL_REG_MCR) 0x0F tr
                 in bindR (upsert_serial_config port baudrate s) (\<lambda>(config, s1).
                      if config = None then ret (None, s1, outb (port + SERIAL_REG_MCR) 0x00 tr)
                      else ret (config, s1, tr)))"

definition serial_init :: "device \<Rightarrow> serial_state \<times> io \<Rightarrow> (serial_state \<times> io) res" where
  "serial_init dev st =
     bindR (serial_init_port dev SERIAL_PORT_COM1 115200 SERIAL_DATA_BITS_8 SERIAL_PARITY_NONE SERIAL_STOP_BITS_1 st)
       (\<lambda>(_, st1).
          bindR (serial_init_port dev SERIAL_PORT_COM2 115200 SERIAL_DATA_BITS_8 SERIAL_PARITY_NONE SERIAL_STOP_BITS_1 st1)
            (\<lambda>(_, st2). ret st2))"

text \<open>A configured port is passed as its record, \<open>None\<close> for NULL.\<close>

definition serial_read_char ::
  "device \<Rightarrow> serial_port_t option \<Rightarrow> u32 \<Rightarrow> mem \<times> io \<Rightarrow> (bool \<times> mem \<times> io) res" where
  "serial_read_char dev serial_port character = (\<lambda>(m, tr).
     case serial_port of
       None \<Rightarrow> ret (False, m, tr)
     | Some sp \<Rightarrow>
         if character = NULL then ret (False, m, tr)
         else bindR (read_char dev (sp_port sp) tr) (\<lambda>(c, tr1). ret (True, m(character := c), tr1)))"

text \<open>\<open>n\<close> characters are left to read before the last byte of the buffer, the next one goes to \<open>p\<close>.\<close>

fun read_string_loop :: "device \<Rightarrow> u16 \<Rightarrow> nat \<Rightarrow> u32 \<Rightarrow> mem \<times> io \<Rightarrow> (mem \<times> io) res" where
  "read_string_loop dev port 0 p (m, tr) = ret (m(p := 0), tr)"
| "read_string_loop dev port (Suc n) p (m, tr) =
     bindR (read_char dev port tr) (\<lambda>(c, tr1).
       let m1 = m(p := c)
       in if c = 10 then ret (m1(p + 1 := 0), tr1) else read_string_loop dev port n (p + 1) (m1, tr1))"

definition serial_read_string ::
  "device \<Rightarrow> serial_port_t option \<Rightarrow> u32 \<Rightarrow> u32 \<Rightarrow> mem \<times> io \<Rightarrow> (bool \<times> mem \<times> io) res" where
  "serial_read_string dev serial_port buf buffer_size = (\<lambda>(m, tr).
     case serial_port of
       None \<Rightarrow> ret (False, m, tr)
     | Some sp \<Rightarrow>
         if buf = NULL \<or> buffer_size = 0 then ret (False, m, tr)
         else bindR (read_string_loop dev (sp_port sp) (unat buffer_size - 1) buf (m, tr)) (\<lambda>(m1, tr1).
                ret (True, m1, tr1)))"

definition serial_write_char :: "device \<Rightarrow> serial_port_t option \<Rightarrow> u8 \<Rightarrow> io \<Rightarrow> (bool \<times> io) res" where
  "serial_write_char dev serial_port character tr =
     (case serial_port of
        None \<Rightarrow> ret (False, tr)
      | Some sp \<Rightarrow> bindR (write_char dev (sp_port sp) character tr) (\<lambda>tr1. ret (True, tr1)))"

fun write_chars :: "device \<Rightarrow> u16 \<Rightarrow> u8 list \<Rightarrow> io \<Rightarrow> io res" where
  "write_chars dev port [] tr = ret tr"
| "write_chars dev port (c # cs) tr = bindR (write_char dev port c tr) (write_chars dev port cs)"

definition serial_write_string :: "device \<Rightarrow> serial_port_t option \<Rightarrow> u32 \<Rightarrow> mem \<Rightarrow> io \<Rightarrow> (bool \<times> io) res" where
  "serial_write_string dev serial_port str m tr =
     (case serial_port of
        None \<Rightarrow> ret (False, tr)
      | Some sp \<Rightarrow>
          if str = NULL then ret (False, tr)
          else bindR (kstrlen str m) (\<lambda>len.
                 if len = 0 then ret (True, tr)
                 else bindR (write_chars dev (sp_port sp) (read_bytes m str (unat len)) tr) (\<lambda>tr1. ret (True, tr1))))"

section \<open>Polling\<close>

text \<open>The trace after \<open>n\<close> reads of a register, and a register that at some read shows a bit of \<open>msk\<close>.\<close>

fun poll :: "device \<Rightarrow> u16 \<Rightarrow> nat \<Rightarrow> io \<Rightarrow> io" where
  "poll dev reg 0 tr = tr"
| "poll dev reg (Suc n) tr = poll dev reg n (tr @ [In reg (dev tr reg)])"

definition becomes :: "device \<Rightarrow> u16 \<Rightarrow> u8 \<Rightarrow> io \<Rightarrow> bool" where
  "becomes dev reg msk tr \<longleftrightarrow> (\<exists>n. dev (poll dev reg n tr) reg AND msk \<noteq> 0)"

lemma becomes_induct [consumes 1, case_names ready wait]:
  assumes "becomes dev reg msk tr"
    and "\<And>tr. dev tr reg AND msk \<noteq> 0 \<Longrightarrow> P tr"
    and "\<And>tr. dev tr reg AND msk = 0 \<Longrightarrow> P (tr @ [In reg (dev tr reg)]) \<Longrightarrow> P tr"
  shows "P tr"
proof -
  obtain n where "dev (poll dev reg n tr) reg AND msk \<noteq> 0" using assms(1) by (auto simp: becomes_def)
  then show ?thesis
  proof (induction n arbitrary: tr)
    case (Suc n)
    then show ?case using assms(2,3) by (cases "dev tr reg AND msk = 0") simp_all
  qed (use assms(2) in simp)
qed

text \<open>
  Every output goes to the data register \<open>p\<close> right after a read of the status register that showed
  the transmitter empty; \<open>ok\<close> tells whether the last access was such a read.
\<close>

fun paced :: "u16 \<Rightarrow> bool \<Rightarrow> io \<Rightarrow> bool" where
  "paced p ok [] = True"
| "paced p ok (In q v # es) = paced p (q = p + 5 \<and> v AND 0x20 \<noteq> 0) es"
| "paced p ok (Out q d # es) = (q = p \<and> ok \<and> paced p False es)"

lemma paced_mono: "paced p False es \<Longrightarrow> paced p ok es"
  by (cases "(p, ok, es)" rule: paced.cases) auto

lemma paced_append: "paced p ok xs \<Longrightarrow> paced p False ys \<Longrightarrow> paced p ok (xs @ ys)"
  by (induction p ok xs rule: paced.induct) (auto intro: paced_mono)

lemma write_char_sends:
  assumes "becomes dev (port + SERIAL_REG_LSR) SERIAL_LSR_THR_EMPTY tr"
  shows "\<exists>ext. write_char dev port c tr = ret (tr @ ext) \<and> written_to port ext = [c] \<and> paced port False ext"
  using assms
proof (induction rule: becomes_induct)
  case (ready tr)
  let ?v = "dev tr (port + SERIAL_REG_LSR)"
  have "write_char dev port c tr = ret (tr @ [In (port + SERIAL_REG_LSR) ?v, Out port c])"
    using ready
    by (subst write_char.simps)
      (simp add: try_write_char_def is_transmit_empty_def inb_def outb_def Let_def SERIAL_REG_DATA_def)
  then show ?case using ready by (auto simp: serial_regs SERIAL_LSR_THR_EMPTY_def)
next
  case (wait tr)
  let ?e = "In (port + SERIAL_REG_LSR) (dev tr (port + SERIAL_REG_LSR))"
  have step: "write_char dev port c tr = write_char dev port c (tr @ [?e])"
    using wait(1)
    by (subst write_char.simps) (simp add: try_write_char_def is_transmit_empty_def inb_def Let_def)
  obtain ext where ext: "write_char dev port c (tr @ [?e]) = ret ((tr @ [?e]) @ ext)" "written_to port ext = [c]"
    "paced port False ext" using wait(2) by blast
  then show ?case unfolding step by (intro exI [of _ "?e # ext"]) (simp add: paced_mono)
qed

lemma write_chars_sends:
  assumes "\<And>tr. becomes dev (port + SERIAL_REG_LSR) SERIAL_LSR_THR_EMPTY tr"
  shows "\<exists>ext. write_chars dev port cs tr = ret (tr @ ext) \<and> written_to port ext = cs \<and> paced port False ext"
proof (induction cs arbitrary: tr)
  case (Cons c cs)
  obtain e1 where e1: "write_char dev port c tr = ret (tr @ e1)" "written_to port e1 = [c]" "paced port False e1"
    using write_char_sends [OF assms] by blast
  obtain e2 where e2: "write_chars dev port cs (tr @ e1) = ret ((tr @ e1) @ e2)" "written_to port e2 = cs"
    "paced port False e2" using Cons.IH by blast
  have "paced port False (e1 @ e2)" by (rule paced_append [OF e1(3) e2(3)])
  then show ?case using e1 e2 by (intro exI [of _ "e1 @ e2"]) simp
qed simp

text \<open>The bytes read from a port.\<close>

fun read_from :: "u16 \<Rightarrow> io \<Rightarrow> u8 list" where
  "read_from p [] = []"
| "read_from p (In q d # tr) = (if q = p then d # read_from p tr else read_from p tr)"
| "read_from p (Out q d # tr) = read_from p tr"

lemma read_from_append [simp]: "read_from p (xs @ ys) = read_from p xs @ read_from p ys"
  by (induction p xs rule: read_from.induct) auto

lemma read_char_receives:
  assumes "becomes dev (port + SERIAL_REG_LSR) SERIAL_LSR_DATA_READY tr"
  shows "\<exists>c ext. read_char dev port tr = ret (c, tr @ ext) \<and> read_from port ext = [c]"
  using assms
proof (induction rule: becomes_induct)
  case (ready tr)
  let ?e = "In (port + SERIAL_REG_LSR) (dev tr (port + SERIAL_REG_LSR))"
  have "read_char dev port tr = ret (dev (tr @ [?e]) port, tr @ [?e, In port (dev (tr @ [?e]) port)])"
    using ready
    by (subst read_char.simps)
      (simp add: try_read_char_def serial_received_def inb_def Let_def SERIAL_REG_DATA_def)
  then show ?case by (auto simp: serial_regs)
next
  case (wait tr)
  let ?e = "In (port + SERIAL_REG_LSR) (dev tr (port + SERIAL_REG_LSR))"
  have step: "read_char dev port tr = read_char dev port (tr @ [?e])"
    using wait(1) by (subst read_char.simps) (simp add: try_read_char_def serial_received_def inb_def Let_def)
  obtain c ext where "read_char dev port (tr @ [?e]) = ret (c, (tr @ [?e]) @ ext)" "read_from port ext = [c]"
    using wait(2) by blast
  then show ?case unfolding step by (intro exI [of _ c] exI [of _ "?e # ext"]) (simp add: serial_regs)
qed

lemma read_string_loop_ok:
  assumes "\<And>tr. becomes dev (port + SERIAL_REG_LSR) SERIAL_LSR_DATA_READY tr" and "Suc n \<le> 4294967296"
  shows "\<exists>m' ext. read_string_loop dev port n p (m, tr) = ret (m', tr @ ext) \<and>
    (let bs = read_from port ext
     in length bs \<le> n \<and> read_bytes m' p (Suc (length bs)) = bs @ [0] \<and> 10 \<notin> set (butlast bs) \<and>
        (length bs = n \<or> bs \<noteq> [] \<and> last bs = 10) \<and> (\<forall>x. \<not> in_range p (Suc n) x \<longrightarrow> m' x = m x))"
  using assms(2)
proof (induction n arbitrary: p m tr)
  case 0
  have "x \<noteq> p" if "\<not> in_range p 1 x" for x using that by (auto simp: in_range_def)
  then show ?case by (auto simp: read_bytes_def)
next
  case (Suc n)
  obtain c e1 where c: "read_char dev port tr = ret (c, tr @ e1)" "read_from port e1 = [c]"
    using read_char_receives [OF assms(1)] by blast
  define m1 where "m1 = m(p := c)"
  have rng: "in_range p (Suc (Suc n)) x \<longleftrightarrow> x = p \<or> in_range (p + 1) (Suc n) x" for x
    by (rule range_step [OF Suc.prems])
  have pn: "\<not> in_range (p + 1) (Suc n) p"
  proof -
    have "p - (p + 1) = 0xFFFFFFFF" by simp
    then show ?thesis using Suc.prems by (simp only: in_range_def) simp
  qed
  show ?case
  proof (cases "c = 10")
    case True
    define m2 where "m2 = m1(p + 1 := 0)"
    have "p + 1 \<noteq> p" by simp
    then have "read_bytes m2 p (Suc (Suc 0)) = [c] @ [0]" by (simp add: read_bytes_def m2_def m1_def)
    moreover have "m2 x = m x" if "\<not> in_range p (Suc (Suc n)) x" for x
      using that unfolding rng m2_def m1_def by (auto simp: in_range_def)
    moreover have "read_string_loop dev port (Suc n) p (m, tr) = ret (m2, tr @ e1)"
      using True c by (simp add: m2_def m1_def)
    ultimately show ?thesis using True c(2) by (intro exI [of _ m2] exI [of _ e1]) simp
  next
    case False
    obtain m' e2 where IH: "read_string_loop dev port n (p + 1) (m1, tr @ e1) = ret (m', (tr @ e1) @ e2)"
      "length (read_from port e2) \<le> n" "read_bytes m' (p + 1) (Suc (length (read_from port e2))) = read_from port e2 @ [0]"
      "10 \<notin> set (butlast (read_from port e2))"
      "length (read_from port e2) = n \<or> read_from port e2 \<noteq> [] \<and> last (read_from port e2) = 10"
      "\<And>x. \<not> in_range (p + 1) (Suc n) x \<Longrightarrow> m' x = m1 x"
      using Suc.IH [of "p + 1" m1 "tr @ e1"] Suc.prems unfolding Let_def by auto
    have "m' p = c" using IH(6) [OF pn] by (simp add: m1_def)
    moreover have "read_bytes m' p (1 + k) = [m' p] @ read_bytes m' (p + 1) k" for k
      using read_bytes_append [of m' p 1 k] by (simp add: read_bytes_def)
    ultimately have "read_bytes m' p (Suc (Suc (length (read_from port e2)))) = c # read_from port e2 @ [0]"
      using IH(3) by simp
    moreover have "m' x = m x" if "\<not> in_range p (Suc (Suc n)) x" for x using that IH(6) [of x] unfolding rng by (simp add: m1_def)
    moreover have "10 \<notin> set (butlast (c # read_from port e2))" using IH(4) False by simp
    ultimately show ?thesis
      using c IH(1,2,5) False
      by (intro exI [of _ m'] exI [of _ "e1 @ e2"]) (auto simp: Let_def m1_def)
  qed
qed

section \<open>The chip and the list\<close>

text \<open>
  The registers of the 16550 that initialisation sets: with bit 7 of the line control register set,
  the first two registers hold the divisor.
\<close>

record uart =
  u_ier :: u8
  u_lcr :: u8
  u_mcr :: u8
  u_fcr :: u8
  u_low :: u8
  u_high :: u8

fun uart_step :: "u16 \<Rightarrow> io_event \<Rightarrow> uart \<Rightarrow> uart" where
  "uart_step p (Out q d) u =
     (if q = p then (if bit (u_lcr u) 7 then u\<lparr>u_low := d\<rparr> else u)
      else if q = p + 1 then (if bit (u_lcr u) 7 then u\<lparr>u_high := d\<rparr> else u\<lparr>u_ier := d\<rparr>)
      else if q = p + 2 then u\<lparr>u_fcr := d\<rparr>
      else if q = p + 3 then u\<lparr>u_lcr := d\<rparr>
      else if q = p + 4 then u\<lparr>u_mcr := d\<rparr> else u)"
| "uart_step p (In q d) u = u"

definition uart_of :: "u16 \<Rightarrow> io \<Rightarrow> uart \<Rightarrow> uart" where
  "uart_of p tr = fold (uart_step p) tr"

lemma uart_simps:
  "uart_of p (outb q d tr) u = uart_step p (Out q d) (uart_of p tr u)"
  "uart_of p (tr @ [In q v]) u = uart_of p tr u"
  by (simp_all add: uart_of_def outb_def)

definition serial_inv :: "serial_state \<Rightarrow> bool" where
  "serial_inv s \<longleftrightarrow> distinct (map sp_port (g_serial_ports s)) \<and>
     (\<forall>i. g_cached_lookup_result s = Some i \<longrightarrow> i < length (g_serial_ports s))"

text \<open>The configuration of a port as a finite map.\<close>

definition baud_of :: "serial_state \<Rightarrow> u16 \<rightharpoonup> u32" where
  "baud_of s = map_of (map (\<lambda>c. (sp_port c, sp_baudrate c)) (g_serial_ports s))"

lemma slot_cases:
  "get_serial_slot cs port \<le> length cs"
  "get_serial_slot cs port < length cs \<Longrightarrow> sp_port (cs ! get_serial_slot cs port) = port"
  "get_serial_slot cs port = length cs \<longleftrightarrow> port \<notin> sp_port ` set cs"
  by (induction cs) auto

lemma baud_None: "baud_of s port = None \<longleftrightarrow> port \<notin> sp_port ` set (g_serial_ports s)"
  by (simp add: baud_of_def map_of_eq_None_iff image_image)

lemma baud_nth:
  assumes "serial_inv s" and "i < length (g_serial_ports s)"
  shows "baud_of s (sp_port (g_serial_ports s ! i)) = Some (sp_baudrate (g_serial_ports s ! i))"
  unfolding baud_of_def using assms
  by (intro map_of_is_SomeI) (auto simp: serial_inv_def comp_def intro!: image_eqI [of _ _ "g_serial_ports s ! i"])

lemma serial_get_port_ok:
  assumes inv: "serial_inv s"
  shows "case baud_of s port of
      None \<Rightarrow> serial_get_port port s = ret (None, s)
    | Some b \<Rightarrow> \<exists>i c. serial_get_port port s = ret (Some i, s\<lparr>g_cached_lookup_result := c\<rparr>) \<and>
        serial_inv (s\<lparr>g_cached_lookup_result := c\<rparr>) \<and> i < length (g_serial_ports s) \<and>
        g_serial_ports s ! i = \<lparr>sp_port = port, sp_baudrate = b\<rparr>"
proof -
  let ?cs = "g_serial_ports s" and ?i = "get_serial_slot (g_serial_ports s) port"
  have dom: "baud_of s port = None \<longleftrightarrow> ?i = length ?cs"
    by (simp add: baud_None slot_cases(3))
  have found: "g_serial_ports s ! j = \<lparr>sp_port = port, sp_baudrate = b\<rparr>"
    if "j < length ?cs" "sp_port (?cs ! j) = port" "baud_of s port = Some b" for j b
    using baud_nth [OF inv that(1)] that(2,3) by simp
  have search: "?i < length ?cs" "sp_port (?cs ! ?i) = port" if "baud_of s port = Some b" for b
  proof -
    show "?i < length ?cs" using dom that slot_cases(1) [of ?cs port] by simp
    then show "sp_port (?cs ! ?i) = port" by (rule slot_cases(2))
  qed
  have cached: "s\<lparr>g_cached_lookup_result := g_cached_lookup_result s\<rparr> = s" by simp
  show ?thesis
  proof (cases "baud_of s port")
    case None
    have "sp_port (?cs ! j) \<noteq> port" if "j < length ?cs" for j
      using None dom that slot_cases(3) [of ?cs port] by (metis imageI nth_mem)
    then show ?thesis
      using None dom inv by (auto simp: serial_get_port_def Let_def serial_inv_def split: option.split)
  next
    case (Some b)
    note S = search [OF Some]
    show ?thesis
    proof (cases "\<exists>j. g_cached_lookup_result s = Some j \<and> sp_port (?cs ! j) = port")
      case True
      then obtain j where j: "g_cached_lookup_result s = Some j" "sp_port (?cs ! j) = port" by blast
      have "j < length ?cs" using j(1) inv by (simp add: serial_inv_def)
      then show ?thesis
        using j Some found inv by (auto simp: serial_get_port_def serial_inv_def intro!: exI [of _ j] exI [of _ "Some j"])
    next
      case False
      then have "serial_get_port port s = ret (Some ?i, s\<lparr>g_cached_lookup_result := Some ?i\<rparr>)"
        using S inv by (auto simp: serial_get_port_def Let_def serial_inv_def split: option.split)
      then show ?thesis using S found Some inv by (auto simp: serial_inv_def)
    qed
  qed
qed

lemma upsert_ok:
  assumes inv: "serial_inv s" and run: "upsert_serial_config port baud s = ret (Some i, s')"
  shows "serial_inv s' \<and> baud_of s' = (baud_of s)(port \<mapsto> baud) \<and> i < length (g_serial_ports s') \<and>
    g_serial_ports s' ! i = \<lparr>sp_port = port, sp_baudrate = baud\<rparr>"
proof -
  let ?cs = "g_serial_ports s" and ?i = "get_serial_slot (g_serial_ports s) port"
    and ?c = "\<lparr>sp_port = port, sp_baudrate = baud\<rparr>"
  show ?thesis
  proof (cases "?i = length ?cs")
    case True
    then have "g_serial_ports s' = ?cs @ [?c]" "g_cached_lookup_result s' = g_cached_lookup_result s" "i = ?i"
      using run by (auto simp: upsert_serial_config_def bindR_eq_ret_iff split: if_splits)
    moreover have "port \<notin> sp_port ` set ?cs" using True slot_cases(3) by metis
    moreover from this have "baud_of s port = None" by (simp add: baud_None)
    ultimately show ?thesis
      using inv True by (auto simp: serial_inv_def baud_of_def fun_eq_iff map_add_def split: option.split)
  next
    case False
    then have i: "?i < length ?cs" using slot_cases(1) [of ?cs port] by simp
    have s': "g_serial_ports s' = ?cs[?i := ?c]" "g_cached_lookup_result s' = g_cached_lookup_result s" "i = ?i"
      using run False by (auto simp: upsert_serial_config_def Let_def)
    have keys: "map sp_port (g_serial_ports s') = map sp_port ?cs"
      using slot_cases(2) [OF i] i by (simp add: s'(1) map_update list_update_same_conv)
    have inv': "serial_inv s'" using inv keys s'(1,2) by (simp add: serial_inv_def)
    have "baud_of s' q = ((baud_of s)(port \<mapsto> baud)) q" for q
    proof (cases "q \<in> sp_port ` set ?cs")
      case True
      then obtain j where j: "j < length ?cs" "sp_port (?cs ! j) = q" by (metis imageE in_set_conv_nth)
      have "sp_port (g_serial_ports s' ! j) = q" using keys j s'(1) by (metis length_list_update nth_map)
      then have "baud_of s' q = Some (sp_baudrate (g_serial_ports s' ! j))" "baud_of s q = Some (sp_baudrate (?cs ! j))"
        using baud_nth [OF inv', of j] baud_nth [OF inv, of j] j s'(1) by auto
      moreover have "j = ?i \<longleftrightarrow> q = port"
        using slot_cases(2) [OF i] j i inv nth_eq_iff_index_eq [of "map sp_port ?cs" j ?i] by (auto simp: serial_inv_def)
      ultimately show ?thesis using i s'(1) by (auto simp: nth_list_update)
    next
      case False
      then have "q \<noteq> port" using slot_cases(2) [OF i] i by (metis imageI nth_mem)
      moreover have "q \<notin> sp_port ` set (g_serial_ports s')" using False arg_cong [OF keys, of set] by simp
      ultimately show ?thesis using False baud_None [of s q] baud_None [of s' q] by simp
    qed
    then show ?thesis using inv' s' i by auto
  qed
qed

section \<open>Properties\<close>

lemma serial_write_string_ok:
  assumes "cstring m str s" and "str \<noteq> NULL"
    and "\<And>tr. becomes dev (sp_port sp + SERIAL_REG_LSR) SERIAL_LSR_THR_EMPTY tr"
  shows "\<exists>ext. serial_write_string dev (Some sp) str m tr = ret (True, tr @ ext) \<and>
    written_to (sp_port sp) ext = s \<and> paced (sp_port sp) False ext"
proof -
  have len: "unat (of_nat (length s) :: u32) = length s" using cstringD(4) [OF assms(1)] by (rule unat_of_nat_u32)
  obtain ext where ext: "write_chars dev (sp_port sp) s tr = ret (tr @ ext)" "written_to (sp_port sp) ext = s"
    "paced (sp_port sp) False ext" using write_chars_sends [OF assms(3)] by blast
  have "read_bytes m str (length s) = s" using assms(1) by (simp add: cstring_def)
  moreover have "of_nat (length s) = (0 :: u32) \<Longrightarrow> s = []" using len by (metis length_0_conv unat_0)
  ultimately have "serial_write_string dev (Some sp) str m tr = ret (True, tr @ ext)"
    using assms(2) ext(1)
    by (cases "of_nat (length s) = (0 :: u32)") (simp_all add: serial_write_string_def kstrlen_correct [OF assms(1)] len)
  then show ?thesis using ext by blast
qed

text \<open>C32. \<open>serial_write_string\<close> sends a NUL-terminated string: on a device whose transmitter always
  becomes empty again, however long that takes, it returns true after writing exactly the bytes of
  the string, in order, to the data register and to no other, each one right after a status read
  that showed the transmitter empty.\<close>

theorem serial_write_string_sends:
  assumes "cstring m str s" and "str \<noteq> NULL"
    and "\<And>tr. becomes dev (sp_port sp + SERIAL_REG_LSR) SERIAL_LSR_THR_EMPTY tr"
  shows "\<exists>ext. serial_write_string dev (Some sp) str m tr = ret (True, tr @ ext) \<and>
    written_to (sp_port sp) ext = s \<and> paced (sp_port sp) False ext"
  by (rule serial_write_string_ok [OF assms])

text \<open>The device of the witnesses: ready at every third status read, it receives a line of text.\<close>

definition demo_uart :: device where
  "demo_uart tr port = (if port = 0x3FD then (if length tr mod 3 = 2 then 0x21 else 0)
     else if length (read_from 0x3F8 tr) < 2 then 0x41 else 0x0A)"

definition demo_text :: mem where
  "demo_text = (\<lambda>x. if x = 0x3000 then 72 else if x = 0x3001 then 105 else 0)"

lemma demo_uart_ready:
  assumes "msk = 1 \<or> msk = 0x20"
  shows "becomes demo_uart 0x3FD msk tr"
proof -
  have len: "length (poll demo_uart 0x3FD n tr) = length tr + n" for n tr
    by (induction n arbitrary: tr) simp_all
  have "(length tr + (2 * length tr + 2)) mod 3 = 2" by presburger
  then have "demo_uart (poll demo_uart 0x3FD (2 * length tr + 2) tr) 0x3FD = 0x21"
    unfolding demo_uart_def len by simp
  then show ?thesis unfolding becomes_def using assms by (intro exI [of _ "2 * length tr + 2"]) auto
qed

theorem serial_write_string_sends_witness:
  "\<exists>ext. serial_write_string demo_uart (Some \<lparr>sp_port = 0x3F8, sp_baudrate = 115200\<rparr>) 0x3000 demo_text [] = ret (True, ext) \<and>
    written_to 0x3F8 ext = [72, 105]"
proof -
  have "cstring demo_text 0x3000 [72, 105]" by (simp add: cstring_def demo_text_def read_bytes_def)
  from serial_write_string_sends [OF this, of demo_uart "\<lparr>sp_port = 0x3F8, sp_baudrate = 115200\<rparr>" "[]"]
  show ?thesis using demo_uart_ready by (auto simp: SERIAL_REG_LSR_def SERIAL_LSR_THR_EMPTY_def)
qed

text \<open>C33. \<open>serial_read_string\<close> fills a buffer of \<open>size\<close> bytes: on a device that keeps delivering it
  returns true with the bytes received, up to and including the first newline or until
  \<open>size - 1\<close> of them, followed by a NUL, and never writes outside the buffer.\<close>

theorem serial_read_string_receives:
  assumes "buf \<noteq> NULL" and "0 < unat sz"
    and "\<And>tr. becomes dev (sp_port sp + SERIAL_REG_LSR) SERIAL_LSR_DATA_READY tr"
  shows "\<exists>m' ext. serial_read_string dev (Some sp) buf sz (m, tr) = ret (True, m', tr @ ext) \<and>
    (let bs = read_from (sp_port sp) ext
     in length bs < unat sz \<and> read_bytes m' buf (Suc (length bs)) = bs @ [0] \<and> 10 \<notin> set (butlast bs) \<and>
        (length bs = unat sz - 1 \<or> bs \<noteq> [] \<and> last bs = 10) \<and>
        (\<forall>x. \<not> in_range buf (unat sz) x \<longrightarrow> m' x = m x))"
proof -
  have n: "Suc (unat sz - 1) = unat sz" "Suc (unat sz - 1) \<le> 4294967296" "sz \<noteq> 0"
    using assms(2) unat_u32_lt [of sz] by auto
  show ?thesis
    using read_string_loop_ok [OF assms(3) n(2), of buf m tr] assms(1,2) n(1,3)
    by (auto simp: serial_read_string_def Let_def less_eq_Suc_le)
qed

theorem serial_read_string_receives_witness:
  "\<exists>m' ext. serial_read_string demo_uart (Some \<lparr>sp_port = 0x3F8, sp_baudrate = 115200\<rparr>) 0x4000 16 (demo_text, [])
      = ret (True, m', ext) \<and> m' 0x3000 = 72"
proof -
  have "\<not> in_range 0x4000 16 (0x3000 :: u32)" by (simp add: in_range_def)
  moreover from serial_read_string_receives [of "0x4000" 16 demo_uart "\<lparr>sp_port = 0x3F8, sp_baudrate = 115200\<rparr>" demo_text "[]"]
  have "\<exists>m' ext. serial_read_string demo_uart (Some \<lparr>sp_port = 0x3F8, sp_baudrate = 115200\<rparr>) 0x4000 16 (demo_text, [])
      = ret (True, m', ext) \<and> (\<forall>x. \<not> in_range 0x4000 16 x \<longrightarrow> m' x = demo_text x)"
    using demo_uart_ready by (auto simp: SERIAL_REG_LSR_def SERIAL_LSR_DATA_READY_def Let_def)
  ultimately show ?thesis by (auto simp: demo_text_def)
qed

lemma uart_try_write:
  assumes "try_write_char dev port c tr = (True, tr')" and "\<not> bit (u_lcr (uart_of port tr u)) 7"
  shows "uart_of port tr' u = uart_of port tr u"
  using assms
  by (auto simp: try_write_char_def is_transmit_empty_def inb_def Let_def uart_simps SERIAL_REG_DATA_def
      split: if_splits)

lemma uart_try_read:
  assumes "try_read_char dev port tr = (Some c, tr')"
  shows "uart_of port tr' u = uart_of port tr u"
proof -
  have "tr' = (tr @ [In (port + SERIAL_REG_LSR) (dev tr (port + SERIAL_REG_LSR))]) @ [In port c]"
    using assms
    by (auto simp: try_read_char_def serial_received_def inb_def Let_def SERIAL_REG_DATA_def split: if_splits)
  then show ?thesis by (simp only: uart_simps)
qed

text \<open>The accesses that set up the chip before the loop-back test.\<close>

definition setup_trace :: "u16 \<Rightarrow> u16 \<Rightarrow> u8 \<Rightarrow> io \<Rightarrow> io" where
  "setup_trace port divisor lcr tr =
     outb (port + SERIAL_REG_MCR) 0x1E (outb (port + SERIAL_REG_MCR) 0x0B (outb (port + SERIAL_REG_FCR) 0xC7
       (outb (port + SERIAL_REG_LCR) lcr (outb (port + SERIAL_REG_LCR) 0x00
         (outb (port + SERIAL_REG_MSB) (ucast (drop_bit 8 divisor AND 0xFF))
           (outb (port + SERIAL_REG_LSB) (ucast (divisor AND 0xFF))
             (outb (port + SERIAL_REG_LCR) 0x80 (outb (port + SERIAL_REG_IER) 0x00 tr))))))))"

lemma setup_uart:
  "u_low (uart_of port (setup_trace port divisor lcr tr) u) = ucast (divisor AND 0xFF)"
  "u_high (uart_of port (setup_trace port divisor lcr tr) u) = ucast (drop_bit 8 divisor AND 0xFF)"
  "u_lcr (uart_of port (setup_trace port divisor lcr tr) u) = lcr"
  by (simp_all add: setup_trace_def uart_simps serial_regs bit_iff_odd)

lemma serial_init_port_success:
  assumes "serial_init_port dev port baud data_bits parity stop_bits (s, tr) = ret (Some i, s', tr')"
  defines "lcr \<equiv> line_control data_bits parity stop_bits" and "divisor \<equiv> ucast (SERIAL_BASE_CLOCK div baud) :: u16"
  obtains tr1 tr2 where "try_write_char dev port SERIAL_TEST_BYTE (setup_trace port divisor lcr tr) = (True, tr1)"
    and "try_read_char dev port tr1 = (Some SERIAL_TEST_BYTE, tr2)"
    and "upsert_serial_config port baud s = ret (Some i, s')"
    and "tr' = outb (port + SERIAL_REG_MCR) 0x0F tr2"
  using assms(1) unfolding serial_init_port_def Let_def prod.case lcr_def [symmetric] divisor_def [symmetric]
    setup_trace_def [symmetric]
  by (auto simp: bindR_eq_ret_iff split: if_splits prod.splits)

lemma line_control_bits:
  "line_control d par st AND 0x87 = data_bits_value d OR push_bit 2 (stop_bits_value st)"
  "\<not> bit (line_control d par st) 3" "\<not> bit (line_control d par st) 7"
  by (cases d; cases par; cases st; simp add: line_control_def push_bit_eq_mult bit_iff_odd)+

text \<open>C34. \<open>serial_init_port\<close>, when it reports success, has programmed the chip with the divisor of the
  baud rate, the data and stop bits asked for and normal operation, and recorded the port:
  \<open>serial_get_port\<close> finds it with its baud rate and the other ports as before. The parity bits are
  written one position too high: the chip's parity enable bit, bit 3, is never set.\<close>

theorem serial_init_port_configures:
  fixes u0 :: uart
  assumes "serial_inv s" and "2 \<le> unat baud"
    and "serial_init_port dev port baud data_bits parity stop_bits (s, tr) = ret (Some i, s', tr')"
  defines "u \<equiv> uart_of port tr' u0"
  shows "serial_inv s' \<and> baud_of s' = (baud_of s)(port \<mapsto> baud) \<and>
    g_serial_ports s' ! i = \<lparr>sp_port = port, sp_baudrate = baud\<rparr> \<and>
    (\<exists>c. serial_get_port port s' = ret (Some i, s'\<lparr>g_cached_lookup_result := c\<rparr>)) \<and>
    unat (u_low u) + 256 * unat (u_high u) = 115200 div unat baud \<and>
    u_lcr u AND 0x87 = data_bits_value data_bits OR push_bit 2 (stop_bits_value stop_bits) \<and>
    u_mcr u = 0x0F \<and> \<not> bit (u_lcr u) 3"
proof -
  let ?lcr = "line_control data_bits parity stop_bits" and ?div = "ucast (SERIAL_BASE_CLOCK div baud) :: u16"
  obtain tr1 tr2 where r: "try_write_char dev port SERIAL_TEST_BYTE (setup_trace port ?div ?lcr tr) = (True, tr1)"
    "try_read_char dev port tr1 = (Some SERIAL_TEST_BYTE, tr2)" "upsert_serial_config port baud s = ret (Some i, s')"
    "tr' = outb (port + SERIAL_REG_MCR) 0x0F tr2"
    by (rule serial_init_port_success [OF assms(3)])
  note U = upsert_ok [OF assms(1) r(3)]
  have "uart_of port tr2 u0 = uart_of port (setup_trace port ?div ?lcr tr) u0"
    using uart_try_read [OF r(2)] uart_try_write [OF r(1)] by (simp add: setup_uart line_control_bits)
  then have u: "u_low u = ucast (?div AND 0xFF)" "u_high u = ucast (drop_bit 8 ?div AND 0xFF)" "u_lcr u = ?lcr"
    "u_mcr u = 0x0F"
    unfolding u_def r(4) uart_simps by (simp_all add: setup_uart serial_regs)
  have m8: "(0xFF :: u16) = mask 8" by (simp add: mask_eq_exp_minus_1)
  have "115200 div unat baud < 65536" using assms(2) by (simp add: div_less_iff_less_mult)
  then have d: "unat ?div = 115200 div unat baud"
    by (subst unat_ucast_down) (simp_all add: SERIAL_BASE_CLOCK_def unat_div)
  have "unat (u_low u) = unat ?div mod 256"
    unfolding u m8 by (simp add: unsigned_ucast_eq take_bit_eq_mod unat_and_mask)
  moreover have "unat (u_high u) = unat ?div div 256"
    unfolding u m8 using unat_u16_lt [of ?div]
    by (simp add: unsigned_ucast_eq take_bit_eq_mod unat_and_mask drop_bit_eq_div unat_div)
  ultimately have "unat (u_low u) + 256 * unat (u_high u) = 115200 div unat baud" using d by simp
  moreover have "\<exists>c. serial_get_port port s' = ret (Some i, s'\<lparr>g_cached_lookup_result := c\<rparr>)"
  proof -
    obtain j c where j: "serial_get_port port s' = ret (Some j, s'\<lparr>g_cached_lookup_result := c\<rparr>)"
      "j < length (g_serial_ports s')" "sp_port (g_serial_ports s' ! j) = port"
      using serial_get_port_ok [of s' port] U by auto
    have "j = i" using j U nth_eq_iff_index_eq [of "map sp_port (g_serial_ports s')" j i] by (simp add: serial_inv_def)
    then show ?thesis using j(1) by blast
  qed
  ultimately show ?thesis using U u line_control_bits by simp
qed

text \<open>A chip that answers the loop-back test.\<close>

definition demo_loopback :: device where
  "demo_loopback tr port = (if port = 0x3FD then 0x61 else SERIAL_TEST_BYTE)"

definition demo_serial :: serial_state where
  "demo_serial = \<lparr>g_cached_lookup_result = None, g_serial_ports = [],
     serial_emm = \<lparr>g_cursor = 0xC0200000, g_end = 0xC0280000\<rparr>\<rparr>"

theorem serial_init_port_configures_witness:
  "\<exists>s' tr'. serial_init_port demo_loopback 0x3F8 9600 SERIAL_DATA_BITS_8 SERIAL_PARITY_ODD SERIAL_STOP_BITS_1 (demo_serial, [])
      = ret (Some 0, s', tr') \<and> baud_of s' 0x3F8 = Some 9600"
proof -
  have inv: "serial_inv demo_serial" by (simp add: serial_inv_def demo_serial_def)
  have "\<exists>s' tr'. serial_init_port demo_loopback 0x3F8 9600 SERIAL_DATA_BITS_8 SERIAL_PARITY_ODD SERIAL_STOP_BITS_1 (demo_serial, [])
      = ret (Some 0, s', tr')"
    by (simp add: serial_init_port_def demo_loopback_def demo_serial_def try_write_char_def is_transmit_empty_def
        try_read_char_def serial_received_def inb_def Let_def serial_regs SERIAL_LSR_THR_EMPTY_def
        SERIAL_LSR_DATA_READY_def SERIAL_TEST_BYTE_def upsert_serial_config_def emm_alloc_def sizeof_serial_port_t_def)
  then obtain s' tr' where "serial_init_port demo_loopback 0x3F8 9600 SERIAL_DATA_BITS_8 SERIAL_PARITY_ODD SERIAL_STOP_BITS_1
      (demo_serial, []) = ret (Some 0, s', tr')" by blast
  then show ?thesis
    using serial_init_port_configures [OF inv, of 9600 demo_loopback "0x3F8" SERIAL_DATA_BITS_8 SERIAL_PARITY_ODD
        SERIAL_STOP_BITS_1 "[]" 0 s' tr' "\<lparr>u_ier = 0, u_lcr = 0, u_mcr = 0, u_fcr = 0, u_low = 0, u_high = 0\<rparr>"] by auto
qed

end
