(* ===== verification/PIT.thy ===== *)
theory PIT
  imports Interrupts
begin

text \<open>
  \<^verbatim>\<open>kernel/src/drivers/pit.c\<close>: the interval timer. \<open>g_ticks\<close> is changed by the interrupt
  handler while \<open>pit_wait\<close> polls it; \<open>irqs i\<close> is the number of timer interrupts served before the
  \<open>i\<close>-th poll, so statements hold for every interleaving.
\<close>

section \<open>Model\<close>

definition PIT_COMMAND_PORT :: u16 where "PIT_COMMAND_PORT = 0x43"
definition PIT_CHANNEL0_LOHI_MODE3 :: u8 where [simp]: "PIT_CHANNEL0_LOHI_MODE3 = 0x36"
definition PIT_CHANNEL0_DATA_PORT :: u16 where "PIT_CHANNEL0_DATA_PORT = 0x40"
definition PIT_BASE_FREQUENCY :: u32 where "PIT_BASE_FREQUENCY = 1193182"
definition PIT_FREQUENCY :: u32 where "PIT_FREQUENCY = 1000"

definition pit_set_frequency :: "u32 \<Rightarrow> io \<Rightarrow> io res" where
  "pit_set_frequency frequency tr =
     (if frequency = 0 then undef ''division by zero''
      else
        let divisor = PIT_BASE_FREQUENCY div frequency;
            tr = outb PIT_COMMAND_PORT PIT_CHANNEL0_LOHI_MODE3 tr;
            tr = outb PIT_CHANNEL0_DATA_PORT (ucast (divisor AND 0xFF)) tr
        in ret (outb PIT_CHANNEL0_DATA_PORT (ucast (drop_bit 8 divisor AND 0xFF)) tr))"

definition pit_init :: "device \<Rightarrow> 'h \<Rightarrow> 'h idt_state \<times> io \<Rightarrow> ('h idt_state \<times> io) res" where
  "pit_init dev h = (\<lambda>(t, tr).
     bindR (irq_install 0 (Some h) t) (\<lambda>t1.
     bindR (pic_clear_mask dev 0 tr) (\<lambda>(_, tr1).
     bindR (pit_set_frequency PIT_FREQUENCY tr1) (\<lambda>tr2. ret (t1, tr2)))))"





section \<open>Lemmas\<close>




section \<open>Properties\<close>




end
