(* ===== verification/Multiboot2.thy ===== *)
theory Multiboot2
  imports Boot_Info EMM KStdio
begin

text \<open>
  \<^verbatim>\<open>kernel/src/arch/x86/boot/multiboot2.c\<close>: parsing the information structure the boot loader
  leaves in memory, and printing what was found.

  The structure is read from byte memory at the offsets of the packed structs. Strings are copied
  to the early heap, which is the same memory. The nodes of the three lists are records of their
  own; their space is still taken from the early heap, so exhausting it panics as in the code.
\<close>

section \<open>Constants\<close>

definition MULTIBOOT2_TAG_TYPE_END :: u32 where "MULTIBOOT2_TAG_TYPE_END = 0"
definition MULTIBOOT2_TAG_TYPE_COMMAND_LINE :: u32 where "MULTIBOOT2_TAG_TYPE_COMMAND_LINE = 1"
definition MULTIBOOT2_TAG_TYPE_BOOT_LOADER_NAME :: u32 where "MULTIBOOT2_TAG_TYPE_BOOT_LOADER_NAME = 2"
definition MULTIBOOT2_TAG_TYPE_MODULE :: u32 where "MULTIBOOT2_TAG_TYPE_MODULE = 3"
definition MULTIBOOT2_TAG_TYPE_MEMORY_MAP :: u32 where "MULTIBOOT2_TAG_TYPE_MEMORY_MAP = 6"
definition MULTIBOOT2_MEMORY_AVAILABLE :: u32 where "MULTIBOOT2_MEMORY_AVAILABLE = 1"
definition MULTIBOOT2_MEMORY_RESERVED :: u32 where "MULTIBOOT2_MEMORY_RESERVED = 2"

lemmas mb2_types = MULTIBOOT2_TAG_TYPE_END_def MULTIBOOT2_TAG_TYPE_COMMAND_LINE_def
  MULTIBOOT2_TAG_TYPE_BOOT_LOADER_NAME_def MULTIBOOT2_TAG_TYPE_MODULE_def
  MULTIBOOT2_TAG_TYPE_MEMORY_MAP_def

lemmas mb2_memory = MULTIBOOT2_MEMORY_AVAILABLE_def MULTIBOOT2_MEMORY_RESERVED_def

definition MULTIBOOT2_ALIGN_UP :: "u32 \<Rightarrow> u32" where
  "MULTIBOOT2_ALIGN_UP x = (x + 7) AND NOT 7"

text \<open>\<open>sizeof\<close> on the ILP32 target, where a 64-bit member is aligned to four bytes.\<close>

definition sizeof_boot_memory_region_t :: u32 where "sizeof_boot_memory_region_t = 20"
definition sizeof_boot_module_t :: u32 where "sizeof_boot_module_t = 16"

section \<open>The packed structures\<close>

text \<open>
  The structures the boot loader lays out, and how their fields are read: members follow one another
  without padding, in little-endian order. A flexible array member is the address where it begins.
\<close>

record multiboot2_tag_t =
  tag_type :: u32
  tag_size :: u32

record multiboot2_tag_boot_command_line_t =
  tcl_type :: u32
  tcl_size :: u32
  tcl_command_line :: u32

record multiboot2_tag_boot_loader_name_t =
  tln_type :: u32
  tln_size :: u32
  tln_name :: u32

record multiboot2_tag_module_t =
  tm_type :: u32
  tm_size :: u32
  tm_mod_start :: u32
  tm_mod_end :: u32
  tm_command_line :: u32

record multiboot2_memory_map_entry_t =
  me_base_address :: u64
  me_length :: u64
  me_type :: u32
  me_reserved :: u32

record multiboot2_tag_memory_map_t =
  tmm_type :: u32
  tmm_size :: u32
  tmm_entry_size :: u32
  tmm_entry_version :: u32
  tmm_entries :: u32

record multiboot2_info_t =
  info_total_size :: u32
  info_reserved :: u32
  info_tags :: u32

definition load_tag :: "mem \<Rightarrow> u32 \<Rightarrow> multiboot2_tag_t" where
  "load_tag m p = \<lparr>tag_type = rd32 m p, tag_size = rd32 m (p + 4)\<rparr>"

definition load_command_line_tag :: "mem \<Rightarrow> u32 \<Rightarrow> multiboot2_tag_boot_command_line_t" where
  "load_command_line_tag m p = \<lparr>tcl_type = rd32 m p, tcl_size = rd32 m (p + 4), tcl_command_line = p + 8\<rparr>"

definition load_loader_name_tag :: "mem \<Rightarrow> u32 \<Rightarrow> multiboot2_tag_boot_loader_name_t" where
  "load_loader_name_tag m p = \<lparr>tln_type = rd32 m p, tln_size = rd32 m (p + 4), tln_name = p + 8\<rparr>"

definition load_module_tag :: "mem \<Rightarrow> u32 \<Rightarrow> multiboot2_tag_module_t" where
  "load_module_tag m p = \<lparr>tm_type = rd32 m p, tm_size = rd32 m (p + 4), tm_mod_start = rd32 m (p + 8),
     tm_mod_end = rd32 m (p + 12), tm_command_line = p + 16\<rparr>"

definition load_memory_map_entry :: "mem \<Rightarrow> u32 \<Rightarrow> multiboot2_memory_map_entry_t" where
  "load_memory_map_entry m p = \<lparr>me_base_address = rd64 m p, me_length = rd64 m (p + 8),
     me_type = rd32 m (p + 16), me_reserved = rd32 m (p + 20)\<rparr>"

definition load_memory_map_tag :: "mem \<Rightarrow> u32 \<Rightarrow> multiboot2_tag_memory_map_t" where
  "load_memory_map_tag m p = \<lparr>tmm_type = rd32 m p, tmm_size = rd32 m (p + 4), tmm_entry_size = rd32 m (p + 8),
     tmm_entry_version = rd32 m (p + 12), tmm_entries = p + 16\<rparr>"

definition load_info :: "mem \<Rightarrow> u32 \<Rightarrow> multiboot2_info_t" where
  "load_info m p = \<lparr>info_total_size = rd32 m p, info_reserved = rd32 m (p + 4), info_tags = p + 8\<rparr>"

lemmas load_simps [simp] = load_tag_def load_command_line_tag_def load_loader_name_tag_def load_module_tag_def
  load_memory_map_entry_def load_memory_map_tag_def load_info_def

section \<open>Tags\<close>

text \<open>
  The loop of \<open>parse_memory_map\<close>. A node is allocated before its type is looked at, so an entry
  of another type costs heap space too.
\<close>

partial_function (option) memory_map_loop ::
  "mem \<Rightarrow> u32 \<Rightarrow> u32 \<Rightarrow> u32 \<Rightarrow> boot_info_t \<times> emm_state \<Rightarrow> (boot_info_t \<times> emm_state) res" where
  "memory_map_loop m mb2_tag pos limit st =
     (if pos < limit
      then
        (case st of (boot_info, e) \<Rightarrow>
           let entry = load_memory_map_entry m pos;
               base = me_base_address entry;
               len = me_length entry;
               type = me_type entry;
               entry_size = tmm_entry_size (load_memory_map_tag m mb2_tag)
           in bindR (emm_alloc sizeof_boot_memory_region_t e) (\<lambda>(_, e).
                let region = \<lparr>base_address = base, region_length = len\<rparr>;
                    boot_info =
                      (if type = MULTIBOOT2_MEMORY_AVAILABLE
                       then boot_info\<lparr>ram_regions := ram_regions boot_info @ [region]\<rparr>
                       else if type = MULTIBOOT2_MEMORY_RESERVED
                       then boot_info\<lparr>reserved_regions := reserved_regions boot_info @ [region]\<rparr>
                       else boot_info)
                in memory_map_loop m mb2_tag (pos + entry_size) limit (boot_info, e)))
      else ret st)"

declare memory_map_loop.simps [code]

definition parse_memory_map ::
  "u32 \<Rightarrow> mem \<Rightarrow> boot_info_t \<times> emm_state \<Rightarrow> (boot_info_t \<times> emm_state) res" where
  "parse_memory_map mb2_tag m st =
     (let tag = load_memory_map_tag m mb2_tag
      in memory_map_loop m mb2_tag (tmm_entries tag) (mb2_tag + tmm_size tag) st)"

text \<open>
  The copy three tags make of a string of theirs: as many bytes as \<open>kstrlen\<close> counts and a zero
  byte.
\<close>

definition copy_string :: "u32 \<Rightarrow> mem \<times> emm_state \<Rightarrow> (u32 \<times> mem \<times> emm_state) res" where
  "copy_string source = (\<lambda>(m, e).
     bindR (kstrlen source m) (\<lambda>len.
     bindR (emm_alloc (len + 1) e) (\<lambda>(copy, e).
       let m = snd (kmemcpy copy source len m)
       in ret (copy, m(copy + len := 0), e))))"

definition parse_command_line ::
  "u32 \<Rightarrow> mem \<times> boot_info_t \<times> emm_state \<Rightarrow> (mem \<times> boot_info_t \<times> emm_state) res" where
  "parse_command_line mb2_tag = (\<lambda>(m, boot_info, e).
     bindR (copy_string (tcl_command_line (load_command_line_tag m mb2_tag)) (m, e)) (\<lambda>(copy, m, e).
       ret (m, boot_info\<lparr>bi_command_line := copy\<rparr>, e)))"

text \<open>
  The module is linked into the list before its command line is copied; a panic in between ends
  the kernel, so the list is not looked at meanwhile.
\<close>

definition parse_module ::
  "u32 \<Rightarrow> mem \<times> boot_info_t \<times> emm_state \<Rightarrow> (mem \<times> boot_info_t \<times> emm_state) res" where
  "parse_module mb2_tag = (\<lambda>(m, boot_info, e).
     bindR (emm_alloc sizeof_boot_module_t e) (\<lambda>(_, e).
       let tag = load_module_tag m mb2_tag;
           start = tm_mod_start tag;
           stop = tm_mod_end tag
       in bindR (copy_string (tm_command_line tag) (m, e)) (\<lambda>(copy, m, e).
            let module = \<lparr>mod_start = start, mod_end = stop, mod_command_line = copy\<rparr>
            in ret (m, boot_info\<lparr>modules := modules boot_info @ [module]\<rparr>, e))))"

definition parse_name ::
  "u32 \<Rightarrow> mem \<times> boot_info_t \<times> emm_state \<Rightarrow> (mem \<times> boot_info_t \<times> emm_state) res" where
  "parse_name mb2_tag = (\<lambda>(m, boot_info, e).
     bindR (copy_string (tln_name (load_loader_name_tag m mb2_tag)) (m, e)) (\<lambda>(copy, m, e).
       ret (m, boot_info\<lparr>bi_name := copy\<rparr>, e)))"

definition parse_tag ::
  "u32 \<Rightarrow> mem \<times> boot_info_t \<times> emm_state \<Rightarrow> (mem \<times> boot_info_t \<times> emm_state) res" where
  "parse_tag tag = (\<lambda>(m, boot_info, e).
     let type = tag_type (load_tag m tag)
     in if type = MULTIBOOT2_TAG_TYPE_MEMORY_MAP
        then bindR (parse_memory_map tag m (boot_info, e)) (\<lambda>(boot_info, e). ret (m, boot_info, e))
        else if type = MULTIBOOT2_TAG_TYPE_COMMAND_LINE then parse_command_line tag (m, boot_info, e)
        else if type = MULTIBOOT2_TAG_TYPE_MODULE then parse_module tag (m, boot_info, e)
        else if type = MULTIBOOT2_TAG_TYPE_BOOT_LOADER_NAME then parse_name tag (m, boot_info, e)
        else ret (m, boot_info, e))"

partial_function (option) parse_tags_loop ::
  "u32 \<Rightarrow> u32 \<Rightarrow> mem \<times> boot_info_t \<times> emm_state \<Rightarrow> (mem \<times> boot_info_t \<times> emm_state) res" where
  "parse_tags_loop pos limit st =
     (if pos < limit
      then
        if tag_type (load_tag (fst st) pos) = MULTIBOOT2_TAG_TYPE_END then ret st
        else
          bindR (parse_tag pos st) (\<lambda>st.
            parse_tags_loop (pos + MULTIBOOT2_ALIGN_UP (tag_size (load_tag (fst st) pos))) limit st)
      else ret st)"

declare parse_tags_loop.simps [code]

definition empty_boot_info :: boot_info_t where
  "empty_boot_info = \<lparr>bi_name = NULL, bi_command_line = NULL, ram_regions = [],
     reserved_regions = [], modules = []\<rparr>"

definition multiboot2_parse_boot_info ::
  "u32 \<Rightarrow> mem \<times> emm_state \<Rightarrow> (mem \<times> boot_info_t \<times> emm_state) res" where
  "multiboot2_parse_boot_info mb2_info = (\<lambda>(m, e).
     let info = load_info m mb2_info
     in parse_tags_loop (info_tags info) (mb2_info + info_total_size info) (m, empty_boot_info, e))"

section \<open>Sizes and counts\<close>

fun memory_map_size_loop :: "u64 \<Rightarrow> boot_memory_region_t list \<Rightarrow> u64" where
  "memory_map_size_loop total_size [] = total_size"
| "memory_map_size_loop total_size (region # rest) =
     memory_map_size_loop (total_size + region_length region) rest"

definition multiboot2_memory_map_size :: "boot_memory_region_t list \<Rightarrow> u64" where
  "multiboot2_memory_map_size regions = memory_map_size_loop 0 regions"

fun count_loop :: "u32 \<Rightarrow> 'a list \<Rightarrow> u32" where
  "count_loop count [] = count"
| "count_loop count (_ # rest) = count_loop (count + 1) rest"

definition multiboot2_memory_map_count :: "boot_memory_region_t list \<Rightarrow> u32" where
  "multiboot2_memory_map_count regions = count_loop 0 regions"

definition multiboot2_module_count :: "boot_module_t list \<Rightarrow> u32" where
  "multiboot2_module_count mods = count_loop 0 mods"

section \<open>Printing\<close>

fun print_regions ::
  "(string \<Rightarrow> u32) \<Rightarrow> u32 \<Rightarrow> string \<Rightarrow> boot_memory_region_t list \<Rightarrow> console \<Rightarrow> console res" where
  "print_regions lit stack_buf fmt [] c = ret c"
| "print_regions lit stack_buf fmt (region # rest) c =
     (let start_address = ucast (base_address region);
          end_address = ucast (base_address region + region_length region);
          sz = ucast (region_length region div 1024)
      in bindR (print lit stack_buf fmt [start_address, end_address, sz] c)
           (print_regions lit stack_buf fmt rest))"

fun print_modules :: "(string \<Rightarrow> u32) \<Rightarrow> u32 \<Rightarrow> boot_module_t list \<Rightarrow> console \<Rightarrow> console res" where
  "print_modules lit stack_buf [] c = ret c"
| "print_modules lit stack_buf (module # rest) c =
     (let sz = mod_end module - mod_start module
      in bindR (print lit stack_buf '' - Module: %p - %p (%u KB)\<newline>''
                  [mod_start module, mod_end module, sz div 1024] c) (\<lambda>c.
         bindR (print lit stack_buf ''   Command line: %s\<newline>'' [mod_command_line module] c)
           (print_modules lit stack_buf rest)))"

definition multiboot2_print_boot_info ::
  "(string \<Rightarrow> u32) \<Rightarrow> u32 \<Rightarrow> boot_info_t \<Rightarrow> console \<Rightarrow> console res" where
  "multiboot2_print_boot_info lit stack_buf boot_info c =
     bindR (print lit stack_buf ''Booted using the \"%s\" boot loader\<newline>'' [bi_name boot_info] c) (\<lambda>c.
     bindR (print lit stack_buf ''The command line is \"%s\"\<newline>'' [bi_command_line boot_info] c) (\<lambda>c.
     bindR (print lit stack_buf ''RAM has a size of %u MB with %u regions\<newline>''
              [ucast (multiboot2_memory_map_size (ram_regions boot_info) div 1048576),
               multiboot2_memory_map_count (ram_regions boot_info)] c) (\<lambda>c.
     bindR (print_regions lit stack_buf '' - RAM Region: %p - %p (%u KB)\<newline>'' (ram_regions boot_info) c) (\<lambda>c.
     bindR (print lit stack_buf ''There are %u KB of reserved memory in %u regions\<newline>''
              [ucast (multiboot2_memory_map_size (reserved_regions boot_info) div 1024),
               multiboot2_memory_map_count (reserved_regions boot_info)] c) (\<lambda>c.
     bindR (print_regions lit stack_buf '' - Reserved Region: %p - %p (%u KB)\<newline>''
              (reserved_regions boot_info) c) (\<lambda>c.
     bindR (print lit stack_buf ''There are %u modules loaded\<newline>''
              [multiboot2_module_count (modules boot_info)] c) (\<lambda>c.
     print_modules lit stack_buf (modules boot_info) c)))))))"

end
