(* ===== verification/Multiboot2_Props.thy ===== *)
theory Multiboot2_Props
  imports Multiboot2
begin

text \<open>
  Correctness of the parser: what a well-formed information structure is, as a list of tags laid
  out in memory, what the kernel is to know after reading it, and that the parser arrives there.
\<close>

section \<open>Layout\<close>

datatype mb2_tag =
    Command_Line "u8 list"
  | Loader_Name "u8 list"
  | Module u32 u32 "u8 list"
  | Memory_Map u32 "(boot_memory_region_t \<times> u32) list"
  | Other_Tag

text \<open>An entry may be longer than the members the kernel knows, but not shorter.\<close>

fun entries_at :: "mem \<Rightarrow> u32 \<Rightarrow> u32 \<Rightarrow> (boot_memory_region_t \<times> u32) list \<Rightarrow> bool" where
  "entries_at m a esz [] = True"
| "entries_at m a esz ((r, ty) # es) =
     (rd64 m a = base_address r \<and> rd64 m (a + 8) = region_length r \<and> rd32 m (a + 16) = ty \<and>
      entries_at m (a + esz) esz es)"

fun tag_at :: "mem \<Rightarrow> u32 \<Rightarrow> mb2_tag \<Rightarrow> bool" where
  "tag_at m a (Command_Line s) =
     (rd32 m a = 1 \<and> cstring m (a + 8) s \<and> 8 + length s < unat (rd32 m (a + 4)))"
| "tag_at m a (Loader_Name s) =
     (rd32 m a = 2 \<and> cstring m (a + 8) s \<and> 8 + length s < unat (rd32 m (a + 4)))"
| "tag_at m a (Module b c s) =
     (rd32 m a = 3 \<and> rd32 m (a + 8) = b \<and> rd32 m (a + 12) = c \<and> cstring m (a + 16) s \<and>
      16 + length s < unat (rd32 m (a + 4)))"
| "tag_at m a (Memory_Map esz es) =
     (rd32 m a = 6 \<and> rd32 m (a + 8) = esz \<and> 20 \<le> unat esz \<and> entries_at m (a + 16) esz es \<and>
      unat (rd32 m (a + 4)) = 16 + unat esz * length es)"
| "tag_at m a Other_Tag = (rd32 m a \<notin> {0, 1, 2, 3, 6} \<and> 8 \<le> unat (rd32 m (a + 4)))"

text \<open>The tags stand one after the other up to an end tag or up to \<open>limit\<close>.\<close>

fun tags_at :: "mem \<Rightarrow> u32 \<Rightarrow> u32 \<Rightarrow> mb2_tag list \<Rightarrow> bool" where
  "tags_at m a limit [] = (limit \<le> a \<or> unat a + 4 \<le> unat limit \<and> rd32 m a = 0)"
| "tags_at m a limit (t # ts) =
     (unat a + unat (rd32 m (a + 4)) \<le> unat limit \<and> tag_at m a t \<and>
      tags_at m (a + MULTIBOOT2_ALIGN_UP (rd32 m (a + 4))) limit ts)"

definition info_at :: "mem \<Rightarrow> u32 \<Rightarrow> u32 \<Rightarrow> mb2_tag list \<Rightarrow> bool" where
  "info_at m mb limit ts \<longleftrightarrow>
     limit = mb + rd32 m mb \<and> unat mb + 8 \<le> unat limit \<and> unat limit + 8 \<le> 4294967296 \<and>
     tags_at m (mb + 8) limit ts"

section \<open>What the tags say\<close>

record boot_view =
  v_name :: "u8 list option"
  v_command_line :: "u8 list option"
  v_ram :: "boot_memory_region_t list"
  v_reserved :: "boot_memory_region_t list"
  v_modules :: "(u32 \<times> u32 \<times> u8 list) list"

definition of_type :: "u32 \<Rightarrow> (boot_memory_region_t \<times> u32) list \<Rightarrow> boot_memory_region_t list" where
  "of_type ty es = map fst (filter (\<lambda>(_, t). t = ty) es)"

fun view_tag :: "mb2_tag \<Rightarrow> boot_view \<Rightarrow> boot_view" where
  "view_tag (Command_Line s) v = v\<lparr>v_command_line := Some s\<rparr>"
| "view_tag (Loader_Name s) v = v\<lparr>v_name := Some s\<rparr>"
| "view_tag (Module b c s) v = v\<lparr>v_modules := v_modules v @ [(b, c, s)]\<rparr>"
| "view_tag (Memory_Map _ es) v = v\<lparr>v_ram := v_ram v @ of_type 1 es, v_reserved := v_reserved v @ of_type 2 es\<rparr>"
| "view_tag Other_Tag v = v"

definition view_tags :: "mb2_tag list \<Rightarrow> boot_view" where
  "view_tags ts = fold view_tag ts
     \<lparr>v_name = None, v_command_line = None, v_ram = [], v_reserved = [], v_modules = []\<rparr>"

text \<open>The bytes of early heap a tag takes.\<close>

fun tag_cost :: "mb2_tag \<Rightarrow> nat" where
  "tag_cost (Command_Line s) = length s + 1"
| "tag_cost (Loader_Name s) = length s + 1"
| "tag_cost (Module _ _ s) = 16 + (length s + 1)"
| "tag_cost (Memory_Map _ es) = 20 * length es"
| "tag_cost Other_Tag = 0"

text \<open>A pointer to a copy of \<open>s\<close> between \<open>lo\<close> and \<open>hi\<close>.\<close>

definition held :: "mem \<Rightarrow> nat \<Rightarrow> nat \<Rightarrow> u32 \<Rightarrow> u8 list \<Rightarrow> bool" where
  "held m lo hi p s \<longleftrightarrow> cstring m p s \<and> lo \<le> unat p \<and> unat p + length s < hi"

definition held_opt :: "mem \<Rightarrow> nat \<Rightarrow> nat \<Rightarrow> u32 \<Rightarrow> u8 list option \<Rightarrow> bool" where
  "held_opt m lo hi p so \<longleftrightarrow> (case so of None \<Rightarrow> p = NULL | Some s \<Rightarrow> held m lo hi p s)"

lemma held_opt_simps [simp]:
  "held_opt m lo hi p None \<longleftrightarrow> p = NULL"
  "held_opt m lo hi p (Some s) \<longleftrightarrow> held m lo hi p s"
  by (simp_all add: held_opt_def)

definition held_module :: "mem \<Rightarrow> nat \<Rightarrow> nat \<Rightarrow> boot_module_t \<Rightarrow> u32 \<times> u32 \<times> u8 list \<Rightarrow> bool" where
  "held_module m lo hi md = (\<lambda>(b, c, s). mod_start md = b \<and> mod_end md = c \<and> held m lo hi (mod_command_line md) s)"

definition shows_view :: "mem \<Rightarrow> nat \<Rightarrow> nat \<Rightarrow> boot_info_t \<Rightarrow> boot_view \<Rightarrow> bool" where
  "shows_view m lo hi bi v \<longleftrightarrow>
     held_opt m lo hi (bi_name bi) (v_name v) \<and> held_opt m lo hi (bi_command_line bi) (v_command_line v) \<and>
     ram_regions bi = v_ram v \<and> reserved_regions bi = v_reserved v \<and>
     list_all2 (held_module m lo hi) (modules bi) (v_modules v)"

section \<open>Memory that a step leaves alone\<close>

definition agree :: "mem \<Rightarrow> mem \<Rightarrow> u32 \<Rightarrow> nat \<Rightarrow> bool" where
  "agree m m' a n \<longleftrightarrow> (\<forall>i<n. m (a + of_nat i) = m' (a + of_nat i))"

lemma agree_mono: "agree m m' a n \<Longrightarrow> k \<le> n \<Longrightarrow> agree m m' a k"
  by (simp add: agree_def)

lemma agree_shift: "agree m m' a n \<Longrightarrow> k + j \<le> n \<Longrightarrow> agree m m' (a + of_nat k) j"
proof -
  assume *: "agree m m' a n" "k + j \<le> n"
  have "m (a + of_nat (k + i)) = m' (a + of_nat (k + i))" if "i < j" for i
    using *(1) [unfolded agree_def, rule_format, of "k + i"] *(2) that by linarith
  then show ?thesis by (simp add: agree_def add.assoc)
qed

lemma rd32_agree: "agree m m' a n \<Longrightarrow> k + 4 \<le> n \<Longrightarrow> rd32 m' (a + of_nat k) = rd32 m (a + of_nat k)"
  using agree_shift [of m m' a n k 4] by (intro rd32_cong) (simp add: agree_def)

lemma rd64_agree: "agree m m' a n \<Longrightarrow> k + 8 \<le> n \<Longrightarrow> rd64 m' (a + of_nat k) = rd64 m (a + of_nat k)"
  using rd32_agree [of m m' a n k] rd32_agree [of m m' a n "k + 4"] by (simp add: rd64_def add.assoc)

lemma cstring_agree: "agree m m' p n \<Longrightarrow> length s < n \<Longrightarrow> cstring m p s \<Longrightarrow> cstring m' p s"
  using read_bytes_cong [of "length s" m p m'] by (simp add: cstring_def agree_def)

lemma entries_at_agree:
  "entries_at m a esz es \<Longrightarrow> agree m m' a n \<Longrightarrow> 20 \<le> unat esz \<Longrightarrow> unat esz * length es \<le> n \<Longrightarrow>
   entries_at m' a esz es"
proof (induction m a esz es arbitrary: n rule: entries_at.induct)
  case (2 m a esz r ty es)
  have n: "unat esz + unat esz * length es \<le> n" using 2(5) by simp
  then have k: "20 \<le> n" using 2(4) by simp
  have "agree m m' (a + of_nat (unat esz)) (unat esz * length es)"
    by (rule agree_shift [OF 2(3) n])
  then have "entries_at m' (a + esz) esz es" using 2(1,2,4) by simp
  then show ?case
    using 2(2) k rd64_agree [OF 2(3), of 0] rd64_agree [OF 2(3), of 8] rd32_agree [OF 2(3), of 16] by simp
qed simp

lemma tag_at_size: "tag_at m a t \<Longrightarrow> 8 \<le> unat (rd32 m (a + 4))"
  by (cases t) auto

lemma tag_at_agree:
  assumes "tag_at m a t" and "agree m m' a (unat (rd32 m (a + 4)))"
  shows "tag_at m' a t" and "rd32 m' (a + 4) = rd32 m (a + 4)"
proof -
  let ?n = "unat (rd32 m (a + 4))"
  note n = tag_at_size [OF assms(1)] and w = rd32_agree [OF assms(2)]
  show s: "rd32 m' (a + 4) = rd32 m (a + 4)" using n w [of 4] by simp
  have t: "rd32 m' a = rd32 m a" using n w [of 0] by simp
  have str: "cstring m' (a + of_nat k) s" if "cstring m (a + of_nat k) s" "k + length s < ?n" for k s
    using that agree_shift [OF assms(2), of k "?n - k"] by (intro cstring_agree [of m m' _ "?n - k"]) auto
  show "tag_at m' a t"
  proof (cases t)
    case (Memory_Map esz es)
    have "agree m m' (a + of_nat 16) (unat esz * length es)"
      using assms(1) Memory_Map by (intro agree_shift [OF assms(2)]) simp
    then have "entries_at m' (a + 16) esz es"
      using assms(1) Memory_Map by (intro entries_at_agree [of m _ _ _ m' "unat esz * length es"]) simp_all
    then show ?thesis using assms(1) s t w [of 8] Memory_Map by simp
  next
    case (Module b c cs)
    then show ?thesis using assms(1) s t w [of 8] w [of 12] str [of 16 cs] by simp
  qed (use assms(1) s t str [of 8] in auto)
qed

lemma unat_align_up:
  assumes "unat x + 8 \<le> 4294967296"
  shows "unat x \<le> unat (MULTIBOOT2_ALIGN_UP x)" and "unat (MULTIBOOT2_ALIGN_UP x) \<le> unat x + 7"
proof -
  have "unat (x + 7) = unat x + 7" using assms by (subst unat_add_nowrap) simp_all
  moreover have "MULTIBOOT2_ALIGN_UP x = (x + 7) AND NOT (mask 3)"
    by (simp add: MULTIBOOT2_ALIGN_UP_def mask_eq_exp_minus_1)
  ultimately have "unat (MULTIBOOT2_ALIGN_UP x) = (unat x + 7) div 8 * 8"
    by (simp add: unat_and_not_mask)
  then show "unat x \<le> unat (MULTIBOOT2_ALIGN_UP x)" "unat (MULTIBOOT2_ALIGN_UP x) \<le> unat x + 7"
    by simp_all
qed

text \<open>The step from one tag to the next does not wrap, and stays at most seven bytes past the limit.\<close>

lemma next_tag:
  assumes "unat a + unat sz \<le> unat limit" and "unat limit + 8 \<le> 4294967296"
  shows "unat (a + MULTIBOOT2_ALIGN_UP sz) = unat a + unat (MULTIBOOT2_ALIGN_UP sz)"
    and "unat sz \<le> unat (MULTIBOOT2_ALIGN_UP sz)"
  using assms unat_align_up [of sz] by (auto intro: unat_add_nowrap)

lemma tags_at_agree:
  "tags_at m a limit ts \<Longrightarrow> agree m m' a (unat limit - unat a) \<Longrightarrow> unat limit + 8 \<le> 4294967296 \<Longrightarrow>
   tags_at m' a limit ts"
proof (induction m a limit ts rule: tags_at.induct)
  case (1 m a limit)
  then show ?case
    using rd32_agree [OF 1(2), of 0] by (auto simp: word_le_nat_alt)
next
  case (2 m a limit t ts)
  let ?sz = "rd32 m (a + 4)" and ?k = "unat (MULTIBOOT2_ALIGN_UP (rd32 m (a + 4)))"
  have le: "unat a + unat ?sz \<le> unat limit" and t: "tag_at m a t" using 2(2) by simp_all
  have "agree m m' a (unat ?sz)" by (rule agree_mono [OF 2(3)]) (use le in linarith)
  note t' = tag_at_agree [OF t this]
  note nx = next_tag [OF le 2(4)]
  have "agree m m' (a + MULTIBOOT2_ALIGN_UP ?sz) (unat limit - unat (a + MULTIBOOT2_ALIGN_UP ?sz))"
  proof (cases "unat a + ?k \<le> unat limit")
    case True
    then show ?thesis using agree_shift [OF 2(3), of ?k "unat limit - (unat a + ?k)"] nx(1) by simp
  next
    case False
    then show ?thesis unfolding nx(1) by (simp add: agree_def)
  qed
  with 2(1,2,4) have "tags_at m' (a + MULTIBOOT2_ALIGN_UP ?sz) limit ts" by simp
  with t' le show ?case by simp
qed

section \<open>The memory map\<close>

text \<open>What the loop appends for the entries it passes.\<close>

definition add_entries :: "(boot_memory_region_t \<times> u32) list \<Rightarrow> boot_info_t \<Rightarrow> boot_info_t" where
  "add_entries es bi = bi\<lparr>ram_regions := ram_regions bi @ of_type 1 es,
     reserved_regions := reserved_regions bi @ of_type 2 es\<rparr>"

lemma add_entries_simps:
  "add_entries [] bi = bi"
  "add_entries ((r, ty) # es) bi = add_entries es
     (if ty = MULTIBOOT2_MEMORY_AVAILABLE then bi\<lparr>ram_regions := ram_regions bi @ [r]\<rparr>
      else if ty = MULTIBOOT2_MEMORY_RESERVED then bi\<lparr>reserved_regions := reserved_regions bi @ [r]\<rparr>
      else bi)"
  by (simp_all add: add_entries_def of_type_def mb2_memory)

text \<open>The layout of the entries still to come, seen from the loop: no address in it wraps.\<close>

definition entries_left :: "mem \<Rightarrow> u32 \<Rightarrow> u32 \<Rightarrow> u32 \<Rightarrow> (boot_memory_region_t \<times> u32) list \<Rightarrow> bool" where
  "entries_left m tag pos limit es \<longleftrightarrow>
     entries_at m pos (rd32 m (tag + 8)) es \<and> 0 < unat (rd32 m (tag + 8)) \<and>
     unat pos + unat (rd32 m (tag + 8)) * length es = unat limit"

lemma entries_left_Cons:
  assumes "entries_left m tag pos limit (x # es)"
  shows "pos < limit" and "entries_left m tag (pos + rd32 m (tag + 8)) limit es"
proof -
  let ?w = "rd32 m (tag + 8)"
  have e: "unat pos + (unat ?w + unat ?w * length es) = unat limit" "0 < unat ?w"
    using assms by (simp_all add: entries_left_def)
  then show "pos < limit" by (simp add: word_less_nat_alt)
  have "unat (pos + ?w) = unat pos + unat ?w"
    using e unat_u32_lt [of limit] by (intro unat_add_nowrap) linarith
  then show "entries_left m tag (pos + ?w) limit es"
    using assms e by (cases x) (simp add: entries_left_def)
qed

lemma memory_map_loop_step:
  assumes "entries_left m tag pos limit ((r, ty) # es)"
  shows "memory_map_loop m tag pos limit (bi, e) =
    bindR (emm_alloc 20 e) (\<lambda>(_, e'). memory_map_loop m tag (pos + rd32 m (tag + 8)) limit
      (if ty = MULTIBOOT2_MEMORY_AVAILABLE then bi\<lparr>ram_regions := ram_regions bi @ [r]\<rparr>
       else if ty = MULTIBOOT2_MEMORY_RESERVED then bi\<lparr>reserved_regions := reserved_regions bi @ [r]\<rparr>
       else bi, e'))"
  using assms entries_left_Cons(1) [OF assms]
  by (cases r; subst memory_map_loop.simps)
    (simp add: entries_left_def sizeof_boot_memory_region_t_def Let_def)

lemma memory_map_loop_correct:
  "entries_left m tag pos limit es \<Longrightarrow> emm_inv e \<Longrightarrow> 20 * length es \<le> room e \<Longrightarrow>
   \<exists>e'. memory_map_loop m tag pos limit (bi, e) = ret (add_entries es bi, e') \<and> takes (20 * length es) e e'"
proof (induction es arbitrary: pos bi e)
  case Nil
  then have "\<not> pos < limit" by (simp add: entries_left_def word_less_nat_alt)
  then show ?case by (subst memory_map_loop.simps) (simp add: add_entries_simps)
next
  case (Cons x es)
  obtain r ty where x: "x = (r, ty)" by (cases x)
  obtain e1 where e1: "emm_alloc 20 e = ret (g_cursor e, e1)" "takes 20 e e1"
    using emm_alloc_takes [of 20 e] Cons.prems by auto
  have "20 * length es \<le> room e1" using takes_room [OF e1(2)] Cons.prems(3) by simp
  from Cons.IH [OF entries_left_Cons(2) [OF Cons.prems(1)] takes_inv [OF e1(2) Cons.prems(2)] this]
  obtain e2 where e2: "memory_map_loop m tag (pos + rd32 m (tag + 8)) limit
      (if ty = MULTIBOOT2_MEMORY_AVAILABLE then bi\<lparr>ram_regions := ram_regions bi @ [r]\<rparr>
       else if ty = MULTIBOOT2_MEMORY_RESERVED then bi\<lparr>reserved_regions := reserved_regions bi @ [r]\<rparr>
       else bi, e1) = ret (add_entries ((r, ty) # es) bi, e2)" "takes (20 * length es) e1 e2"
    unfolding add_entries_simps(2) by blast
  then show ?case
    using memory_map_loop_step [of m tag pos limit r ty es bi e] Cons.prems(1) x e1 takes_add [OF e1(2) e2(2)]
    by simp
qed

lemma memory_map_loop_exhausted:
  "entries_left m tag pos limit es \<Longrightarrow> emm_inv e \<Longrightarrow> room e < 20 * length es \<Longrightarrow>
   unat (g_end e) + 20 < 4294967296 \<Longrightarrow>
   memory_map_loop m tag pos limit (bi, e) = panic ''Early boot allocator exhausted while allocating %u bytes'' [20]"
proof (induction es arbitrary: pos bi e)
  case (Cons x es)
  obtain r ty where x: "x = (r, ty)" by (cases x)
  note step = memory_map_loop_step [OF Cons.prems(1) [unfolded x], of bi e]
  show ?case
  proof (cases "20 \<le> room e")
    case True
    then obtain e1 where e1: "emm_alloc 20 e = ret (g_cursor e, e1)" "takes 20 e e1"
      using emm_alloc_takes [of 20 e] Cons.prems by auto
    have "room e1 < 20 * length es" "g_end e1 = g_end e"
      using takes_room [OF e1(2)] Cons.prems(3) True e1(2) by (simp_all add: takes_def)
    then show ?thesis
      unfolding step e1(1) bindR_simps prod.case
      using Cons.IH [OF entries_left_Cons(2) [OF Cons.prems(1)] takes_inv [OF e1(2) Cons.prems(2)]] Cons.prems(4)
      by simp
  next
    case False
    then show ?thesis using step emm_alloc_exhausted [of e 20] Cons.prems by simp
  qed
qed simp

section \<open>Strings\<close>

text \<open>Memory that changed at most in the heap space between two cursors.\<close>

definition only_heap :: "emm_state \<Rightarrow> emm_state \<Rightarrow> mem \<Rightarrow> mem \<Rightarrow> bool" where
  "only_heap e e' m m' \<longleftrightarrow>
     (\<forall>x. unat x < unat (g_cursor e) \<or> unat (g_cursor e') \<le> unat x \<longrightarrow> m' x = m x)"

lemma only_heap_refl [simp]: "only_heap e e' m m"
  by (simp add: only_heap_def)

lemma only_heap_trans:
  "only_heap e e1 m m1 \<Longrightarrow> only_heap e1 e2 m1 m2 \<Longrightarrow> takes j e e1 \<Longrightarrow> takes k e1 e2 \<Longrightarrow> only_heap e e2 m m2"
  by (simp add: only_heap_def takes_def)

text \<open>The bytes from \<open>a\<close> up to \<open>limit\<close> are not of the free part of the heap.\<close>

definition apart :: "u32 \<Rightarrow> u32 \<Rightarrow> emm_state \<Rightarrow> bool" where
  "apart a limit e \<longleftrightarrow> unat limit \<le> unat (g_cursor e) \<or> unat (g_end e) \<le> unat a"

lemma apart_mono: "apart a limit e \<Longrightarrow> takes n e e' \<Longrightarrow> unat a \<le> unat b \<Longrightarrow> apart b limit e'"
  by (auto simp: apart_def takes_def)

lemma offset_no_wrap: "unat (a :: u32) + n < 4294967296 \<Longrightarrow> unat (a + of_nat n) = unat a + n"
  by (subst unat_add_nowrap) (simp_all add: unat_of_nat_u32)

lemma only_heap_agree:
  assumes "only_heap e e' m m'" and "apart a limit e" and "takes n e e'" and "emm_inv e"
  shows "agree m m' a (unat limit - unat a)"
  unfolding agree_def
proof (intro allI impI)
  fix i assume i: "i < unat limit - unat a"
  have u: "unat (a + of_nat i) = unat a + i"
    using i unat_u32_lt [of limit] by (intro offset_no_wrap) linarith
  have "unat (a + of_nat i) < unat (g_cursor e) \<or> unat (g_cursor e') \<le> unat (a + of_nat i)"
    using assms(2-4) i u by (auto simp: apart_def takes_def room_def emm_inv_def word_le_nat_alt)
  then show "m (a + of_nat i) = m' (a + of_nat i)"
    using assms(1) [unfolded only_heap_def, rule_format, of "a + of_nat i"] by simp
qed

lemma cstring_length_word: "cstring m p s \<Longrightarrow> unat (of_nat (length s) :: u32) = length s"
  by (simp add: cstring_def unat_of_nat_u32)

lemma copy_string_correct:
  assumes s: "cstring m src s" and src: "src \<noteq> NULL" "unat src + length s < 4294967296"
    and e: "emm_inv e" "0 < unat (g_cursor e)" "length s + 1 \<le> room e"
    and ap: "apart src (src + of_nat (length s)) e"
  shows "\<exists>m' e'. copy_string src (m, e) = ret (g_cursor e, m', e') \<and> takes (length s + 1) e e' \<and>
    only_heap e e' m m' \<and> held m' (unat (g_cursor e)) (unat (g_cursor e')) (g_cursor e) s"
proof -
  let ?n = "length s" and ?p = "g_cursor e"
  let ?len = "of_nat (length s) :: u32"
  note l = cstring_length_word [OF s]
  have pe: "unat ?p + ?n + 1 \<le> unat (g_end e)"
    using e by (simp add: room_def emm_inv_def word_le_nat_alt)
  have l1: "unat (?len + 1) = ?n + 1"
    using l pe unat_u32_lt [of "g_end e"] by (subst unat_add_nowrap) simp_all
  obtain e' where e': "emm_alloc (?len + 1) e = ret (?p, e')" "takes (?n + 1) e e'"
    using emm_alloc_takes [of "?len + 1" e] l1 e by auto
  have pn: "?p \<noteq> NULL" using e(2) by auto
  have dis: "disjoint_ranges ?p (unat ?len) src (unat ?len)"
  proof (cases "unat src + ?n \<le> unat ?p")
    case True
    then show ?thesis using pe unat_u32_lt [of "g_end e"] l
      by (intro disjoint_ranges_sym [OF disjoint_rangesI]) simp_all
  next
    case False
    then have "unat (g_end e) \<le> unat src"
      using ap offset_no_wrap [OF src(2)] by (auto simp: apart_def)
    then show ?thesis using pe src(2) l by (intro disjoint_rangesI) simp_all
  qed
  let ?m1 = "snd (kmemcpy ?p src ?len m)"
  define m' where "m' = ?m1(?p + ?len := 0)"
  have pu: "unat (?p + of_nat i) = unat ?p + i" if "i \<le> ?n" for i
    using that pe unat_u32_lt [of "g_end e"] by (intro offset_no_wrap) linarith
  have m1: "?m1 x = (if in_range ?p ?n x then m (src + (x - ?p)) else m x)" for x
    using kmemcpy_disjoint_apply [OF pn src(1) dis] l by simp
  have "m' (?p + of_nat i) = s ! i" if "i < ?n" for i
  proof -
    have "?p + of_nat i \<noteq> ?p + ?len" using pu [of i] pu [of ?n] that by auto
    moreover have "in_range ?p ?n (?p + of_nat i)"
      using that s by (intro in_range_offset) (simp_all add: cstring_def)
    ultimately show ?thesis using cstringD(1) [OF s that] unfolding m'_def by (simp add: m1)
  qed
  then have cs: "cstring m' ?p s"
    using s by (auto simp: cstring_def m'_def intro!: nth_equalityI)
  have "only_heap e e' m m'"
    unfolding only_heap_def
  proof (intro allI impI)
    fix x :: u32 assume x: "unat x < unat ?p \<or> unat (g_cursor e') \<le> unat x"
    have r: "\<not> in_range ?p ?n x"
    proof
      assume "in_range ?p ?n x"
      then obtain i where "i < ?n" "x = ?p + of_nat i" by (rule in_rangeE)
      then show False using x pu [of i] e'(2) by (simp add: takes_def)
    qed
    have "x \<noteq> ?p + ?len" using x pu [of ?n] e'(2) by (auto simp: takes_def)
    then show "m' x = m x" using r by (simp add: m'_def m1)
  qed
  then show ?thesis
    using e' cs kstrlen_correct [OF s] by (auto simp: copy_string_def m'_def held_def takes_def Let_def)
qed

lemma copy_string_exhausted:
  assumes s: "cstring m src s" and e: "emm_inv e" "room e < length s + 1"
    and "unat (g_end e) + (length s + 1) < 4294967296"
  shows "copy_string src (m, e) =
    panic ''Early boot allocator exhausted while allocating %u bytes'' [of_nat (length s + 1)]"
proof -
  have "unat (of_nat (length s) + 1 :: u32) = length s + 1"
    using cstring_length_word [OF s] assms(4) by (subst unat_add_nowrap) simp_all
  then show ?thesis
    using emm_alloc_exhausted [of e "of_nat (length s) + 1"] assms
    by (simp add: copy_string_def kstrlen_correct [OF s] add.commute)
qed

section \<open>One tag\<close>

lemma held_frame:
  assumes "held m lo hi p s" and "only_heap e e' m m'" and "takes n e e'" and "hi = unat (g_cursor e)"
  shows "held m' lo (unat (g_cursor e')) p s"
proof -
  have "agree m m' p (length s + 1)"
    unfolding agree_def
  proof (intro allI impI)
    fix i assume i: "i < length s + 1"
    have "unat (p + of_nat i) = unat p + i"
      using assms(1,4) i unat_u32_lt [of "g_cursor e"] by (intro offset_no_wrap) (simp add: held_def)
    then have "unat (p + of_nat i) < unat (g_cursor e)" using assms(1,4) i by (simp add: held_def)
    then show "m (p + of_nat i) = m' (p + of_nat i)"
      using assms(2) [unfolded only_heap_def, rule_format, of "p + of_nat i"] by simp
  qed
  then show ?thesis
    using assms cstring_agree [of m m' p "length s + 1" s] by (simp add: held_def takes_def)
qed

lemma shows_view_frame:
  assumes "shows_view m lo (unat (g_cursor e)) bi v" and "only_heap e e' m m'" and "takes n e e'"
  shows "shows_view m' lo (unat (g_cursor e')) bi v"
proof -
  note fr = held_frame [OF _ assms(2,3) refl]
  have "held_opt m' lo (unat (g_cursor e')) p so" if "held_opt m lo (unat (g_cursor e)) p so" for p so
    using that fr by (cases so) (auto simp: held_opt_def)
  moreover have "held_module m' lo (unat (g_cursor e')) md x"
    if "held_module m lo (unat (g_cursor e)) md x" for md x
    using that fr by (cases x) (auto simp: held_module_def)
  then have "list_all2 (held_module m' lo (unat (g_cursor e'))) (modules bi) (v_modules v)"
    using assms(1) by (auto simp: shows_view_def elim: list_all2_mono)
  ultimately show ?thesis using assms(1) by (simp add: shows_view_def)
qed

text \<open>What the step over one tag achieves; \<open>lo\<close> is where the heap began.\<close>

definition tag_done ::
  "nat \<Rightarrow> mb2_tag \<Rightarrow> boot_view \<Rightarrow> emm_state \<Rightarrow> mem \<Rightarrow> mem \<times> boot_info_t \<times> emm_state \<Rightarrow> bool" where
  "tag_done lo t v e m = (\<lambda>(m', bi', e').
     takes (tag_cost t) e e' \<and> only_heap e e' m m' \<and> shows_view m' lo (unat (g_cursor e')) bi' (view_tag t v))"

text \<open>A string of the tag at \<open>a\<close>, which ends before \<open>limit\<close>.\<close>

lemma tag_string:
  assumes "cstring m (a + of_nat k) s" and "0 < k" and "unat a + k + length s < unat limit"
    and "apart a limit e" and "emm_inv e" and "0 < unat (g_cursor e)"
  shows "length s + 1 \<le> room e \<Longrightarrow>
      \<exists>m' e'. copy_string (a + of_nat k) (m, e) = ret (g_cursor e, m', e') \<and> takes (length s + 1) e e' \<and>
        only_heap e e' m m' \<and> held m' (unat (g_cursor e)) (unat (g_cursor e')) (g_cursor e) s"
    and "unat (a + of_nat k) = unat a + k"
proof -
  have lim: "unat limit < 4294967296" by (rule unat_u32_lt)
  show u: "unat (a + of_nat k) = unat a + k" using assms(3) lim by (intro offset_no_wrap) linarith
  then have "unat (a + of_nat k + of_nat (length s)) = unat a + k + length s"
    using assms(3) lim by (subst offset_no_wrap) simp_all
  then have "apart (a + of_nat k) (a + of_nat k + of_nat (length s)) e"
    using assms(3,4) u by (auto simp: apart_def)
  moreover have "a + of_nat k \<noteq> NULL" using u assms(2) by auto
  moreover assume "length s + 1 \<le> room e"
  ultimately show "\<exists>m' e'. copy_string (a + of_nat k) (m, e) = ret (g_cursor e, m', e') \<and>
      takes (length s + 1) e e' \<and> only_heap e e' m m' \<and>
      held m' (unat (g_cursor e)) (unat (g_cursor e')) (g_cursor e) s"
    using assms u lim by (intro copy_string_correct) simp_all
qed

lemma held_weaken: "held m lo hi p s \<Longrightarrow> lo' \<le> lo \<Longrightarrow> held m lo' hi p s"
  by (simp add: held_def)

lemma parse_tag_type:
  "rd32 m a = 6 \<Longrightarrow> parse_tag a (m, bi, e) =
     bindR (parse_memory_map a m (bi, e)) (\<lambda>(bi, e). ret (m, bi, e))"
  "rd32 m a = 1 \<Longrightarrow> parse_tag a (m, bi, e) = parse_command_line a (m, bi, e)"
  "rd32 m a = 3 \<Longrightarrow> parse_tag a (m, bi, e) = parse_module a (m, bi, e)"
  "rd32 m a = 2 \<Longrightarrow> parse_tag a (m, bi, e) = parse_name a (m, bi, e)"
  "rd32 m a \<notin> {0, 1, 2, 3, 6} \<Longrightarrow> parse_tag a (m, bi, e) = ret (m, bi, e)"
  by (simp_all add: parse_tag_def mb2_types)

lemma tag_entries_left:
  assumes "tag_at m a (Memory_Map esz es)" and "unat a + unat (rd32 m (a + 4)) \<le> unat (limit :: u32)"
  shows "entries_left m a (a + 16) (a + rd32 m (a + 4)) es"
proof -
  have sz: "unat (rd32 m (a + 4)) = 16 + unat esz * length es" using assms(1) by simp
  have "unat (a + rd32 m (a + 4)) = unat a + unat (rd32 m (a + 4))"
    using assms(2) unat_u32_lt [of limit] by (intro unat_add_nowrap) linarith
  moreover have "unat (a + of_nat 16) = unat a + 16"
    using assms(2) sz unat_u32_lt [of limit] by (intro offset_no_wrap) linarith
  ultimately show ?thesis using assms(1) sz by (simp add: entries_left_def)
qed

lemma parse_tag_correct:
  assumes t: "tag_at m a t" and le: "unat a + unat (rd32 m (a + 4)) \<le> unat limit"
    and ap: "apart a limit e" and e: "emm_inv e" "0 < lo" "lo \<le> unat (g_cursor e)"
    and v: "shows_view m lo (unat (g_cursor e)) bi v" and cost: "tag_cost t \<le> room e"
  shows "\<exists>r. parse_tag a (m, bi, e) = ret r \<and> tag_done lo t v e m r"
proof (cases t)
  case (Command_Line s)
  then obtain m' e' where r: "copy_string (a + 8) (m, e) = ret (g_cursor e, m', e')" "takes (length s + 1) e e'"
      "only_heap e e' m m'" "held m' (unat (g_cursor e)) (unat (g_cursor e')) (g_cursor e) s"
    using tag_string(1) [of m a 8 s limit e] t le ap e cost by auto
  show ?thesis
    using r t Command_Line shows_view_frame [OF v r(3,2)] held_weaken [OF r(4) e(3)]
    by (simp add: parse_tag_type parse_command_line_def tag_done_def shows_view_def)
next
  case (Loader_Name s)
  then obtain m' e' where r: "copy_string (a + 8) (m, e) = ret (g_cursor e, m', e')" "takes (length s + 1) e e'"
      "only_heap e e' m m'" "held m' (unat (g_cursor e)) (unat (g_cursor e')) (g_cursor e) s"
    using tag_string(1) [of m a 8 s limit e] t le ap e cost by auto
  show ?thesis
    using r t Loader_Name shows_view_frame [OF v r(3,2)] held_weaken [OF r(4) e(3)]
    by (simp add: parse_tag_type parse_name_def tag_done_def shows_view_def)
next
  case (Module b c s)
  obtain e1 where e1: "emm_alloc 16 e = ret (g_cursor e, e1)" "takes 16 e e1"
    using emm_alloc_takes [of 16 e] e cost Module by auto
  have c1: "unat (g_cursor e1) = unat (g_cursor e) + 16" using e1(2) by (simp add: takes_def)
  have "length s + 1 \<le> room e1" "apart a limit e1" "emm_inv e1"
    using takes_room [OF e1(2)] cost Module apart_mono [OF ap e1(2)] takes_inv [OF e1(2) e(1)] by simp_all
  then obtain m' e' where r: "copy_string (a + 16) (m, e1) = ret (g_cursor e1, m', e')" "takes (length s + 1) e1 e'"
      "only_heap e1 e' m m'" "held m' (unat (g_cursor e1)) (unat (g_cursor e')) (g_cursor e1) s"
    using tag_string(1) [of m a 16 s limit e1] t le e c1 Module by auto
  note tk = takes_add [OF e1(2) r(2)] and oh = only_heap_trans [OF only_heap_refl r(3) e1(2) r(2)]
  have "held m' lo (unat (g_cursor e')) (g_cursor e1) s" using held_weaken [OF r(4)] c1 e(3) by simp
  then show ?thesis
    using r(1) e1(1) tk oh t Module shows_view_frame [OF v oh tk]
    by (simp add: parse_tag_type parse_module_def tag_done_def shows_view_def held_module_def
        sizeof_boot_module_t_def list_all2_appendI)
next
  case (Memory_Map esz es)
  obtain e' where r: "memory_map_loop m a (a + 16) (a + rd32 m (a + 4)) (bi, e) = ret (add_entries es bi, e')"
      "takes (20 * length es) e e'"
    using memory_map_loop_correct [OF tag_entries_left [OF t [unfolded Memory_Map] le] e(1)] cost Memory_Map by auto
  show ?thesis
    using r t Memory_Map shows_view_frame [OF v only_heap_refl r(2)]
    by (simp add: parse_tag_type parse_memory_map_def tag_done_def shows_view_def add_entries_def)
next
  case Other_Tag
  then show ?thesis using t v by (simp add: parse_tag_type tag_done_def)
qed

lemma parse_tag_exhausted:
  assumes t: "tag_at m a t" and le: "unat a + unat (rd32 m (a + 4)) \<le> unat (limit :: u32)"
    and e: "emm_inv e" "unat (g_end e) + unat (rd32 m (a + 4)) < 4294967296" and cost: "room e < tag_cost t"
  shows "exhausted (parse_tag a (m, bi, e))"
proof -
  have str: "exhausted (copy_string (a + of_nat k) (m, e1))"
    if "cstring m (a + of_nat k) s" "emm_inv e1" "g_end e1 = g_end e" "room e1 < length s + 1"
      "k + length s < unat (rd32 m (a + 4))" for k s e1
    using that e copy_string_exhausted [OF that(1,2,4)] by auto
  show ?thesis
  proof (cases t)
    case (Command_Line s)
    then show ?thesis using str [of 8 s e] t e cost
      by (auto simp: parse_tag_type parse_command_line_def intro: bindR_exhausted)
  next
    case (Loader_Name s)
    then show ?thesis using str [of 8 s e] t e cost
      by (auto simp: parse_tag_type parse_name_def intro: bindR_exhausted)
  next
    case (Module b c s)
    show ?thesis
    proof (cases "16 \<le> room e")
      case True
      then obtain e1 where e1: "emm_alloc 16 e = ret (g_cursor e, e1)" "takes 16 e e1"
        using emm_alloc_takes [of 16 e] e by auto
      then have "exhausted (copy_string (a + 16) (m, e1))"
        using str [of 16 s e1] t cost Module takes_room [OF e1(2)] takes_inv [OF e1(2) e(1)] True
        by (simp add: takes_def)
      then show ?thesis
        using t Module e1(1) by (auto simp: parse_tag_type parse_module_def sizeof_boot_module_t_def intro: bindR_exhausted)
    next
      case False
      then have "emm_alloc 16 e = panic ''Early boot allocator exhausted while allocating %u bytes'' [16]"
        using t Module e by (intro emm_alloc_exhausted) simp_all
      then show ?thesis
        using t Module by (auto simp: parse_tag_type parse_module_def sizeof_boot_module_t_def)
    qed
  next
    case (Memory_Map esz es)
    then have "es \<noteq> []" using cost by auto
    then have "unat esz * 1 \<le> unat esz * length es"
      by (intro mult_le_mono2) (cases es; simp)
    moreover have "20 \<le> unat esz" "unat (rd32 m (a + 4)) = 16 + unat esz * length es"
      using t Memory_Map by simp_all
    ultimately have "unat (g_end e) + 20 < 4294967296" using e(2) by linarith
    then show ?thesis
      using memory_map_loop_exhausted [OF tag_entries_left [OF t [unfolded Memory_Map] le] e(1)] cost t Memory_Map
      by (auto simp: parse_tag_type parse_memory_map_def)
  qed (use cost in simp)
qed

section \<open>All tags\<close>

definition info_cost :: "mb2_tag list \<Rightarrow> nat" where
  "info_cost ts = (\<Sum>t\<leftarrow>ts. tag_cost t)"

lemma info_cost_simps [simp]: "info_cost [] = 0" "info_cost (t # ts) = tag_cost t + info_cost ts"
  by (simp_all add: info_cost_def)

definition tags_done ::
  "nat \<Rightarrow> mb2_tag list \<Rightarrow> boot_view \<Rightarrow> emm_state \<Rightarrow> mem \<Rightarrow> mem \<times> boot_info_t \<times> emm_state \<Rightarrow> bool" where
  "tags_done lo ts v e m = (\<lambda>(m', bi', e').
     takes (info_cost ts) e e' \<and> only_heap e e' m m' \<and> shows_view m' lo (unat (g_cursor e')) bi' (fold view_tag ts v))"

lemma tag_at_not_end: "tag_at m a t \<Longrightarrow> rd32 m a \<noteq> 0"
  by (cases t) auto

lemma parse_tags_loop_Cons:
  assumes "tags_at m a limit (t # ts)"
  shows "parse_tags_loop a limit (m, bi, e) = bindR (parse_tag a (m, bi, e)) (\<lambda>st.
    parse_tags_loop (a + MULTIBOOT2_ALIGN_UP (rd32 (fst st) (a + 4))) limit st)"
proof -
  have t: "tag_at m a t" and le: "unat a + unat (rd32 m (a + 4)) \<le> unat limit" using assms by simp_all
  have "a < limit" using tag_at_size [OF t] le by (simp add: word_less_nat_alt)
  then show ?thesis
    using tag_at_not_end [OF t] by (subst parse_tags_loop.simps) (simp add: mb2_types)
qed

text \<open>The state after the tag at \<open>a\<close> is ready for the tags behind it.\<close>

lemma parse_tags_next:
  assumes ts: "tags_at m a limit (t # ts)" and lim: "unat limit + 8 \<le> 4294967296"
    and ap: "apart a limit e" and e: "emm_inv e" and d: "tag_done lo t v e m (m', bi', e')"
  defines "a' \<equiv> a + MULTIBOOT2_ALIGN_UP (rd32 m' (a + 4))"
  shows "tags_at m' a' limit ts" and "apart a' limit e'" and "emm_inv e'" and "unat a \<le> unat a'"
proof -
  have t: "tag_at m a t" and le: "unat a + unat (rd32 m (a + 4)) \<le> unat limit"
    and r: "tags_at m (a + MULTIBOOT2_ALIGN_UP (rd32 m (a + 4))) limit ts" using ts by simp_all
  have tk: "takes (tag_cost t) e e'" and oh: "only_heap e e' m m'" using d by (simp_all add: tag_done_def)
  have "agree m m' a (unat (rd32 m (a + 4)))"
    by (rule agree_mono [OF only_heap_agree [OF oh ap tk e]]) (use le in linarith)
  from tag_at_agree(2) [OF t this] have a': "a' = a + MULTIBOOT2_ALIGN_UP (rd32 m (a + 4))"
    by (simp add: a'_def)
  show ua: "unat a \<le> unat a'" using next_tag(1) [OF le lim] a' by simp
  show "apart a' limit e'" by (rule apart_mono [OF ap tk ua])
  show "emm_inv e'" by (rule takes_inv [OF tk e])
  have "apart a' limit e" using ap ua by (auto simp: apart_def)
  from only_heap_agree [OF oh this tk e] show "tags_at m' a' limit ts"
    by (rule tags_at_agree [OF r [folded a'] _ lim])
qed

lemma parse_tags_loop_correct:
  assumes "tags_at m a limit ts" and "unat limit + 8 \<le> 4294967296" and "apart a limit e" and "emm_inv e"
    and "0 < lo" and "lo \<le> unat (g_cursor e)" and "shows_view m lo (unat (g_cursor e)) bi v"
    and "info_cost ts \<le> room e"
  shows "\<exists>r. parse_tags_loop a limit (m, bi, e) = ret r \<and> tags_done lo ts v e m r"
  using assms
proof (induction ts arbitrary: m a e bi v)
  case Nil
  then have "parse_tags_loop a limit (m, bi, e) = ret (m, bi, e)"
    by (subst parse_tags_loop.simps) (auto simp: mb2_types word_le_nat_alt word_less_nat_alt)
  then show ?case using Nil by (simp add: tags_done_def)
next
  case (Cons t ts)
  have t: "tag_at m a t" "unat a + unat (rd32 m (a + 4)) \<le> unat limit" "tag_cost t \<le> room e"
    using Cons.prems(1,8) by simp_all
  from parse_tag_correct [OF t(1,2) Cons.prems(3-7) t(3)] obtain m' bi' e'
    where p: "parse_tag a (m, bi, e) = ret (m', bi', e')" and d: "tag_done lo t v e m (m', bi', e')"
    by auto
  let ?a = "a + MULTIBOOT2_ALIGN_UP (rd32 m' (a + 4))"
  have tk: "takes (tag_cost t) e e'" and oh: "only_heap e e' m m'"
    and v: "shows_view m' lo (unat (g_cursor e')) bi' (view_tag t v)" using d by (simp_all add: tag_done_def)
  note nx = parse_tags_next [OF Cons.prems(1-4) d]
  have "lo \<le> unat (g_cursor e')" "info_cost ts \<le> room e'"
    using tk takes_room [OF tk] Cons.prems(6,8) by (simp_all add: takes_def)
  from Cons.IH [OF nx(1) Cons.prems(2) nx(2,3) Cons.prems(5) this(1) v this(2)]
  obtain m2 bi2 e2 where l: "parse_tags_loop ?a limit (m', bi', e') = ret (m2, bi2, e2)"
    and d2: "tags_done lo ts (view_tag t v) e' m' (m2, bi2, e2)" by auto
  have tk2: "takes (info_cost ts) e' e2" and oh2: "only_heap e' e2 m' m2"
    using d2 by (simp_all add: tags_done_def)
  have "tags_done lo (t # ts) v e m (m2, bi2, e2)"
    using d2 takes_add [OF tk tk2] only_heap_trans [OF oh oh2 tk tk2] by (simp add: tags_done_def)
  then show ?case using parse_tags_loop_Cons [OF Cons.prems(1)] p l by simp
qed

lemma parse_tags_loop_exhausted:
  assumes "tags_at m a limit ts" and "unat limit + 8 \<le> 4294967296" and "apart a limit e" and "emm_inv e"
    and "0 < lo" and "lo \<le> unat (g_cursor e)" and "shows_view m lo (unat (g_cursor e)) bi v"
    and "room e < info_cost ts" and "unat (g_end e) + (unat limit - unat a) < 4294967296"
  shows "exhausted (parse_tags_loop a limit (m, bi, e))"
  using assms
proof (induction ts arbitrary: m a e bi v)
  case (Cons t ts)
  have t: "tag_at m a t" "unat a + unat (rd32 m (a + 4)) \<le> unat limit"
    using Cons.prems(1) by simp_all
  note step = parse_tags_loop_Cons [OF Cons.prems(1), of bi e]
  show ?case
  proof (cases "tag_cost t \<le> room e")
    case False
    then have "exhausted (parse_tag a (m, bi, e))"
      using t Cons.prems(4,9) by (intro parse_tag_exhausted [OF t]) simp_all
    then show ?thesis unfolding step by (rule bindR_exhausted)
  next
    case True
    from parse_tag_correct [OF t Cons.prems(3-7) True] obtain m' bi' e'
      where p: "parse_tag a (m, bi, e) = ret (m', bi', e')" and d: "tag_done lo t v e m (m', bi', e')"
      by auto
    let ?a = "a + MULTIBOOT2_ALIGN_UP (rd32 m' (a + 4))"
    have tk: "takes (tag_cost t) e e'"
      and v: "shows_view m' lo (unat (g_cursor e')) bi' (view_tag t v)" using d by (simp_all add: tag_done_def)
    note nx = parse_tags_next [OF Cons.prems(1-4) d]
    have lo: "lo \<le> unat (g_cursor e')" and r: "room e' < info_cost ts"
      using tk takes_room [OF tk] Cons.prems(6,8) True by (simp_all add: takes_def)
    have "unat limit - unat ?a \<le> unat limit - unat a" "g_end e' = g_end e"
      using nx(4) tk by (simp_all add: takes_def)
    then have "unat (g_end e') + (unat limit - unat ?a) < 4294967296" using Cons.prems(9) by simp
    from Cons.IH [OF nx(1) Cons.prems(2) nx(2,3) Cons.prems(5) lo v r this]
    show ?thesis unfolding step p by simp
  qed
qed simp

section \<open>The parser\<close>

lemma multiboot2_parse_outcome:
  assumes info: "info_at m mb limit ts" and e: "emm_inv e" "0 < g_cursor e" and ap: "apart mb limit e"
    and top: "unat (g_end e) + (unat limit - unat mb) < 4294967296"
  shows "if info_cost ts \<le> room e
    then \<exists>m' bi e'. multiboot2_parse_boot_info mb (m, e) = ret (m', bi, e') \<and>
      shows_view m' (unat (g_cursor e)) (unat (g_cursor e')) bi (view_tags ts) \<and>
      takes (info_cost ts) e e' \<and> only_heap e e' m m'
    else exhausted (multiboot2_parse_boot_info mb (m, e))"
proof -
  let ?v = "\<lparr>v_name = None, v_command_line = None, v_ram = [], v_reserved = [], v_modules = []\<rparr>"
  have lim: "limit = mb + rd32 m mb" "unat mb + 8 \<le> unat limit" "unat limit + 8 \<le> 4294967296"
    and ts: "tags_at m (mb + 8) limit ts" using info unfolding info_at_def by blast+
  have u: "unat (mb + 8) = unat mb + 8" using offset_no_wrap [of mb 8] lim by simp
  have ap': "apart (mb + 8) limit e" using ap u by (auto simp: apart_def)
  have lo: "0 < unat (g_cursor e)" using e(2) by (simp add: word_less_nat_alt)
  have v: "shows_view m (unat (g_cursor e)) (unat (g_cursor e)) empty_boot_info ?v"
    by (simp add: shows_view_def empty_boot_info_def)
  have p: "multiboot2_parse_boot_info mb (m, e) = parse_tags_loop (mb + 8) limit (m, empty_boot_info, e)"
    by (simp add: multiboot2_parse_boot_info_def lim(1))
  show ?thesis
  proof (cases "info_cost ts \<le> room e")
    case True
    show ?thesis
      using parse_tags_loop_correct [OF ts lim(3) ap' e(1) lo order_refl v True] True
      by (auto simp: p tags_done_def view_tags_def)
  next
    case False
    then have "exhausted (parse_tags_loop (mb + 8) limit (m, empty_boot_info, e))"
      using top u by (intro parse_tags_loop_exhausted [OF ts lim(3) ap' e(1) lo order_refl v]) simp_all
    then show ?thesis using False by (simp add: p)
  qed
qed

text \<open>
  C22. Parsing a well-formed information structure. When the early heap has room for the copies
  and nodes the tags ask for, the parser returns; the boot information then shows exactly what the
  tags say, in their order: the last boot loader name and command line, the regions of type 1 as RAM,
  those of type 2 as reserved, and the modules, each string a NUL-terminated copy on the heap. The
  heap cursor moves by exactly the sum of the sizes and no byte outside that space changes. When the
  heap has no room the parser panics; it never fails to return.
\<close>

theorem multiboot2_parse_correct:
  assumes info: "info_at m mb limit ts" and e: "emm_inv e" "0 < g_cursor e" and ap: "apart mb limit e"
    and top: "unat (g_end e) + (unat limit - unat mb) < 4294967296"
  shows "if info_cost ts \<le> room e
    then \<exists>m' bi e'. multiboot2_parse_boot_info mb (m, e) = ret (m', bi, e') \<and>
      shows_view m' (unat (g_cursor e)) (unat (g_cursor e')) bi (view_tags ts) \<and>
      takes (info_cost ts) e e' \<and> only_heap e e' m m'
    else exhausted (multiboot2_parse_boot_info mb (m, e))"
  by (rule multiboot2_parse_outcome [OF assms])

text \<open>A structure of a name, a memory map of three entries and an end tag, as a loader would write it.\<close>

definition demo_info_bytes :: "u8 list" where
  "demo_info_bytes =
     [120, 0, 0, 0,  0, 0, 0, 0,
      2, 0, 0, 0,  13, 0, 0, 0,  71, 82, 85, 66,  0, 255, 255, 255,
      6, 0, 0, 0,  88, 0, 0, 0,  24, 0, 0, 0,  0, 0, 0, 0,
      0, 16, 0, 0, 0, 0, 0, 0,  0, 236, 9, 0, 0, 0, 0, 0,  1, 0, 0, 0, 0, 0, 0, 0,
      0, 252, 9, 0, 0, 0, 0, 0,  0, 4, 0, 0, 0, 0, 0, 0,  2, 0, 0, 0, 0, 0, 0, 0,
      0, 0, 64, 0, 0, 0, 0, 0,  0, 0, 192, 7, 0, 0, 0, 0,  1, 0, 0, 0, 0, 0, 0, 0,
      0, 0, 0, 0,  8, 0, 0, 0]"

definition demo_info :: mem where
  "demo_info a = (if a - 0x9000 < 120 then demo_info_bytes ! unat (a - 0x9000) else 0)"

definition demo_tags :: "mb2_tag list" where
  "demo_tags = [Loader_Name [71, 82, 85, 66], Memory_Map 24
     [(\<lparr>base_address = 0x1000, region_length = 0x9EC00\<rparr>, 1),
      (\<lparr>base_address = 0x9FC00, region_length = 0x400\<rparr>, 2),
      (\<lparr>base_address = 0x400000, region_length = 0x7C00000\<rparr>, 1)]]"

lemma demo_info_at: "info_at demo_info 0x9000 0x9078 demo_tags"
  by (simp add: info_at_def demo_tags_def demo_info_def demo_info_bytes_def rd32_def rd64_def
      cstring_def read_bytes_def MULTIBOOT2_ALIGN_UP_def upt_rec)

lemma demo_info_view:
  "v_ram (view_tags demo_tags) = [\<lparr>base_address = 0x1000, region_length = 0x9EC00\<rparr>,
     \<lparr>base_address = 0x400000, region_length = 0x7C00000\<rparr>]"
  "info_cost demo_tags = 65"
  by code_simp+

definition demo_heap :: emm_state where
  "demo_heap = \<lparr>g_cursor = 0xC0200000, g_end = 0xC0280000\<rparr>"

text \<open>The structure of the example is parsed to two RAM regions and one reserved one.\<close>

theorem multiboot2_parse_correct_witness:
  "\<exists>m' bi e'. multiboot2_parse_boot_info 0x9000 (demo_info, demo_heap) = ret (m', bi, e') \<and>
     ram_regions bi = [\<lparr>base_address = 0x1000, region_length = 0x9EC00\<rparr>,
       \<lparr>base_address = 0x400000, region_length = 0x7C00000\<rparr>] \<and>
     length (reserved_regions bi) = 1 \<and> held m' 0xC0200000 (unat (g_cursor e')) (bi_name bi) [71, 82, 85, 66] \<and>
     g_cursor e' = 0xC0200041"
proof -
  have h: "emm_inv demo_heap" "0 < g_cursor demo_heap" "apart 0x9000 0x9078 demo_heap"
    "unat (g_end demo_heap) + (unat (0x9078 :: u32) - unat (0x9000 :: u32)) < 4294967296"
    "info_cost demo_tags \<le> room demo_heap"
    by (simp_all add: demo_heap_def emm_inv_def apart_def room_def demo_info_view)
  obtain m' bi e' where p: "multiboot2_parse_boot_info 0x9000 (demo_info, demo_heap) = ret (m', bi, e')"
    and v: "shows_view m' (unat (g_cursor demo_heap)) (unat (g_cursor e')) bi (view_tags demo_tags)"
    and t: "takes (info_cost demo_tags) demo_heap e'"
    using multiboot2_parse_correct [OF demo_info_at h(1-4)] h(5) by auto
  have "unat (g_cursor e') = unat (0xC0200041 :: u32)"
    using t by (simp add: takes_def demo_info_view demo_heap_def)
  then have c: "g_cursor e' = 0xC0200041" by (rule unsigned_word_eqI)
  have "v_name (view_tags demo_tags) = Some [71, 82, 85, 66]" "length (v_reserved (view_tags demo_tags)) = 1"
    by code_simp+
  then show ?thesis
    using p v c demo_info_view(1) by (auto simp: shows_view_def demo_heap_def)
qed

section \<open>Malformed structures\<close>

lemma parse_tags_loop_stuck:
  assumes "rd32 m a \<notin> {0, 1, 2, 3, 6}" and "MULTIBOOT2_ALIGN_UP (rd32 m (a + 4)) = 0" and "a < limit"
  shows "parse_tags_loop a limit (m, bi, e) = None"
proof (rule ccontr)
  assume "parse_tags_loop a limit (m, bi, e) \<noteq> None"
  then obtain r where "parse_tags_loop a limit (m, bi, e) = Some r" by blast
  then have "\<not> (a = a \<and> limit = limit \<and> (m, bi, e) = (m, bi, e))"
  proof (rule parse_tags_loop.raw_induct
      [where P = "\<lambda>a' l st _. \<not> (a' = a \<and> l = limit \<and> st = (m, bi, e))", rotated])
    fix f a' l st y
    assume IH: "\<And>a' l st y. f a' l st = Some y \<Longrightarrow> \<not> (a' = a \<and> l = limit \<and> st = (m, bi, e))"
      and step: "(if a' < l then if tag_type (load_tag (fst st) a') = MULTIBOOT2_TAG_TYPE_END then ret st
          else bindR (parse_tag a' st) (\<lambda>st. f (a' + MULTIBOOT2_ALIGN_UP (tag_size (load_tag (fst st) a'))) l st)
        else ret st) = Some y"
    show "\<not> (a' = a \<and> l = limit \<and> st = (m, bi, e))"
    proof
      assume "a' = a \<and> l = limit \<and> st = (m, bi, e)"
      then have "f a limit (m, bi, e) = Some y"
        using step assms by (simp add: parse_tag_type(5) mb2_types)
      from IH [OF this] show False by simp
    qed
  qed
  then show False by simp
qed

lemma memory_map_loop_zero:
  assumes "rd32 m (tag + 8) = 0" and "pos < limit"
  shows "emm_inv e \<Longrightarrow> unat (g_end e) + 20 < 4294967296 \<Longrightarrow> exhausted (memory_map_loop m tag pos limit (bi, e))"
proof (induction "room e" arbitrary: e bi rule: less_induct)
  case less
  show ?case
  proof (cases "20 \<le> room e")
    case True
    then obtain e1 where e1: "emm_alloc 20 e = ret (g_cursor e, e1)" "takes 20 e e1"
      using emm_alloc_takes [of 20 e] less.prems by auto
    have "room e1 < room e" "g_end e1 = g_end e"
      using takes_room [OF e1(2)] True e1(2) by (simp_all add: takes_def)
    then have "exhausted (memory_map_loop m tag pos limit (bi', e1))" for bi'
      using less takes_inv [OF e1(2) less.prems(1)] by simp
    then show ?thesis
      using assms e1(1) by (subst memory_map_loop.simps) (simp add: sizeof_boot_memory_region_t_def Let_def)
  next
    case False
    then have "emm_alloc 20 e = panic ''Early boot allocator exhausted while allocating %u bytes'' [20]"
      using less.prems by (intro emm_alloc_exhausted) simp_all
    then show ?thesis
      using assms by (subst memory_map_loop.simps) (auto simp: sizeof_boot_memory_region_t_def Let_def)
  qed
qed

text \<open>
  C36. The sizes in the structure are trusted. When its first tag has an unknown type and a size
  that rounds up to 0, which are the sizes 0 and those within seven bytes of \<open>2\<^sup>3\<^sup>2\<close>, the parser never
  returns. When it is a memory map with entry size 0 that is not empty, the parser fills the early
  heap with nodes and panics.
\<close>

theorem multiboot2_malformed_sizes:
  assumes "mb + 8 < mb + rd32 m mb" and "emm_inv e" and "unat (g_end e) + 20 < 4294967296"
  shows "(rd32 m (mb + 8) \<notin> {0, 1, 2, 3, 6} \<and> (rd32 m (mb + 12) = 0 \<or> 0xFFFFFFF9 \<le> rd32 m (mb + 12)) \<longrightarrow>
      multiboot2_parse_boot_info mb (m, e) = None) \<and>
    (rd32 m (mb + 8) = 6 \<and> rd32 m (mb + 16) = 0 \<and> mb + 24 < mb + 8 + rd32 m (mb + 12) \<longrightarrow>
      exhausted (multiboot2_parse_boot_info mb (m, e)))"
proof (intro conjI impI)
  assume *: "rd32 m (mb + 8) \<notin> {0, 1, 2, 3, 6} \<and> (rd32 m (mb + 12) = 0 \<or> 0xFFFFFFF9 \<le> rd32 m (mb + 12))"
  have "MULTIBOOT2_ALIGN_UP x = 0" if "x = 0 \<or> 0xFFFFFFF9 \<le> x" for x
  proof -
    have "unat (x + 7) < 8"
      using that unat_u32_lt [of x] unat_add_wrap [of x 7] by (auto simp: word_le_nat_alt)
    moreover have "MULTIBOOT2_ALIGN_UP x = (x + 7) AND NOT (mask 3)"
      by (simp add: MULTIBOOT2_ALIGN_UP_def mask_eq_exp_minus_1)
    ultimately have "unat (MULTIBOOT2_ALIGN_UP x) = 0" by (simp add: unat_and_not_mask)
    then show ?thesis by (simp add: unat_eq_0)
  qed
  with * assms(1) show "multiboot2_parse_boot_info mb (m, e) = None"
    by (simp add: multiboot2_parse_boot_info_def parse_tags_loop_stuck add.assoc)
next
  assume *: "rd32 m (mb + 8) = 6 \<and> rd32 m (mb + 16) = 0 \<and> mb + 24 < mb + 8 + rd32 m (mb + 12)"
  then have "exhausted (parse_memory_map (mb + 8) m (empty_boot_info, e))"
    using memory_map_loop_zero [of m "mb + 8" "mb + 24"] assms(2,3) by (simp add: parse_memory_map_def add.assoc)
  then have "exhausted (parse_tag (mb + 8) (m, empty_boot_info, e))"
    using * by (simp add: parse_tag_type bindR_exhausted)
  then show "exhausted (multiboot2_parse_boot_info mb (m, e))"
    using * assms(1) by (simp add: multiboot2_parse_boot_info_def mb2_types bindR_exhausted parse_tags_loop.simps)
qed

text \<open>A tag of type 8 and size 0 stops the boot.\<close>

theorem multiboot2_malformed_sizes_witness:
  "multiboot2_parse_boot_info 0x9000 ((\<lambda>_. 0)(0x9000 := 24, 0x9008 := 8), demo_heap) = None"
  using multiboot2_malformed_sizes [of "0x9000" "(\<lambda>_. 0)(0x9000 := 24, 0x9008 := 8)" demo_heap]
  by (simp add: rd32_def demo_heap_def emm_inv_def)

end
