(* ===== verification/KStdio_Print.thy ===== *)
theory KStdio_Print
  imports KStdio_Props
begin

text \<open>
  Consequences of \<open>KStdio_Props\<close> for code that prints again and again.
  \<open>S\<close> lists the strings in memory, literals included, clear of the buffer of \<open>kvprintf\<close>. Printing
  keeps them in place, so any number of calls may follow one another.
\<close>

definition bytes_of :: "string \<Rightarrow> u8 list" where
  "bytes_of f = map of_char f"

definition console_ok :: "(u32 \<Rightarrow> u8 list option) \<Rightarrow> u32 \<Rightarrow> console \<Rightarrow> bool" where
  "console_ok S stack_buf = (\<lambda>(m, s, tr).
     vga_inv s \<and> stack_buf \<noteq> NULL \<and> unat stack_buf + 256 \<le> 4294967296 \<and> reads_ok m stack_buf 256 S)"

text \<open>What a step of printing \<open>out\<close> does, when it is short enough for the buffer.\<close>

definition printed :: "u8 list \<Rightarrow> u32 \<Rightarrow> console \<Rightarrow> console \<Rightarrow> bool" where
  "printed out stack_buf = (\<lambda>(m, s, tr) (m', s', tr').
     g_current_color s' = g_current_color s \<and> (\<forall>x. \<not> in_range stack_buf 256 x \<longrightarrow> m' x = m x) \<and>
     (length out < 256 \<and> 0 \<notin> set out \<longrightarrow>
        vga_abs s' = fold (\<lambda>ch. scr_char ch (g_current_color s)) out (vga_abs s)))"

lemma reads_ok_same:
  "reads_ok m p n S \<Longrightarrow> (\<And>x. \<not> in_range p n x \<Longrightarrow> m' x = m x) \<Longrightarrow> reads_ok m' p n S"
  unfolding reads_ok_def using cstring_stable by metis

lemma kvprintf_ok:
  assumes ok: "console_ok S stack_buf (m, s, tr)" and "S fmt = Some fm"
    and "render S null_lit fm args = Some out"
  shows "\<exists>n m' s' tr'. kvprintf null_lit stack_buf fmt args m (s, tr) = ret (n, m', s', tr') \<and>
    console_ok S stack_buf (m', s', tr') \<and> printed out stack_buf (m, s, tr) (m', s', tr')"
proof -
  have c: "vga_inv s" "stack_buf \<noteq> NULL" "unat stack_buf + 256 \<le> 4294967296" "reads_ok m stack_buf 256 S"
    using ok by (simp_all add: console_ok_def)
  have r: "reads_ok m stack_buf 255 S" "reads_ok m stack_buf 255 [fmt \<mapsto> fm]"
    by (rule reads_ok_weaken [OF c(4)]; use assms(2) in \<open>simp split: if_splits\<close>)+
  obtain n m' s' tr' t where k: "kvprintf null_lit stack_buf fmt args m (s, tr) = ret (n, m', s', tr')"
    "length out < 256 \<longrightarrow> t = out" "vga_inv s'" "g_current_color s' = g_current_color s"
    "vga_abs s' = fold (\<lambda>ch. scr_char ch (g_current_color s)) (takeWhile (\<lambda>c. c \<noteq> 0) t) (vga_abs s)"
    "\<forall>x. \<not> in_range stack_buf 256 x \<longrightarrow> m' x = m x"
    using kvprintf_text [OF c(1-3) r assms(3), of tr] by blast
  have "takeWhile (\<lambda>c. c \<noteq> 0) t = out" if "length out < 256" "0 \<notin> set out"
    using k(2) that by (auto simp: takeWhile_eq_all_conv)
  then have "printed out stack_buf (m, s, tr) (m', s', tr')"
    using k(4-6) by (simp add: printed_def del: takeWhile_eq_all_conv)
  moreover have "console_ok S stack_buf (m', s', tr')"
    using c k(3,6) reads_ok_same [OF c(4), of m'] by (simp add: console_ok_def)
  ultimately show ?thesis using k(1) by blast
qed

lemma print_ok:
  assumes "console_ok S stack_buf c" and "S (lit f) = Some (bytes_of f)"
    and "render S (lit ''NULL'') (bytes_of f) args = Some out"
  shows "\<exists>c'. print lit stack_buf f args c = ret c' \<and> console_ok S stack_buf c' \<and> printed out stack_buf c c'"
proof -
  obtain m s tr where c: "c = (m, s, tr)" by (cases c)
  show ?thesis
    using kvprintf_ok [OF assms(1) [unfolded c] assms(2,3)] unfolding c print_def kprintf_def by auto
qed

lemma printed_append:
  assumes "printed xs stack_buf c c1" and "printed ys stack_buf c1 c2"
    and "length xs < 256" and "0 \<notin> set xs" and "length ys < 256" and "0 \<notin> set ys"
  shows "vga_abs (fst (snd c2)) =
    fold (\<lambda>ch. scr_char ch (g_current_color (fst (snd c)))) (xs @ ys) (vga_abs (fst (snd c)))"
  using assms by (cases c; cases c1; cases c2) (simp add: printed_def)

text \<open>
  A memory for examples: string \<open>k\<close> of a table starts at \<open>0x10000 + 256 * k\<close>, and all other bytes are
  zero. \<open>shelf_lit\<close> finds a literal in the table.
\<close>

definition shelf_addr :: "nat \<Rightarrow> u32" where
  "shelf_addr k = of_nat (65536 + 256 * k)"

definition shelf :: "u8 list list \<Rightarrow> mem" where
  "shelf tbl x = (let k = unat x div 256 - 256; j = unat x mod 256
     in if 65536 \<le> unat x \<and> k < length tbl \<and> j < length (tbl ! k) then tbl ! k ! j else 0)"

definition shelf_strings :: "u8 list list \<Rightarrow> u32 \<Rightarrow> u8 list option" where
  "shelf_strings tbl q = (let k = unat q div 256 - 256
     in if 65536 \<le> unat q \<and> unat q mod 256 = 0 \<and> k < length tbl then Some (tbl ! k) else None)"

fun index_of :: "'a \<Rightarrow> 'a list \<Rightarrow> nat" where
  "index_of x [] = 0"
| "index_of x (y # ys) = (if x = y then 0 else Suc (index_of x ys))"

definition shelf_lit :: "string list \<Rightarrow> string \<Rightarrow> u32" where
  "shelf_lit fs f = shelf_addr (index_of f fs)"

definition shelf_ok :: "u8 list list \<Rightarrow> bool" where
  "shelf_ok tbl \<longleftrightarrow> length tbl \<le> 65536 \<and> (\<forall>s \<in> set tbl. length s < 256 \<and> 0 \<notin> set s)"

lemma unat_shelf_addr: "k < 65536 \<Longrightarrow> j < 256 \<Longrightarrow> unat (shelf_addr k + of_nat j) = 65536 + 256 * k + j"
  unfolding shelf_addr_def of_nat_add [symmetric] by (rule unat_of_nat_u32) simp

lemma shelf_at:
  assumes "shelf_ok tbl" and "k < length tbl" and "j < 256"
  shows "shelf tbl (shelf_addr k + of_nat j) = (if j < length (tbl ! k) then tbl ! k ! j else 0)"
proof -
  have "65536 + 256 * k + j = j + (256 + k) * 256" by simp
  then have "(65536 + 256 * k + j) div 256 = 256 + k" "(65536 + 256 * k + j) mod 256 = j"
    using assms(3) by (simp_all only: mod_mult_self1 div_mult_self1) simp_all
  moreover have "unat (shelf_addr k + of_nat j) = 65536 + 256 * k + j"
    using assms by (intro unat_shelf_addr) (simp_all add: shelf_ok_def)
  ultimately show ?thesis using assms(2) by (simp add: shelf_def)
qed

lemma shelf_cstring:
  assumes "shelf_ok tbl" and "k < length tbl"
  shows "cstring (shelf tbl) (shelf_addr k) (tbl ! k)"
proof -
  have l: "length (tbl ! k) < 256" "0 \<notin> set (tbl ! k)" using assms by (auto simp: shelf_ok_def)
  then have "read_bytes (shelf tbl) (shelf_addr k) (length (tbl ! k)) = tbl ! k"
    using shelf_at [OF assms] by (intro nth_equalityI) simp_all
  then show ?thesis using l shelf_at [OF assms l(1)] by (simp add: cstring_def)
qed

lemma shelf_strings_SomeD:
  assumes "shelf_ok tbl" and "shelf_strings tbl q = Some s"
  obtains k where "k < length tbl" and "q = shelf_addr k" and "s = tbl ! k"
proof -
  let ?k = "unat q div 256 - 256"
  have *: "65536 \<le> unat q" "unat q mod 256 = 0" "?k < length tbl" "s = tbl ! ?k"
    using assms(2) by (auto simp: shelf_strings_def Let_def split: if_splits)
  have k: "?k < 65536" using *(3) assms(1) by (simp add: shelf_ok_def)
  have "256 \<le> unat q div 256" using div_le_mono [OF *(1), of 256] by simp
  then have "65536 + 256 * ?k = unat q" using *(2) by (simp add: algebra_simps flip: minus_mod_eq_mult_div)
  then have "unat q = unat (shelf_addr ?k)" using unat_shelf_addr [of ?k 0] k by simp
  then have "q = shelf_addr ?k" by (rule unsigned_word_eqI)
  then show thesis using that *(3,4) by blast
qed

lemma shelf_strings_addr:
  assumes "shelf_ok tbl" and "k < length tbl"
  shows "shelf_strings tbl (shelf_addr k) = Some (tbl ! k)"
  using assms unat_shelf_addr [of k 0] by (simp add: shelf_strings_def Let_def shelf_ok_def)

lemma index_of_less: "x \<in> set xs \<Longrightarrow> index_of x xs < length xs \<and> xs ! index_of x xs = x"
  by (induction xs) auto

lemma shelf_strings_lit:
  assumes "shelf_ok (map bytes_of fs @ rest)" and "f \<in> set fs"
  shows "shelf_strings (map bytes_of fs @ rest) (shelf_lit fs f) = Some (bytes_of f)"
  using shelf_strings_addr [OF assms(1), of "index_of f fs"] index_of_less [OF assms(2)]
  by (simp add: shelf_lit_def nth_append)

lemma shelf_reads_ok:
  assumes "shelf_ok tbl" and "\<And>x. 65536 \<le> unat x \<Longrightarrow> unat x < 16842752 \<Longrightarrow> m x = shelf tbl x"
    and "unat p + n \<le> 65536"
  shows "reads_ok m p n (shelf_strings tbl)"
  unfolding reads_ok_def
proof (intro allI impI)
  fix q s assume "shelf_strings tbl q = Some s"
  then obtain k where k: "k < length tbl" "q = shelf_addr k" "s = tbl ! k"
    by (rule shelf_strings_SomeD [OF assms(1)])
  have k': "k < 65536" using k(1) assms(1) by (simp add: shelf_ok_def)
  have l: "length s < 256" using k assms(1) by (simp add: shelf_ok_def)
  have u: "unat (q + of_nat j) = 65536 + 256 * k + j" if "j < 256" for j
    using unat_shelf_addr [OF k' that] k(2) by simp
  have uq: "unat q = 65536 + 256 * k" using u [of 0] by simp
  have "m (q + of_nat j) = shelf tbl (q + of_nat j)" if "j < 256" for j
    using assms(2) [of "q + of_nat j"] u [OF that] that k' by simp
  then have "cstring m q s"
    using shelf_cstring [OF assms(1) k(1)] k l read_bytes_cong [of "length s" m q "shelf tbl"]
    by (simp add: cstring_def)
  moreover have "disjoint_ranges p n q (Suc (length s))"
    using uq l k' assms(3) by (intro disjoint_rangesI) simp_all
  moreover have "q \<noteq> NULL" using uq by auto
  ultimately show "q \<noteq> NULL \<and> cstring m q s \<and> disjoint_ranges p n q (Suc (length s))" by blast
qed

end
