(* ===== verification/KPanic.thy ===== *)
theory KPanic
  imports KStdio_Print
begin

text \<open>
  \<^verbatim>\<open>kernel/src/lib/kpanic.c\<close>: the report of a panic. The function does not return: it ends in a
  loop of \<open>hlt\<close> with interrupts disabled, so its result is the console as it then stays.

  Elsewhere a panic is the result \<open>KPanic\<close> of the operation that calls it; this theory says what it
  shows.
\<close>

datatype halted = Halted console

definition kpanic ::
  "(string \<Rightarrow> u32) \<Rightarrow> u32 \<Rightarrow> u32 \<Rightarrow> u32 \<Rightarrow> u32 \<Rightarrow> u32 \<Rightarrow> u32 list \<Rightarrow> console \<Rightarrow> halted res" where
  "kpanic lit stack_buf format file line function args c =
     bindR (print lit stack_buf ''Panic occurred at \"%s:%u\" in \"%s\"!\<newline>'' [file, line, function] c)
       (\<lambda>(m, st).
     bindR (kvprintf (lit ''NULL'') stack_buf format args m st) (\<lambda>(_, c).
     bindR (print lit stack_buf ''\<newline>'' [] c) (\<lambda>c.
     ret (Halted c))))"

text \<open>The first line of the report.\<close>

definition panic_head :: "u8 list \<Rightarrow> u32 \<Rightarrow> u8 list \<Rightarrow> u8 list" where
  "panic_head file line function =
     bytes_of ''Panic occurred at \"'' @ file @ bytes_of '':'' @ dec (unat line) @ bytes_of ''\" in \"'' @
     function @ bytes_of ''\"!\<newline>''"

lemma render_panic_head:
  assumes "file \<noteq> NULL" and "function \<noteq> NULL" and "S file = Some fs" and "S function = Some gs"
  shows "render S null_lit (bytes_of ''Panic occurred at \"%s:%u\" in \"%s\"!\<newline>'') [file, line, function] =
    Some (panic_head fs line gs)"
  using assms by (simp add: panic_head_def bytes_of_def conv_def)

lemma dec_no_NUL: "0 \<notin> set (dec n)"
proof (induction n rule: dec.induct)
  case (1 n)
  have d: "of_nat (48 + k) \<noteq> (0 :: u8)" if "k < 10" for k
    using unat_digit [OF that] by (metis add_is_0 unat_0 zero_neq_numeral)
  show ?case
  proof (cases "n < 10")
    case True
    then show ?thesis using d [of n] by (subst dec.simps) auto
  next
    case False
    then show ?thesis using 1 d [of "n mod 10"] by (subst dec.simps) auto
  qed
qed

lemma panic_head_no_NUL: "0 \<notin> set fs \<Longrightarrow> 0 \<notin> set gs \<Longrightarrow> 0 \<notin> set (panic_head fs line gs)"
  by (simp add: panic_head_def bytes_of_def dec_no_NUL)

text \<open>
  C37. The report of a panic. \<open>kpanic\<close> gets to its final halt whatever it has to print. When the
  first line and the message have at most 255 bytes each, what the buffer of \<open>kvprintf\<close> holds, and the
  message has no NUL in it, the screen then shows the file, the line and the function, the message the
  format denotes, with NULL for a string that is missing, and a newline, in this order after what was
  there before.
\<close>

theorem kpanic_reports:
  assumes c: "console_ok S stack_buf c" and heads: "S (lit ''Panic occurred at \"%s:%u\" in \"%s\"!\<newline>'') =
      Some (bytes_of ''Panic occurred at \"%s:%u\" in \"%s\"!\<newline>'')" "S (lit ''\<newline>'') = Some (bytes_of ''\<newline>'')"
    and strs: "S file = Some fs" "S function = Some gs" "S format = Some fm"
    and out: "render S (lit ''NULL'') fm args = Some out"
  shows "\<exists>c'. kpanic lit stack_buf format file line function args c = ret (Halted c') \<and>
    (length (panic_head fs line gs) < 256 \<and> length out < 256 \<and> 0 \<notin> set out \<longrightarrow>
      vga_abs (fst (snd c')) = fold (\<lambda>ch. scr_char ch (g_current_color (fst (snd c))))
        (panic_head fs line gs @ out @ [10]) (vga_abs (fst (snd c))))"
proof -
  have q: "file \<noteq> NULL \<and> 0 \<notin> set fs" "function \<noteq> NULL \<and> 0 \<notin> set gs"
    using c strs(1,2) by (auto simp: console_ok_def reads_ok_def cstring_def)
  obtain c1 where c1: "print lit stack_buf ''Panic occurred at \"%s:%u\" in \"%s\"!\<newline>'' [file, line, function] c = ret c1"
    "console_ok S stack_buf c1" "printed (panic_head fs line gs) stack_buf c c1"
    using print_ok [where lit = lit, OF c heads(1) render_panic_head [of "file" "function" S fs gs]] q strs by blast
  obtain m1 s1 tr1 where c1': "c1 = (m1, s1, tr1)" by (cases c1)
  obtain n c2 where c2: "kvprintf (lit ''NULL'') stack_buf format args m1 (s1, tr1) = ret (n, c2)"
    "console_ok S stack_buf c2" "printed out stack_buf c1 c2"
    using kvprintf_ok [OF c1(2) [unfolded c1'] strs(3) out] c1' by auto
  have "render S (lit ''NULL'') (bytes_of ''\<newline>'') [] = Some [10]" by (simp add: bytes_of_def)
  from print_ok [where lit = lit, OF c2(2) heads(2) this] obtain c3
    where c3: "print lit stack_buf ''\<newline>'' [] c2 = ret c3" "printed [10] stack_buf c2 c3" by blast
  have "kpanic lit stack_buf format file line function args c = ret (Halted c3)"
    using c1(1) c2(1) c3(1) by (simp add: kpanic_def c1')
  moreover have "vga_abs (fst (snd c3)) = fold (\<lambda>ch. scr_char ch (g_current_color (fst (snd c))))
      (panic_head fs line gs @ out @ [10]) (vga_abs (fst (snd c)))"
    if "length (panic_head fs line gs) < 256" "length out < 256" "0 \<notin> set out"
    using that c1(3) c2(3) c3(2) panic_head_no_NUL q by (cases c; cases c2; cases c3) (simp add: printed_def c1')
  ultimately show ?thesis by blast
qed

definition demo_panic_lits :: "string list" where
  "demo_panic_lits = [''Panic occurred at \"%s:%u\" in \"%s\"!\<newline>'', ''\<newline>'', ''NULL'']"

definition demo_panic_table :: "u8 list list" where
  "demo_panic_table = map bytes_of demo_panic_lits @ [bytes_of ''emm.c'', bytes_of ''emm_alloc'', bytes_of ''%u bytes'']"

text \<open>The early allocator's panic, for 24 bytes at line 19.\<close>

theorem kpanic_reports_witness:
  "\<exists>c'. kpanic (shelf_lit demo_panic_lits) 0x1000 (shelf_addr 5) (shelf_addr 3) 19 (shelf_addr 4) [24]
      (shelf demo_panic_table, demo_vga, []) = ret (Halted c') \<and>
    vga_abs (fst (snd c')) = fold (\<lambda>ch. scr_char ch 7)
      (panic_head (bytes_of ''emm.c'') 19 (bytes_of ''emm_alloc'') @ bytes_of ''24 bytes'' @ [10]) (vga_abs demo_vga)"
proof -
  let ?S = "shelf_strings demo_panic_table"
  have t: "shelf_ok demo_panic_table"
    by (simp add: shelf_ok_def demo_panic_table_def demo_panic_lits_def bytes_of_def)
  have c: "console_ok ?S 0x1000 (shelf demo_panic_table, demo_vga, [])"
    using shelf_reads_ok [OF t, of "shelf demo_panic_table" "0x1000" 256] demo_vga_inv by (simp add: console_ok_def)
  have l: "?S (shelf_lit demo_panic_lits f) = Some (bytes_of f)" if "f \<in> set demo_panic_lits" for f
    using shelf_strings_lit [OF t [unfolded demo_panic_table_def] that] by (simp add: demo_panic_table_def)
  have s: "?S (shelf_addr k) = Some (demo_panic_table ! k)" if "k < 6" for k
    using shelf_strings_addr [OF t] that by (simp add: demo_panic_table_def demo_panic_lits_def)
  have n: "demo_panic_table ! 3 = bytes_of ''emm.c''" "demo_panic_table ! 4 = bytes_of ''emm_alloc''"
    "demo_panic_table ! 5 = bytes_of ''%u bytes''"
    by (simp_all add: demo_panic_table_def demo_panic_lits_def)
  have d: "dec (unat (24 :: u32)) = bytes_of ''24''" "dec (unat (19 :: u32)) = bytes_of ''19''"
    by (simp_all add: dec.simps bytes_of_def)
  then have r: "render ?S nl (demo_panic_table ! 5) [24] = Some (bytes_of ''24 bytes'')" for nl
    unfolding n by (simp add: bytes_of_def conv_def)
  show ?thesis
    using kpanic_reports [where lit = "shelf_lit demo_panic_lits", OF c l l s [of 3] s [of 4] s [of 5] r, of 19] d n
    by (simp add: demo_panic_lits_def panic_head_def bytes_of_def demo_vga_def)
qed

end
