(* ===== verification/PMM_First.thy ===== *)
theory PMM_First
  imports VMM_Correct
begin

text \<open>
  The first frames the physical memory manager hands out. \<open>pmm_alloc_order\<close> searches the regions in
  the order in which \<open>pmm_init\<close> added them, so as long as the first region has a free page, that is
  where single frames come from. The start of the kernel depends on it: a page table has to lie
  in the memory that the kernel's window shows.
\<close>

section \<open>The list of regions\<close>

lemma pmm_add_region_appends:
  "pmm_add_region a n s = ret s' \<Longrightarrow> \<exists>rs. g_regions s' = g_regions s @ rs"
  by (auto simp: pmm_add_region_def Let_def bindR_eq_ret_iff split: if_splits)

lemma pmm_init_loop_appends:
  "pmm_init_loop qs s = ret s' \<Longrightarrow> \<exists>rs. g_regions s' = g_regions s @ rs"
proof (induction qs arbitrary: s)
  case (Cons q qs)
  then obtain s1 where "pmm_add_region (ucast (base_address q)) (ucast (region_length q)) s = ret s1"
    "pmm_init_loop qs s1 = ret s'" by (auto simp: bindR_eq_ret_iff)
  then show ?case using Cons.IH [of s1] pmm_add_region_appends [of _ _ s s1] by fastforce
qed simp

lemma pmm_init_first_region:
  assumes "g_regions s = []" and bi: "ram_regions bi = q # qs" and ok: "ram_list_ok (q # qs)"
    and heap: "heap_space (ram_metadata (q # qs)) s" and ne: "ram_pages q \<noteq> {}"
    and run: "pmm_init bi s = ret s'"
  obtains r rs where "g_regions s' = r # rs" and "unat (r_start r) = ram_first q" and "unat (r_end r) = ram_last q"
proof -
  have inv: "pmm_inv s" using assms(1) by (simp add: pmm_inv_def)
  have S: "ram_ok q" using ok by simp
  obtain r s1 where r: "pmm_add_region (ucast (base_address q)) (ucast (region_length q)) s = ret s1"
    "g_regions s1 = g_regions s @ [r]" "unat (r_start r) = ram_first q" "unat (r_end r) = ram_last q"
    by (rule pmm_add_region_ok [OF inv ram_seen(1) [OF S]])
      (use assms in \<open>auto simp: ram_seen [OF S] ram_pages_def heap_space_def ram_metadata_def\<close>)
  have "pmm_init_loop qs s1 = ret s'" using run r(1) by (simp add: pmm_init_def bi)
  then show thesis using pmm_init_loop_appends [of qs s1 s'] r assms(1) that by auto
qed

section \<open>Frames from the first region\<close>

lemma alloc_from_first:
  assumes inv: "pmm_inv s" and rs: "g_regions s = r # rs" and free: "tiling_of r h = Some (j, True)"
  obtains a s' r' where "pmm_alloc_pages 1 s = ret (a, s')" and "g_regions s' = r' # rs" and "same_frame r r'"
    and "region_ok r'" and "region_live r' = insert (a, 0) (region_live r)"
proof -
  have ok: "region_ok r" using pmm_inv_region [OF inv] rs by simp
  have sc: "scan_order r 0 \<le> MAX_ORDER" using scan_order_iff [OF region_okD(1) [OF ok], of 0] free by auto
  then have fnd: "find_region_for_order (g_regions s) 0 = Some 0"
    by (simp add: find_region_for_order_def rs)
  obtain t r1 r3 r4 where t: "free_lists r ! scan_order r 0 = Some t"
    "remove_from_region_freelist (Some t) (Some r) (scan_order r 0) = ret (True, Some r1)"
    "split_loop 0 (scan_order r 0) t (upd_block t (\<lambda>b. b\<lparr>b_is_free := False\<rparr>) r1) = ret r3"
    "r4 = upd_block t (\<lambda>b. b\<lparr>b_next := None\<rparr>) r3" "b_address (block_pool r4 ! t) = page_addr r t"
    "same_frame r r4" "region_ok r4" "region_live r4 = insert (page_addr r t, 0) (region_live r)"
    by (rule region_alloc [OF ok refl sc])
  have nth: "g_regions s ! 0 = r" by (simp add: rs)
  have "pmm_alloc_pages 1 s = ret (page_addr r t, s\<lparr>g_regions := r4 # rs\<rparr>)"
    unfolding pmm_alloc_one_page using sc t(1-4) nth by (simp add: pmm_alloc_order_def Let_def fnd) (use rs t(4,5) in simp)
  then show thesis using that t(6-8) by simp
qed

lemma free_page_left:
  assumes ok: "region_ok r" and lv: "region_live r \<subseteq> {(a, 0)}" and n: "2 \<le> length (block_pool r)"
  obtains h j where "tiling_of r h = Some (j, True)"
proof -
  note T = region_okD(4) [OF ok]
  have "\<exists>h j. tiling_of r h = Some (j, True)"
  proof (rule ccontr)
    assume none: "\<nexists>h j. tiling_of r h = Some (j, True)"
    have single: "tiling_of r i = Some (0, False) \<and> page_addr r i = a" if i: "i < 2" for i
    proof -
      obtain h k f where h: "tiling_of r h = Some (k, f)" "h \<le> i" "i < h + 2 ^ k"
        by (rule tiling_cover [OF T, of i]) (use i n in auto)
      have f: "\<not> f" using none h(1) by auto
      then have "(page_addr r h, k) \<in> region_live r"
        using h(1) by (auto simp: region_live_def allocated_def intro!: image_eqI [of _ _ "(h, k)"])
      then have "page_addr r h = a" "k = 0" using lv by auto
      moreover have "h = i" using h(2,3) calculation(2) by simp
      ultimately show ?thesis using h(1) f by simp
    qed
    have "unat (page_addr r i) = unat (r_start r) + i * 4096" if "i < 2" for i
      using geom_page_addr [OF region_okD(3) [OF ok], of i] that n by simp
    from this [of 0] this [of 1] single [of 0] single [of 1] show False by simp
  qed
  then show thesis using that by blast
qed

lemma first_two_frames:
  assumes inv: "pmm_inv s" and rs: "g_regions s = r # rs" and fresh: "live s = {}"
    and n: "unat (r_start r) + 8192 \<le> unat (r_end r)"
  obtains a s1 b s2 where "pmm_alloc_pages 1 s = ret (a, s1)" and "pmm_alloc_pages 1 s1 = ret (b, s2)"
    and "unat (r_start r) \<le> unat a" "unat a < unat (r_end r)"
    and "unat (r_start r) \<le> unat b" "unat b < unat (r_end r)"
proof -
  have ok: "region_ok r" using pmm_inv_region [OF inv] rs by simp
  have lv: "region_live r = {}" using fresh rs by (simp add: live_def)
  have len: "2 \<le> length (block_pool r)" using n region_okD(3) [OF ok] by (auto simp: region_geom_def)
  obtain h j where h: "tiling_of r h = Some (j, True)" by (rule free_page_left [OF ok _ len, of 0]) (simp add: lv)
  obtain a s1 r1 where 1: "pmm_alloc_pages 1 s = ret (a, s1)" "g_regions s1 = r1 # rs" "same_frame r r1"
    "region_ok r1" "region_live r1 = {(a, 0)}"
    using alloc_from_first [OF inv rs h] lv by metis
  have inv1: "pmm_inv s1" by (rule alloc_one_cases(1) [OF inv 1(1)])
  have fr: "r_start r1 = r_start r" "r_end r1 = r_end r" "length (block_pool r1) = length (block_pool r)"
    using 1(3) by (simp_all add: same_frame_def)
  obtain h1 j1 where h1: "tiling_of r1 h1 = Some (j1, True)"
    by (rule free_page_left [OF 1(4), of a]) (use 1(5) len fr in auto)
  obtain b s2 r2 where 2: "pmm_alloc_pages 1 s1 = ret (b, s2)" "same_frame r1 r2" "region_ok r2"
    "region_live r2 = {(b, 0), (a, 0)}"
    using alloc_from_first [OF inv1 1(2) h1] 1(5) by metis
  have fr2: "r_start r2 = r_start r" "r_end r2 = r_end r" using 2(2) fr by (simp_all add: same_frame_def)
  note B1 = region_live_bounds(1,2) [OF 1(4), of a 0] and B2 = region_live_bounds(1,2) [OF 2(3), of b 0]
  show thesis by (rule that [OF 1(1) 2(1)]) (use B1 B2 1(5) 2(4) fr fr2 in auto)
qed

end
