(* ===== verification/KAssert.thy ===== *)
theory KAssert
  imports Prelude
begin

text \<open>
  \<^verbatim>\<open>kernel/include/lib/kassert.h\<close>: the assertion macros of a build without \<open>NDEBUG\<close>. The
  expression is passed with its spelling, which the preprocessor puts into the message.
\<close>

definition KASSERT :: "string \<Rightarrow> bool \<Rightarrow> unit res" where
  "KASSERT spelled expression = (if \<not> expression then panic (''Assertion failed: '' @ spelled) [] else ret ())"

definition KASSERT_M :: "string \<Rightarrow> bool \<Rightarrow> u32 \<Rightarrow> unit res" where
  "KASSERT_M spelled expression message =
     (if \<not> expression then panic (''Assertion failed: '' @ spelled @ '' (%s)'') [message] else ret ())"

lemma KASSERT_simps [simp]:
  "KASSERT spelled True = ret ()" "KASSERT spelled False = panic (''Assertion failed: '' @ spelled) []"
  by (simp_all add: KASSERT_def)

end
