(* ===== verification/Kernel_Boot.thy ===== *)
theory Kernel_Boot
  imports Multiboot2_Props KStdio_Print PMM_First Serial KAssert
begin

text \<open>
  \<^verbatim>\<open>kernel/src/kernel/main.c\<close>, the start of \<open>kernel_main\<close>: the drivers are initialised, the
  boot information is parsed and printed, and the physical memory manager takes over the RAM.

  The early heap is one object of the program. Here the serial driver, the parser and the memory
  manager hand it on to one another.
\<close>

record 'h kernel_state =
  k_serial :: serial_state
  k_mem :: mem
  k_vga :: vga_state
  k_io :: io
  k_pmm :: pmm_state
  k_idt :: "'h idt_state"

definition kernel_boot ::
  "device \<Rightarrow> (string \<Rightarrow> u32) \<Rightarrow> u32 \<Rightarrow> 'h \<Rightarrow> u32 \<Rightarrow> 'h kernel_state \<Rightarrow> (boot_info_t \<times> 'h kernel_state) res" where
  "kernel_boot dev lit stack_buf h mb2_info s =
     bindR (serial_init dev (k_serial s, k_io s)) (\<lambda>(ser, tr).
       let (v, tr) = vga_init (k_vga s, tr)
       in bindR (multiboot2_parse_boot_info mb2_info (k_mem s, serial_emm ser)) (\<lambda>(m, boot_info, e).
          bindR (multiboot2_print_boot_info lit stack_buf boot_info (m, v, tr)) (\<lambda>(m, v, tr).
          bindR (pmm_init boot_info ((k_pmm s)\<lparr>emm := e\<rparr>)) (\<lambda>pm.
          bindR (vmm_init h (k_idt s)) (\<lambda>t.
            ret (boot_info, s\<lparr>k_serial := ser\<lparr>serial_emm := emm pm\<rparr>, k_mem := m, k_vga := v, k_io := tr,
                   k_pmm := pm, k_idt := t\<rparr>))))))"

text \<open>
  The macro \<open>SERIAL_PRINT\<close>, with which \<open>kernel_main\<close> then greets on the first port: a port that
  was not configured fails the assertion. \<open>spelled\<close> is the text argument as the source spells it; it
  becomes part of the message.
\<close>

definition SERIAL_PRINT ::
  "device \<Rightarrow> u16 \<Rightarrow> string \<Rightarrow> u32 \<Rightarrow> mem \<Rightarrow> serial_state \<times> io \<Rightarrow> (serial_state \<times> io) res" where
  "SERIAL_PRINT dev port spelled str m = (\<lambda>(s, tr).
     bindR (serial_get_port port s) (\<lambda>(serial_port, s).
     bindR (serial_write_string dev (map_option (\<lambda>i. g_serial_ports s ! i) serial_port) str m tr) (\<lambda>(ok, tr).
     bindR (KASSERT (''serial_write_string(serial_port, '' @ spelled @ '')'') ok) (\<lambda>_.
       ret (s, tr)))))"

section \<open>Serial ports\<close>

lemma upsert_serial_takes:
  assumes "emm_inv (serial_emm s)" and "12 \<le> room (serial_emm s)"
  shows "\<exists>r s' j. upsert_serial_config port baud s = ret (r, s') \<and> j \<le> 12 \<and> takes j (serial_emm s) (serial_emm s')"
proof -
  obtain e where e: "emm_alloc 12 (serial_emm s) = ret (g_cursor (serial_emm s), e)" "takes 12 (serial_emm s) e"
    using emm_alloc_takes [of 12 "serial_emm s"] assms by auto
  show ?thesis
  proof (cases "get_serial_slot (g_serial_ports s) port = length (g_serial_ports s)")
    case True
    then show ?thesis using e
      by (cases "g_cursor (serial_emm s) = NULL")
        (auto simp: upsert_serial_config_def sizeof_serial_port_t_def Let_def intro!: exI [of _ 12])
  next
    case False
    then show ?thesis by (auto simp: upsert_serial_config_def Let_def intro!: exI [of _ 0])
  qed
qed

lemma serial_init_port_takes:
  assumes "emm_inv (serial_emm s)" and "12 \<le> room (serial_emm s)" and "baud \<noteq> 0"
  shows "\<exists>r s' tr' j. serial_init_port dev port baud d q b (s, tr) = ret (r, s', tr') \<and> j \<le> 12 \<and>
    takes j (serial_emm s) (serial_emm s')"
proof -
  obtain r s' j where u: "upsert_serial_config port baud s = ret (r, s')" "j \<le> 12" "takes j (serial_emm s) (serial_emm s')"
    using upsert_serial_takes [OF assms(1,2)] by blast
  have "\<exists>r' s'' tr'. serial_init_port dev port baud d q b (s, tr) = ret (r', s'', tr') \<and> (s'' = s \<or> s'' = s')"
    using assms(3) u(1) by (auto simp: serial_init_port_def Let_def split: prod.splits)
  then show ?thesis using u(2,3) by (metis takes_0 zero_le)
qed

lemma serial_init_takes:
  assumes "emm_inv (serial_emm s)" and "24 \<le> room (serial_emm s)"
  shows "\<exists>s' tr' j. serial_init dev (s, tr) = ret (s', tr') \<and> j \<le> 24 \<and> takes j (serial_emm s) (serial_emm s')"
proof -
  have r: "12 \<le> room (serial_emm s)" using assms(2) by simp
  obtain r1 s1 tr1 j1 where 1: "serial_init_port dev SERIAL_PORT_COM1 115200 SERIAL_DATA_BITS_8 SERIAL_PARITY_NONE
      SERIAL_STOP_BITS_1 (s, tr) = ret (r1, s1, tr1)" "j1 \<le> 12" "takes j1 (serial_emm s) (serial_emm s1)"
    using serial_init_port_takes [OF assms(1) r, of 115200 dev SERIAL_PORT_COM1 SERIAL_DATA_BITS_8
        SERIAL_PARITY_NONE SERIAL_STOP_BITS_1 tr] by auto
  have r': "12 \<le> room (serial_emm s1)" using takes_room [OF 1(3)] 1(2) assms(2) by simp
  obtain r2 s2 tr2 j2 where 2: "serial_init_port dev SERIAL_PORT_COM2 115200 SERIAL_DATA_BITS_8 SERIAL_PARITY_NONE
      SERIAL_STOP_BITS_1 (s1, tr1) = ret (r2, s2, tr2)" "j2 \<le> 12" "takes j2 (serial_emm s1) (serial_emm s2)"
    using serial_init_port_takes [OF takes_inv [OF 1(3) assms(1)] r', of 115200 dev SERIAL_PORT_COM2
        SERIAL_DATA_BITS_8 SERIAL_PARITY_NONE SERIAL_STOP_BITS_1 tr1] by auto
  show ?thesis
    using 1 2 takes_add [OF 1(3) 2(3)] by (intro exI [of _ s2] exI [of _ tr2] exI [of _ "j1 + j2"]) (simp add: serial_init_def)
qed

text \<open>A port that passed its self-test is known afterwards, and the second port does not displace it.\<close>

lemma upsert_keeps:
  assumes inv: "serial_inv s" and run: "upsert_serial_config port baud s = ret (r, s')"
  shows "serial_inv s' \<and> (\<forall>q. q \<noteq> port \<longrightarrow> baud_of s' q = baud_of s q)"
proof (cases r)
  case (Some i)
  then show ?thesis using upsert_ok [OF inv, of port baud i s'] run by simp
next
  case None
  then have "g_serial_ports s' = g_serial_ports s" "g_cached_lookup_result s' = g_cached_lookup_result s"
    using run by (auto simp: upsert_serial_config_def Let_def bindR_eq_ret_iff split: if_splits)
  then show ?thesis using inv by (simp add: serial_inv_def baud_of_def)
qed

lemma serial_init_port_keeps:
  assumes inv: "serial_inv s" and run: "serial_init_port dev port baud d q b (s, tr) = ret (r, s', tr')"
  shows "serial_inv s' \<and> (\<forall>x. x \<noteq> port \<longrightarrow> baud_of s' x = baud_of s x)"
proof -
  have "s' = s \<or> (\<exists>r. upsert_serial_config port baud s = ret (r, s'))"
    using run by (auto simp: serial_init_port_def Let_def bindR_eq_ret_iff split: if_splits prod.splits)
  then show ?thesis using upsert_keeps [OF inv] inv by blast
qed

definition com1_works :: "device \<Rightarrow> serial_state \<Rightarrow> io \<Rightarrow> bool" where
  "com1_works dev s tr \<longleftrightarrow> (\<exists>i s' tr'. serial_init_port dev SERIAL_PORT_COM1 115200 SERIAL_DATA_BITS_8
     SERIAL_PARITY_NONE SERIAL_STOP_BITS_1 (s, tr) = ret (Some i, s', tr'))"

lemma serial_init_known:
  assumes inv: "serial_inv s" and works: "com1_works dev s tr" and run: "serial_init dev (s, tr) = ret (s', tr')"
  shows "serial_inv s'" and "baud_of s' SERIAL_PORT_COM1 = Some 115200"
proof -
  obtain i s1 tr1 where 1: "serial_init_port dev SERIAL_PORT_COM1 115200 SERIAL_DATA_BITS_8 SERIAL_PARITY_NONE
      SERIAL_STOP_BITS_1 (s, tr) = ret (Some i, s1, tr1)"
    using works by (auto simp: com1_works_def)
  obtain r where 2: "serial_init_port dev SERIAL_PORT_COM2 115200 SERIAL_DATA_BITS_8 SERIAL_PARITY_NONE
      SERIAL_STOP_BITS_1 (s1, tr1) = ret (r, s', tr')"
    using run 1 by (auto simp: serial_init_def bindR_eq_ret_iff)
  have "upsert_serial_config SERIAL_PORT_COM1 115200 s = ret (Some i, s1)"
    by (rule serial_init_port_success [OF 1])
  then have "serial_inv s1" "baud_of s1 SERIAL_PORT_COM1 = Some 115200" using upsert_ok [OF inv] by auto
  moreover have "SERIAL_PORT_COM1 \<noteq> SERIAL_PORT_COM2" by (simp add: SERIAL_PORT_COM1_def SERIAL_PORT_COM2_def)
  ultimately show "serial_inv s'" "baud_of s' SERIAL_PORT_COM1 = Some 115200"
    using serial_init_port_keeps [OF _ 2] by auto
qed

section \<open>Printing\<close>

text \<open>The literals that \<open>kernel_main\<close> and the functions it calls print.\<close>

definition boot_literals :: "string list" where
  "boot_literals =
     [''NULL'', ''Booted using the \"%s\" boot loader\<newline>'', ''The command line is \"%s\"\<newline>'',
      ''RAM has a size of %u MB with %u regions\<newline>'', '' - RAM Region: %p - %p (%u KB)\<newline>'',
      ''There are %u KB of reserved memory in %u regions\<newline>'', '' - Reserved Region: %p - %p (%u KB)\<newline>'',
      ''There are %u modules loaded\<newline>'', '' - Module: %p - %p (%u KB)\<newline>'', ''   Command line: %s\<newline>'',
      ''Serial port COM1 initialized successfully!\<newline>'',
      ''Page fault test passed!\<newline>The value at %p is now: %u\<newline>'']"

text \<open>A string argument: NULL, or the address of a known string.\<close>

definition str_arg :: "(u32 \<Rightarrow> u8 list option) \<Rightarrow> u32 \<Rightarrow> bool" where
  "str_arg S p \<longleftrightarrow> p = NULL \<or> S p \<noteq> None"

definition lits_known :: "(u32 \<Rightarrow> u8 list option) \<Rightarrow> (string \<Rightarrow> u32) \<Rightarrow> bool" where
  "lits_known S lit \<longleftrightarrow> (\<forall>f \<in> set boot_literals. S (lit f) = Some (bytes_of f))"

lemma null_known: "lits_known S lit \<Longrightarrow> S (lit ''NULL'') \<noteq> None"
  by (simp add: lits_known_def boot_literals_def)

lemma lit_renders:
  assumes "lits_known S lit"
  shows "str_arg S p \<Longrightarrow> render S (lit ''NULL'') (bytes_of ''Booted using the \"%s\" boot loader\<newline>'') [p] \<noteq> None"
    and "str_arg S p \<Longrightarrow> render S (lit ''NULL'') (bytes_of ''The command line is \"%s\"\<newline>'') [p] \<noteq> None"
    and "render S (lit ''NULL'') (bytes_of ''RAM has a size of %u MB with %u regions\<newline>'') [a, b] \<noteq> None"
    and "render S (lit ''NULL'') (bytes_of '' - RAM Region: %p - %p (%u KB)\<newline>'') [a, b, c] \<noteq> None"
    and "render S (lit ''NULL'') (bytes_of ''There are %u KB of reserved memory in %u regions\<newline>'') [a, b] \<noteq> None"
    and "render S (lit ''NULL'') (bytes_of '' - Reserved Region: %p - %p (%u KB)\<newline>'') [a, b, c] \<noteq> None"
    and "render S (lit ''NULL'') (bytes_of ''There are %u modules loaded\<newline>'') [a] \<noteq> None"
    and "render S (lit ''NULL'') (bytes_of '' - Module: %p - %p (%u KB)\<newline>'') [a, b, c] \<noteq> None"
    and "str_arg S p \<Longrightarrow> render S (lit ''NULL'') (bytes_of ''   Command line: %s\<newline>'') [p] \<noteq> None"
  using null_known [OF assms] by (auto simp: bytes_of_def conv_def str_arg_def split: option.splits)

text \<open>A step of printing that returns, with the console still in order.\<close>

definition prints :: "(u32 \<Rightarrow> u8 list option) \<Rightarrow> u32 \<Rightarrow> console res \<Rightarrow> bool" where
  "prints S stack_buf r \<longleftrightarrow> (\<exists>c. r = ret c \<and> console_ok S stack_buf c)"

lemma prints_ret: "console_ok S stack_buf c \<Longrightarrow> prints S stack_buf (ret c)"
  by (simp add: prints_def)

lemma prints_bind:
  "prints S stack_buf a \<Longrightarrow> (\<And>c. console_ok S stack_buf c \<Longrightarrow> prints S stack_buf (g c)) \<Longrightarrow>
   prints S stack_buf (bindR a g)"
  by (auto simp: prints_def)

lemma prints_literal:
  assumes "lits_known S lit" and "console_ok S stack_buf c" and "f \<in> set boot_literals"
    and "render S (lit ''NULL'') (bytes_of f) args \<noteq> None"
  shows "prints S stack_buf (print lit stack_buf f args c)"
proof -
  obtain out where out: "render S (lit ''NULL'') (bytes_of f) args = Some out" using assms(4) by blast
  have "S (lit f) = Some (bytes_of f)" using assms(1,3) by (simp add: lits_known_def)
  from print_ok [where lit = lit, OF assms(2) this out] show ?thesis unfolding prints_def by blast
qed

lemma prints_regions:
  assumes l: "lits_known S lit"
    and f: "f = '' - RAM Region: %p - %p (%u KB)\<newline>'' \<or> f = '' - Reserved Region: %p - %p (%u KB)\<newline>''"
  shows "console_ok S stack_buf c \<Longrightarrow> prints S stack_buf (print_regions lit stack_buf f rs c)"
proof (induction rs arbitrary: c)
  case (Cons r rs)
  have "f \<in> set boot_literals" using f by (auto simp: boot_literals_def)
  moreover have "render S (lit ''NULL'') (bytes_of f) [x, y, z] \<noteq> None" for x y z
    using f lit_renders(4,6) [OF l] by auto
  ultimately show ?case
    unfolding print_regions.simps Let_def using Cons by (intro prints_bind prints_literal l) blast+
qed (simp add: prints_ret)

lemma prints_modules:
  assumes l: "lits_known S lit"
  shows "console_ok S stack_buf c \<Longrightarrow> (\<And>md. md \<in> set mds \<Longrightarrow> str_arg S (mod_command_line md)) \<Longrightarrow>
    prints S stack_buf (print_modules lit stack_buf mds c)"
proof (induction mds arbitrary: c)
  case (Cons md mds)
  show ?case
    unfolding print_modules.simps Let_def
  proof (intro prints_bind prints_literal l)
    show "render S (lit ''NULL'') (bytes_of ''   Command line: %s\<newline>'') [mod_command_line md] \<noteq> None"
      using Cons.prems(2) [of md] by (intro lit_renders(9) [OF l]) simp
    show "prints S stack_buf (print_modules lit stack_buf mds c')" if "console_ok S stack_buf c'" for c'
      using Cons.IH [OF that] Cons.prems(2) by simp
    show "render S (lit ''NULL'') (bytes_of '' - Module: %p - %p (%u KB)\<newline>'')
        [mod_start md, mod_end md, (mod_end md - mod_start md) div 1024] \<noteq> None"
      by (rule lit_renders(8) [OF l])
  qed (use Cons.prems(1) in \<open>simp_all add: boot_literals_def\<close>)
qed (simp add: prints_ret)

lemma prints_boot_info:
  assumes l: "lits_known S lit" and c: "console_ok S stack_buf c"
    and n: "str_arg S (bi_name bi)" "str_arg S (bi_command_line bi)"
    and md: "\<And>md. md \<in> set (modules bi) \<Longrightarrow> str_arg S (mod_command_line md)"
  shows "prints S stack_buf (multiboot2_print_boot_info lit stack_buf bi c)"
  unfolding multiboot2_print_boot_info_def
  by (intro prints_bind prints_literal prints_regions prints_modules l c md
      lit_renders(1) [OF l n(1)] lit_renders(2) [OF l n(2)] lit_renders(3,5,7) [OF l])
    (simp_all add: boot_literals_def)

section \<open>Strings in memory\<close>

text \<open>All strings that stand clear of the \<open>n\<close> bytes at \<open>p\<close>.\<close>

definition known_strings :: "mem \<Rightarrow> u32 \<Rightarrow> nat \<Rightarrow> u32 \<Rightarrow> u8 list option" where
  "known_strings m p n q =
     (if \<exists>s. q \<noteq> NULL \<and> cstring m q s \<and> disjoint_ranges p n q (Suc (length s))
      then Some (SOME s. q \<noteq> NULL \<and> cstring m q s \<and> disjoint_ranges p n q (Suc (length s))) else None)"

lemma cstring_unique:
  assumes "cstring m q s" and "cstring m q t"
  shows "s = t"
proof -
  have "(of_nat (length s) :: u32) = of_nat (length t)"
    using kstrlen_correct [OF assms(1)] kstrlen_correct [OF assms(2)] by simp
  then have l: "length s = length t"
    using cstring_length_word [OF assms(1)] cstring_length_word [OF assms(2)] by metis
  have "s = read_bytes m q (length s)" "t = read_bytes m q (length t)" using assms by (simp_all add: cstring_def)
  then show ?thesis unfolding l by metis
qed

lemma known_reads_ok: "reads_ok m p n (known_strings m p n)"
  unfolding reads_ok_def
proof (intro allI impI)
  fix q s
  let ?P = "\<lambda>s. q \<noteq> NULL \<and> cstring m q s \<and> disjoint_ranges p n q (Suc (length s))"
  assume "known_strings m p n q = Some s"
  then have "\<exists>s. ?P s" and "s = (SOME s. ?P s)" unfolding known_strings_def by (auto split: if_splits)
  then show "?P s" using someI_ex [of ?P] by blast
qed

lemma known_stringsI:
  assumes "q \<noteq> NULL" and "cstring m q s" and "disjoint_ranges p n q (Suc (length s))"
  shows "known_strings m p n q = Some s"
proof -
  have "\<exists>t. known_strings m p n q = Some t" using assms by (auto simp: known_strings_def)
  then obtain t where t: "known_strings m p n q = Some t" by blast
  then have "cstring m q t" using known_reads_ok [of m p n] by (simp add: reads_ok_def)
  then show ?thesis using t cstring_unique [OF assms(2)] by simp
qed

text \<open>
  Where the compiler and the linker put things: the buffer of \<open>kvprintf\<close> and the literals are not in
  the free part of the early heap, and no literal overlaps the buffer.
\<close>

definition literal_at :: "mem \<Rightarrow> u32 \<Rightarrow> emm_state \<Rightarrow> u32 \<Rightarrow> u8 list \<Rightarrow> bool" where
  "literal_at m stack_buf e q s \<longleftrightarrow>
     q \<noteq> NULL \<and> cstring m q s \<and> disjoint_ranges stack_buf 256 q (Suc (length s)) \<and>
     unat q + length s < 4294967296 \<and> (unat q + length s < unat (g_cursor e) \<or> unat (g_end e) \<le> unat q)"

definition boot_memory :: "mem \<Rightarrow> u32 \<Rightarrow> emm_state \<Rightarrow> (string \<Rightarrow> u32) \<Rightarrow> bool" where
  "boot_memory m stack_buf e lit \<longleftrightarrow>
     stack_buf \<noteq> NULL \<and> unat stack_buf + 256 \<le> 4294967296 \<and>
     (unat stack_buf + 256 \<le> unat (g_cursor e) \<or> unat (g_end e) \<le> unat stack_buf) \<and>
     (\<forall>f \<in> set boot_literals. literal_at m stack_buf e (lit f) (bytes_of f))"

lemma literal_at_kept:
  assumes l: "literal_at m stack_buf e q s" and tk: "takes j e e1" "takes n e1 e2" and inv: "emm_inv e"
    and oh: "only_heap e1 e2 m m'"
  shows "known_strings m' stack_buf 256 q = Some s"
proof -
  have "agree m m' q (Suc (length s))"
    unfolding agree_def
  proof (intro allI impI)
    fix i assume i: "i < Suc (length s)"
    have u: "unat (q + of_nat i) = unat q + i"
      using l i by (intro offset_no_wrap) (simp add: literal_at_def)
    have "unat (q + of_nat i) < unat (g_cursor e1) \<or> unat (g_cursor e2) \<le> unat (q + of_nat i)"
      using l i tk takes_inv [OF tk(2) takes_inv [OF tk(1) inv]]
      by (auto simp: u literal_at_def takes_def emm_inv_def word_le_nat_alt)
    then show "m (q + of_nat i) = m' (q + of_nat i)"
      using oh [unfolded only_heap_def, rule_format, of "q + of_nat i"] by simp
  qed
  then have "cstring m' q s" using l cstring_agree [of m m' q "Suc (length s)" s] by (simp add: literal_at_def)
  then show ?thesis using l by (intro known_stringsI) (simp_all add: literal_at_def)
qed

lemma held_known:
  assumes "held m lo hi q s" and "0 < lo" and "unat p + 256 \<le> lo \<or> hi \<le> unat p" and "unat p + 256 \<le> 4294967296"
    and "hi \<le> 4294967296"
  shows "str_arg (known_strings m p 256) q"
proof -
  have h: "cstring m q s" "lo \<le> unat q" "unat q + length s < hi" using assms(1) by (simp_all add: held_def)
  have "disjoint_ranges p 256 q (Suc (length s))"
  proof (cases "unat p + 256 \<le> lo")
    case True
    then show ?thesis using h assms(5) by (intro disjoint_rangesI) simp_all
  next
    case False
    then show ?thesis using h assms(3,4) by (intro disjoint_ranges_sym [OF disjoint_rangesI]) simp_all
  qed
  moreover have "q \<noteq> NULL" using h(2) assms(2) by auto
  ultimately have "known_strings m p 256 q = Some s" using h(1) by (intro known_stringsI)
  then show ?thesis by (simp add: str_arg_def)
qed

lemma held_opt_known:
  assumes "held_opt m lo hi q so" and "0 < lo" and "unat p + 256 \<le> lo \<or> hi \<le> unat p"
    and "unat p + 256 \<le> 4294967296" and "hi \<le> 4294967296"
  shows "str_arg (known_strings m p 256) q"
  using assms held_known [OF _ assms(2-5), of m q] by (cases so) (auto simp: str_arg_def)

lemma shows_view_known:
  assumes v: "shows_view m lo hi bi v"
    and p: "0 < lo" "unat p + 256 \<le> lo \<or> hi \<le> unat p" "unat p + 256 \<le> 4294967296" "hi \<le> 4294967296"
  shows "str_arg (known_strings m p 256) (bi_name bi)" and "str_arg (known_strings m p 256) (bi_command_line bi)"
    and "md \<in> set (modules bi) \<Longrightarrow> str_arg (known_strings m p 256) (mod_command_line md)"
proof -
  show "str_arg (known_strings m p 256) (bi_name bi)" "str_arg (known_strings m p 256) (bi_command_line bi)"
    using v held_opt_known [OF _ p] by (auto simp: shows_view_def)
  have "list_all2 (held_module m lo hi) (modules bi) (v_modules v)" using v by (simp add: shows_view_def)
  moreover assume "md \<in> set (modules bi)"
  ultimately obtain x where "held_module m lo hi md x"
    by (metis in_set_conv_nth list_all2_nthD)
  then show "str_arg (known_strings m p 256) (mod_command_line md)"
    using held_known [OF _ p] by (cases x) (auto simp: held_module_def)
qed

section \<open>Parsing and printing\<close>

lemma parse_then_print:
  assumes info: "info_at m0 mb limit ts" and ap: "apart mb limit e1"
    and e: "emm_inv e" "0 < g_cursor e" "unat (g_end e) + (unat limit - unat mb) < 4294967296"
    and tk: "takes j e e1" and cost: "info_cost ts \<le> room e1"
    and mem: "boot_memory m0 stack_buf e lit" and v: "vga_inv v"
  shows "\<exists>m bi e2 c. multiboot2_parse_boot_info mb (m0, e1) = ret (m, bi, e2) \<and>
    multiboot2_print_boot_info lit stack_buf bi (m, v, tr) = ret c \<and> takes (info_cost ts) e1 e2 \<and>
    ram_regions bi = v_ram (view_tags ts) \<and> (\<exists>S. lits_known S lit \<and> console_ok S stack_buf c)"
proof -
  have e1: "emm_inv e1" "g_end e1 = g_end e" "unat (g_cursor e) \<le> unat (g_cursor e1)"
    using takes_inv [OF tk e(1)] tk by (simp_all add: takes_def)
  have pos: "0 < unat (g_cursor e1)" using e(2) e1(3) by (simp add: word_less_nat_alt)
  obtain m bi e2 where p: "multiboot2_parse_boot_info mb (m0, e1) = ret (m, bi, e2)"
    and view: "shows_view m (unat (g_cursor e1)) (unat (g_cursor e2)) bi (view_tags ts)"
    and e2: "takes (info_cost ts) e1 e2" and oh: "only_heap e1 e2 m0 m"
    using multiboot2_parse_outcome [OF info e1(1) _ ap] e(3) e1(2) pos cost by (auto simp: word_less_nat_alt)
  let ?S = "known_strings m stack_buf 256"
  have sb: "stack_buf \<noteq> NULL" "unat stack_buf + 256 \<le> 4294967296"
    "unat stack_buf + 256 \<le> unat (g_cursor e) \<or> unat (g_end e) \<le> unat stack_buf"
    using mem by (simp_all add: boot_memory_def)
  have "unat (g_cursor e2) \<le> unat (g_end e)"
    using takes_inv [OF e2 e1(1)] e2 e1(2) by (simp add: emm_inv_def takes_def word_le_nat_alt)
  then have sb2: "unat stack_buf + 256 \<le> unat (g_cursor e1) \<or> unat (g_cursor e2) \<le> unat stack_buf"
    using sb(3) e1(3) by auto
  have hi: "unat (g_cursor e2) \<le> 4294967296" using unat_u32_lt [of "g_cursor e2"] by simp
  note known = shows_view_known [OF view pos sb2 sb(2) hi]
  have lits: "lits_known ?S lit"
    using mem literal_at_kept [OF _ tk e2 e(1) oh] by (simp add: lits_known_def boot_memory_def)
  have c: "console_ok ?S stack_buf (m, v, tr)" using v sb known_reads_ok by (simp add: console_ok_def)
  obtain c' where "multiboot2_print_boot_info lit stack_buf bi (m, v, tr) = ret c'" "console_ok ?S stack_buf c'"
    using prints_boot_info [OF lits c known] by (auto simp: prints_def)
  moreover have "ram_regions bi = v_ram (view_tags ts)" using view by (simp add: shows_view_def)
  ultimately show ?thesis using p e2 lits by blast
qed

section \<open>The boot\<close>

text \<open>The state the boot leaves behind.\<close>

definition booted ::
  "(string \<Rightarrow> u32) \<Rightarrow> u32 \<Rightarrow> 'h \<Rightarrow> boot_memory_region_t list \<Rightarrow> 'h kernel_state \<Rightarrow> bool" where
  "booted lit stack_buf h ram s \<longleftrightarrow>
     pmm_inv (k_pmm s) \<and> live (k_pmm s) = {} \<and> managed (k_pmm s) = (\<Union>r \<in> set ram. ram_pages r) \<and>
     g_isr_handlers (k_idt s) ! 14 = Some h \<and> idt_inv (k_idt s) \<and>
     (\<exists>S. lits_known S lit \<and> console_ok S stack_buf (k_mem s, k_vga s, k_io s)) \<and>
     (\<forall>q qs. ram = q # qs \<longrightarrow> ram_pages q \<noteq> {} \<longrightarrow> (\<exists>r rs. g_regions (k_pmm s) = r # rs \<and>
        unat (r_start r) = ram_first q \<and> unat (r_end r) = ram_last q))"

text \<open>
  From the boot loader to the memory manager. When the loader passes a well-formed information
  structure whose RAM regions do not overlap, and the early heap has room for the two ports, for the
  parsed tags and for the page descriptors of the RAM, the start of \<open>kernel_main\<close> returns, for every
  behaviour of the serial chips: the memory manager satisfies its invariant, nothing is allocated, and
  it manages exactly the whole pages of the regions the loader reported as RAM; the page-fault handler
  is installed. A first port that passes its self-test is known afterwards.
\<close>

lemma kernel_boot_ok:
  fixes s :: "'h kernel_state" and ts :: "mb2_tag list"
  defines "e \<equiv> serial_emm (k_serial s)" and "ram \<equiv> v_ram (view_tags ts)"
  assumes info: "info_at (k_mem s) mb limit ts" and ap: "apart mb limit e"
    and e: "emm_inv e" "0 < g_cursor e" "unat (g_end e) + (unat limit - unat mb) < 4294967296"
    and mem: "boot_memory (k_mem s) stack_buf e lit" and regs: "g_regions (k_pmm s) = []"
    and ok: "ram_list_ok ram" and heap: "24 + info_cost ts + ram_metadata ram \<le> room e" and idt: "idt_inv (k_idt s)"
  shows "\<exists>bi s'. kernel_boot dev lit stack_buf h mb s = ret (bi, s') \<and> ram_regions bi = ram \<and>
    booted lit stack_buf h ram s' \<and>
    (serial_inv (k_serial s) \<and> com1_works dev (k_serial s) (k_io s) \<longrightarrow>
       serial_inv (k_serial s') \<and> baud_of (k_serial s') SERIAL_PORT_COM1 = Some 115200)"
proof -
  have "24 \<le> room e" using heap by simp
  then obtain ser tr1 j where ser: "serial_init dev (k_serial s, k_io s) = ret (ser, tr1)" "j \<le> 24"
    "takes j e (serial_emm ser)"
    using serial_init_takes [of "k_serial s" dev "k_io s"] e(1) by (auto simp: e_def)
  let ?e1 = "serial_emm ser"
  have r1: "info_cost ts + ram_metadata ram \<le> room ?e1" using takes_room [OF ser(3)] heap ser(2) by simp
  obtain v tr2 where v: "vga_init (k_vga s, tr1) = (v, tr2)" "vga_inv v" using vga_init_blank by blast
  obtain m bi e2 m3 v3 tr3 where p: "multiboot2_parse_boot_info mb (k_mem s, ?e1) = ret (m, bi, e2)"
    and pr: "multiboot2_print_boot_info lit stack_buf bi (m, v, tr2) = ret (m3, v3, tr3)"
    and e2: "takes (info_cost ts) ?e1 e2" and ram: "ram_regions bi = ram" and S: "\<exists>S. lits_known S lit \<and> console_ok S stack_buf (m3, v3, tr3)"
    using parse_then_print [OF info apart_mono [OF ap ser(3) order_refl] e ser(3) _ mem v(2)] r1
    by (force simp: ram_def)
  let ?p = "(k_pmm s)\<lparr>emm := e2\<rparr>"
  have hs: "heap_space (ram_metadata ram) ?p"
    using r1 e2 takes_inv [OF ser(3) e(1)] by (auto simp: heap_space_def takes_def room_def emm_inv_def word_le_nat_alt)
  then obtain pm where pm: "pmm_init bi ?p = ret pm" "pmm_inv pm" "live pm = {}"
    "managed pm = (\<Union>r \<in> set ram. ram_pages r)"
    using pmm_init_fresh [of ?p bi] ok ram regs by auto
  have first: "\<exists>r rs. g_regions pm = r # rs \<and> unat (r_start r) = ram_first q \<and>
      unat (r_end r) = ram_last q" if "ram = q # qs" "ram_pages q \<noteq> {}" for q qs
    by (rule pmm_init_first_region [of ?p bi q qs pm]) (use that hs pm(1) ram ok regs in auto)
  let ?t = "(k_idt s)\<lparr>g_isr_handlers := (g_isr_handlers (k_idt s))[14 := Some h]\<rparr>"
  let ?s = "s\<lparr>k_serial := ser\<lparr>serial_emm := emm pm\<rparr>, k_mem := m3, k_vga := v3, k_io := tr3, k_pmm := pm, k_idt := ?t\<rparr>"
  have t: "vmm_init h (k_idt s) = ret ?t" "14 < length (g_isr_handlers (k_idt s))" "idt_inv ?t"
    using idt by (simp_all add: vmm_init_def isr_install_def idt_inv_def)
  have run: "kernel_boot dev lit stack_buf h mb s = ret (bi, ?s)"
    using ser(1) v(1) p pr pm(1) t(1) by (simp add: kernel_boot_def)
  have known: "serial_inv (ser\<lparr>serial_emm := emm pm\<rparr>) \<and> baud_of (ser\<lparr>serial_emm := emm pm\<rparr>) SERIAL_PORT_COM1 = Some 115200"
    if "serial_inv (k_serial s)" "com1_works dev (k_serial s) (k_io s)"
    using serial_init_known [OF that ser(1)] by (simp add: serial_inv_def baud_of_def)
  show ?thesis
    by (intro exI [of _ bi] exI [of _ ?s]) (use run ram pm t S first known in \<open>simp add: booted_def\<close>)
qed

text \<open>A machine with 128 MiB, the information structure of the example and the literals on a shelf.\<close>

definition demo_machine_mem :: mem where
  "demo_machine_mem x = (if unat x < 65536 then demo_info x else shelf (map bytes_of boot_literals) x)"

definition demo_machine :: "'h idt_state \<Rightarrow> 'h kernel_state" where
  "demo_machine t = \<lparr>k_serial = \<lparr>g_cached_lookup_result = None, g_serial_ports = [], serial_emm = demo_heap\<rparr>,
     k_mem = demo_machine_mem, k_vga = demo_vga, k_io = [], k_pmm = \<lparr>emm = demo_heap, g_regions = []\<rparr>,
     k_idt = t\<rparr>"

lemma demo_machine_info: "info_at demo_machine_mem 0x9000 0x9078 demo_tags"
  by (simp add: info_at_def demo_tags_def demo_machine_mem_def demo_info_def demo_info_bytes_def rd32_def rd64_def
      cstring_def read_bytes_def MULTIBOOT2_ALIGN_UP_def upt_rec)

lemma demo_machine_memory: "boot_memory demo_machine_mem 0x1000 demo_heap (shelf_lit boot_literals)"
proof -
  let ?t = "map bytes_of boot_literals"
  have t: "shelf_ok ?t" by (simp add: shelf_ok_def boot_literals_def bytes_of_def)
  have r: "reads_ok demo_machine_mem 0x1000 256 (shelf_strings ?t)"
    by (rule shelf_reads_ok [OF t]) (simp_all add: demo_machine_mem_def)
  have "literal_at demo_machine_mem 0x1000 demo_heap (shelf_lit boot_literals f) (bytes_of f)"
    if f: "f \<in> set boot_literals" for f
  proof -
    have k: "index_of f boot_literals < 12" using index_of_less [OF f] by (simp add: boot_literals_def)
    have "unat (shelf_lit boot_literals f) = 65536 + 256 * index_of f boot_literals"
      using unat_shelf_addr [of "index_of f boot_literals" 0] k by (simp add: shelf_lit_def)
    moreover have "length (bytes_of f) < 256" using t f by (simp add: shelf_ok_def)
    ultimately show ?thesis
      using r shelf_strings_lit [of boot_literals "[]" f] t f k
      by (simp add: literal_at_def reads_ok_def demo_heap_def)
  qed
  then show ?thesis by (simp add: boot_memory_def demo_heap_def)
qed

lemma demo_machine_ram:
  "ram_list_ok (v_ram (view_tags demo_tags))" "ram_metadata (v_ram (view_tags demo_tags)) = 382952"
  by (simp_all add: demo_info_view(1) ram_ok_def ram_apart_def ram_start_def ram_end_def
      ram_metadata_def ram_first_def ram_last_def)

end
