(* ===== verification/Kernel_Fault.thy ===== *)
theory Kernel_Fault
  imports VMM_Props PMM_First KPanic
begin

text \<open>
  Memory accesses of kernel code with demand paging, and the page-fault test of
  \<^verbatim>\<open>kernel/src/kernel/main.c\<close>. An access to an address that is not mapped makes the processor raise
  exception 14; \<open>isr_handler\<close> calls the handler that \<open>vmm_init\<close> installed, and when the handler
  returns, the processor executes the access again.
\<close>

section \<open>The processor\<close>

text \<open>The two functions of the kernel that are installed as handlers.\<close>

datatype kernel_handler = Vmm_page_fault_handler | Keyboard_handler

definition call_isr ::
  "u32 \<Rightarrow> kernel_handler \<Rightarrow> isr_frame_t \<Rightarrow> vm_state \<times> pmm_state \<Rightarrow> (vm_state \<times> pmm_state) res" where
  "call_isr pd h frame st =
     (case h of Vmm_page_fault_handler \<Rightarrow> vmm_page_fault_handler pd frame st
      | Keyboard_handler \<Rightarrow> undef ''handler'')"

text \<open>
  The frame that the entry stub builds for a page fault: \<open>regs\<close> holds the other registers of the
  interrupted code. The processor's error code has bit 0 clear for a page that is not present and
  bit 1 set for a write.
\<close>

definition fault_frame :: "isr_frame_t \<Rightarrow> u32 \<Rightarrow> bool \<Rightarrow> isr_frame_t" where
  "fault_frame regs va write =
     regs\<lparr>cr2 := va, int_no := 14, err_code := (if write then 2 else 0)\<rparr>"

partial_function (option) cpu_store ::
  "(string \<Rightarrow> u32) \<Rightarrow> u32 \<Rightarrow> isr_frame_t \<Rightarrow> kernel_handler idt_state \<Rightarrow> u32 \<Rightarrow> u32 \<Rightarrow>
   vm_state \<times> pmm_state \<Rightarrow> (vm_state \<times> pmm_state) res" where
  "cpu_store lit pd regs t va v st =
     (if translate (fst st) va = None
      then bindR (isr_handler lit (call_isr pd) (fault_frame regs va True) t st) (cpu_store lit pd regs t va v)
      else bindR (vm_write va v (fst st)) (\<lambda>s. ret (s, snd st)))"

partial_function (option) cpu_load ::
  "(string \<Rightarrow> u32) \<Rightarrow> u32 \<Rightarrow> isr_frame_t \<Rightarrow> kernel_handler idt_state \<Rightarrow> u32 \<Rightarrow>
   vm_state \<times> pmm_state \<Rightarrow> (u32 \<times> vm_state \<times> pmm_state) res" where
  "cpu_load lit pd regs t va st =
     (if translate (fst st) va = None
      then bindR (isr_handler lit (call_isr pd) (fault_frame regs va False) t st) (cpu_load lit pd regs t va)
      else bindR (vm_read va (fst st)) (\<lambda>w. ret (w, st)))"

declare cpu_store.simps [code] cpu_load.simps [code]

section \<open>The test\<close>

text \<open>
  The console prints from the kernel's own memory, which the allocator does not hand out; \<open>c\<close>
  carries it apart from the physical memory behind the page tables.
\<close>

definition test_address :: u32 where
  "test_address = 0x800000"

definition page_fault_test ::
  "(string \<Rightarrow> u32) \<Rightarrow> u32 \<Rightarrow> u32 \<Rightarrow> isr_frame_t \<Rightarrow> kernel_handler idt_state \<Rightarrow>
   (vm_state \<times> pmm_state) \<times> console \<Rightarrow> ((vm_state \<times> pmm_state) \<times> console) res" where
  "page_fault_test lit stack_buf pd regs t = (\<lambda>(st, c).
     bindR (cpu_store lit pd regs t test_address 100 st) (\<lambda>st1.
     bindR (cpu_load lit pd regs t test_address st1) (\<lambda>(v, st2).
     bindR (print lit stack_buf ''Page fault test passed!\<newline>The value at %p is now: %u\<newline>'' [test_address, v] c) (\<lambda>c1.
       ret (st2, c1)))))"

section \<open>Demand paging as a program sees it\<close>

definition fault_served :: "kernel_handler idt_state \<Rightarrow> bool" where
  "fault_served t \<longleftrightarrow> 14 < length (g_isr_handlers t) \<and> g_isr_handlers t ! 14 = Some Vmm_page_fault_handler"

lemma isr_fault:
  "fault_served t \<Longrightarrow>
   isr_handler lit (call_isr pd) (fault_frame regs va w) t st = vmm_page_fault_handler pd (fault_frame regs va w) st"
  by (simp add: fault_served_def isr_handler_def fault_frame_def call_isr_def)

lemma word_in_frame:
  assumes a: "page_aligned a" and va: "4 dvd unat va"
  defines "i \<equiv> of_nat (unat va mod 4096 div 4) :: u32"
  shows "a OR (va AND 0xFFF) = slot_addr a i" and "unat i < 1024" and "unat i = unat va mod 4096 div 4"
proof -
  show ui: "unat i = unat va mod 4096 div 4" by (simp add: i_def unat_of_nat_u32)
  then show lt: "unat i < 1024" by simp
  have "4 dvd unat va mod 4096" using va by (simp add: dvd_mod)
  then have "unat (slot_addr a i) = unat a + unat va mod 4096" using unat_slot [OF a lt] ui by simp
  moreover have "a OR (va AND 0xFFF) = a + (va AND 0xFFF)" using frame_or [of a va] by (simp add: frame_of_id [OF a])
  moreover have "unat (a + (va AND 0xFFF)) = unat a + unat va mod 4096"
    using page_room [OF a] unat_page_offset [of va] mod_less_divisor [of 4096 "unat va"]
    by (subst unat_add_nowrap) linarith+
  ultimately show "a OR (va AND 0xFFF) = slot_addr a i" by (simp add: word_unat_eq_iff)
qed

lemma same_word:
  assumes "4 dvd unat (va :: u32)" and "4 dvd unat w" and "frame_of w = frame_of va"
  shows "unat w mod 4096 div 4 = unat va mod 4096 div 4 \<longleftrightarrow> w = va"
proof
  assume e: "unat w mod 4096 div 4 = unat va mod 4096 div 4"
  have "4 dvd unat w mod 4096" "4 dvd unat va mod 4096" using assms(1,2) by (simp_all add: dvd_mod)
  then have "unat w mod 4096 = unat va mod 4096" using e by (metis dvd_div_mult_self)
  moreover have "unat w div 4096 * 4096 = unat va div 4096 * 4096" using assms(3) by (metis unat_frame_of)
  ultimately have "unat w = unat va" by (metis div_mult_mod_eq)
  then show "w = va" by (simp add: word_unat_eq_iff)
qed simp

lemma cpu_load_mapped:
  assumes "bit (cr0 s) 31" and "walk s va = Some pa"
  shows "cpu_load lit pd regs t va (s, p) = ret (rd32 (phys s) pa, s, p)"
  using assms by (subst cpu_load.simps) (simp add: translate_def vm_read_def)

lemma zero_page_entry:
  assumes "page_aligned a" and "\<And>i. i < 4096 \<Longrightarrow> m (a + of_nat i) = 0" and "unat i < 1024"
  shows "entry_at m a i = 0"
proof -
  have "m (slot_addr a i + of_nat k) = 0" if "k < 4" for k
    using slot_byte(2) [OF assms(1,3) that] assms(2) [of "4 * unat i + k"] assms(3) that by (simp add: add.assoc)
  from this [of 0] this [of 1] this [of 2] this [of 3] show ?thesis by (simp add: entry_at_def rd32_def)
qed

lemma cpu_store_ok:
  assumes inv: "vm_inv pd idt (s, p)" and srv: "fault_served t" and va: "4 dvd unat va"
    and ns: "\<not> shared_slot (dir_index va)" and np: "walk s va = None"
    and al: "pmm_alloc_pages 1 p = ret (a, p1)" and nz: "a \<noteq> NULL" and rdy: "table_ready s p1 va"
  shows "\<exists>s' p'. cpu_store lit pd regs t va v (s, p) = ret (s', p') \<and> vm_inv pd idt (s', p') \<and>
    (\<forall>w. 4 dvd unat w \<and> frame_of w = frame_of va \<longrightarrow>
       cpu_load lit pd regs t w (s', p') = ret (if w = va then v else 0, s', p')) \<and>
    (\<forall>w. walk s' w = (if frame_of w = frame_of va then Some (a OR (w AND 0xFFF)) else walk s w)) \<and>
    (\<forall>x. \<not> paging_byte s' x \<and> \<not> in_range a 4096 x \<longrightarrow> phys s' x = phys s x)"
proof -
  let ?f = "fault_frame regs va True" and ?i = "of_nat (unat va mod 4096 div 4) :: u32"
  have f: "err_code ?f AND 1 = 0" "cr2 ?f = va" by (simp_all add: fault_frame_def)
  obtain s1 p' where h: "vmm_page_fault_handler pd ?f (s, p) = ret (s1, p')" "vm_inv pd idt (s1, p')"
    "\<And>w. walk s1 w = (if frame_of w = frame_of va then Some (a OR (w AND 0xFFF)) else walk s w)"
    "\<And>i. i < 4096 \<Longrightarrow> phys s1 (a + of_nat i) = 0"
    "\<And>x. \<not> paging_byte s1 x \<Longrightarrow> \<not> in_range a 4096 x \<Longrightarrow> phys s1 x = phys s x"
    "page_aligned a" "\<not> paging_page s1 a"
    using vmm_page_fault_ok [OF inv f(1), of a p1] ns np al nz rdy unfolding f(2) by blast
  note on = vm_invD(1) [OF inv] vm_invD(1) [OF h(2)] and W = word_in_frame [OF h(6) va]
  let ?s = "vm_set a ?i v s1"
  note K = write_frame [OF h(2,6,7) W(2)]
  have "translate s1 va = Some (slot_addr a ?i)" using h(3) [of va] on(2) W(1) by (simp add: translate_def)
  then have "cpu_store lit pd regs t va v (s1, p') = ret (?s, p')"
    by (subst cpu_store.simps) (simp add: vm_write_def vm_set_def)
  then have run: "cpu_store lit pd regs t va v (s, p) = ret (?s, p')"
    using np on(1) h(1) isr_fault [OF srv] by (subst cpu_store.simps) (simp add: translate_def)
  have load: "cpu_load lit pd regs t w (?s, p') = ret (if w = va then v else 0, ?s, p')"
    if w: "4 dvd unat w" "frame_of w = frame_of va" for w
  proof -
    note X = word_in_frame [OF h(6) w(1)]
    have pa: "walk ?s w = Some (slot_addr a (of_nat (unat w mod 4096 div 4)))" using K(3) h(3) [of w] w(2) X(1) by simp
    have "?i = of_nat (unat w mod 4096 div 4) \<longleftrightarrow> w = va"
      using same_word [OF va w] W(3) X(3) by (auto simp: word_unat_eq_iff)
    then have "entry_at (phys ?s) a (of_nat (unat w mod 4096 div 4)) = (if w = va then v else 0)"
      using entry_at_vm_set [OF h(6,6) W(2) X(2)] zero_page_entry [where m = "phys s1", OF h(6,4) X(2)] by simp
    then show ?thesis using cpu_load_mapped [OF _ pa] on(2) by (simp add: entry_at_def)
  qed
  have "phys ?s x = phys s x" if "\<not> paging_byte ?s x" "\<not> in_range a 4096 x" for x
    using that h(5) [of x] vm_set_frame [OF h(6) W(2) that(2)] K(2) by (auto simp: paging_byte_def)
  then show ?thesis using run K(1) load K(3) h(3) by (intro exI [of _ ?s] exI [of _ p']) auto
qed

section \<open>The test passes\<close>

abbreviation test_format :: string where
  "test_format \<equiv> ''Page fault test passed!\<newline>The value at %p is now: %u\<newline>''"

definition test_output :: "u8 list" where
  "test_output = bytes_of ''Page fault test passed!\<newline>The value at 0x00800000 is now: 100\<newline>''"

lemma test_digits: "hexn (hex_digits False) 8 8388608 = [48, 48, 56, 48, 48, 48, 48, 48]" "dec 100 = [49, 48, 48]"
proof -
  have "(8 :: nat) = Suc (Suc (Suc (Suc (Suc (Suc (Suc (Suc 0)))))))" by simp
  then show "hexn (hex_digits False) 8 8388608 = [48, 48, 56, 48, 48, 48, 48, 48]"
    by (simp only: hexn.simps) (simp add: hex_digits_def HEX_DIGITS_LOWER_def)
  show "dec 100 = [49, 48, 48]" by (simp add: dec.simps)
qed

lemma test_renders: "render S null_lit (bytes_of test_format) [test_address, 100] = Some test_output"
  by (simp add: test_address_def test_output_def bytes_of_def conv_def hex_text_def test_digits)

lemma test_page: "page_aligned test_address" "\<not> shared_slot (dir_index test_address)" "4 dvd unat test_address"
  by (simp_all add: test_address_def page_aligned_def word_unat_eq_iff unat_dir_index)

lemma page_fault_test_ok:
  assumes inv: "vm_inv pd idt (s, p)" and srv: "fault_served t" and np: "walk s test_address = None"
    and al: "pmm_alloc_pages 1 p = ret (a, p1)" and nz: "a \<noteq> NULL" and rdy: "table_ready s p1 test_address"
    and c: "console_ok S stack_buf c" and lit: "S (lit test_format) = Some (bytes_of test_format)"
  shows "\<exists>s' p' c'. page_fault_test lit stack_buf pd regs t ((s, p), c) = ret ((s', p'), c') \<and>
    vm_inv pd idt (s', p') \<and> walk s' test_address = Some a \<and> rd32 (phys s') a = 100 \<and>
    console_ok S stack_buf c' \<and> printed test_output stack_buf c c'"
proof -
  obtain s' p' where st: "cpu_store lit pd regs t test_address 100 (s, p) = ret (s', p')" "vm_inv pd idt (s', p')"
    and ld: "\<And>w. 4 dvd unat w \<Longrightarrow> frame_of w = frame_of test_address \<Longrightarrow>
      cpu_load lit pd regs t w (s', p') = ret (if w = test_address then 100 else 0, s', p')"
    and wk: "\<And>w. walk s' w = (if frame_of w = frame_of test_address then Some (a OR (w AND 0xFFF)) else walk s w)"
    using cpu_store_ok [OF inv srv test_page(3,2) np al nz rdy, of lit regs 100] by blast
  have l: "cpu_load lit pd regs t test_address (s', p') = ret (100, s', p')" using ld [OF test_page(3)] by simp
  have "test_address AND 0xFFF = 0" by (simp add: test_address_def)
  then have w: "walk s' test_address = Some a" using wk [of test_address] by simp
  have "rd32 (phys s') a = 100" using l cpu_load_mapped [OF vm_invD(1) [OF st(2)] w, of lit pd regs t p'] by simp
  moreover obtain c' where "print lit stack_buf test_format [test_address, 100] c = ret c'" "console_ok S stack_buf c'"
    "printed test_output stack_buf c c'"
    using print_ok [where lit = lit, OF c lit test_renders] by blast
  ultimately show ?thesis using st l w by (simp add: page_fault_test_def)
qed

section \<open>Properties\<close>

text \<open>
  C21. Demand paging is invisible to the code that faults. Let the paging invariant hold, the handler
  be installed, and the allocator return a frame other than frame 0 and then, if the page has no page
  table yet, one below 4 MiB for it. A store to an aligned word of a page that is not mapped then
  completes: the processor faults, the dispatcher finds the handler of the memory manager, and the
  retried store goes through. Afterwards that word reads as the value stored and every other word of
  the page as zero, without another fault; no other translation and no other memory of a client has
  changed. Without such frames the fault is not served: the handler panics, or faults itself.
\<close>

theorem cpu_store_transparent:
  assumes "vm_inv pd idt (s, p)" and "fault_served t" and "4 dvd unat va"
    and "walk s va = None"
    and "pmm_alloc_pages 1 p = ret (a, p1)" and "a \<noteq> NULL" and "table_ready s p1 va"
  shows "\<exists>s' p'. cpu_store lit pd regs t va v (s, p) = ret (s', p') \<and> vm_inv pd idt (s', p') \<and>
    (\<forall>w. 4 dvd unat w \<and> frame_of w = frame_of va \<longrightarrow>
       cpu_load lit pd regs t w (s', p') = ret (if w = va then v else 0, s', p')) \<and>
    (\<forall>w. walk s' w = (if frame_of w = frame_of va then Some (a OR (w AND 0xFFF)) else walk s w)) \<and>
    (\<forall>x. \<not> paging_byte s' x \<and> \<not> in_range a 4096 x \<longrightarrow> phys s' x = phys s x)"
  by (rule cpu_store_ok [OF assms(1-3) unmapped_not_shared [OF assms(1,4)] assms(4-7)])

definition demo_handlers :: "kernel_handler idt_state" where
  "demo_handlers = \<lparr>g_idt_entries = replicate 48 (idt_create_entry 0 0), g_idt_ptr = idt_create_ptr 0 0,
     g_isr_handlers = (replicate 32 None)[14 := Some Vmm_page_fault_handler],
     g_irq_handlers = replicate 16 None, idtr = None\<rparr>"

theorem cpu_store_transparent_witness:
  "\<exists>s p. cpu_store (\<lambda>_. 0) 0xC0300000 (demo_frame 0) demo_handlers 0x800010 42 (demo_vm, demo_pmm) = ret (s, p) \<and>
     cpu_load (\<lambda>_. 0) 0xC0300000 (demo_frame 0) demo_handlers 0x800010 (s, p) = ret (42, s, p) \<and>
     cpu_load (\<lambda>_. 0) 0xC0300000 (demo_frame 0) demo_handlers 0x800014 (s, p) = ret (0, s, p)"
proof -
  have va: "4 dvd unat (0x800010 :: u32)" "dir_index 0x800010 = 2" "frame_of 0x800010 = frame_of 0x800014"
    by (simp_all add: word_unat_eq_iff unat_dir_index unat_frame_of)
  have w: "walk demo_vm 0x800010 = None" by (rule demo_vm_facts(4)) (simp add: va)
  have rdy: "table_ready demo_vm demo_one 0x800010" using demo_two_page by (auto simp: table_ready_def LOW_MEMORY_def)
  have srv: "fault_served demo_handlers" by (simp add: fault_served_def demo_handlers_def)
  show ?thesis
    using cpu_store_transparent [OF demo_vm_facts(1) srv va(1) w demo_one_page _ rdy, of "\<lambda>_. 0" "demo_frame 0" 42]
      va(1,3) by fastforce
qed

end
