(* ===== verification/Kernel_Main.thy ===== *)
theory Kernel_Main
  imports Keyboard VGA
begin

text \<open>
  \<^verbatim>\<open>kernel/src/kernel/main.c\<close>, the echo loop: one iteration of \<open>while (1)\<close>, and its
  interplay with the keyboard interrupt.

  \<open>ev\<close> is the address of the local event of the interrupt handler, \<open>p\<close> that of the local event of
  \<open>kernel_main\<close>.
\<close>

type_synonym main_state = "kbd_state \<times> mem \<times> vga_state \<times> io"

definition main_handle_event :: "u32 \<Rightarrow> main_state \<Rightarrow> main_state res" where
  "main_handle_event p = (\<lambda>(k, m, v, tr).
     let event = load_event (read_bytes m p 16)
     in if \<not> is_pressed event then ret (k, m, v, tr)
        else
          (case keyboard_scancode_to_ascii event of
             (True, Some ascii) \<Rightarrow>
               let v = vga_set_color VGA_COLOR_LIGHT_GREEN VGA_COLOR_BLACK v;
                   (v, tr) = vga_write_char ascii (v, tr)
               in ret (k, m, v, tr)
           | (True, None) \<Rightarrow> undef ''ascii''
           | (False, _) \<Rightarrow> ret (k, m, v, tr)))"

definition main_loop_body :: "u32 \<Rightarrow> main_state \<Rightarrow> main_state res" where
  "main_loop_body p = (\<lambda>(k, m, v, tr).
     if \<not> keyboard_has_event k then ret (k, m, v, tr)
     else bindR (keyboard_get_event p (k, m)) (\<lambda>(_, k, m). main_handle_event p (k, m, v, tr)))"

text \<open>
  The loop is interrupted: between two iterations the keyboard handler may run on the bytes the
  controller holds. \<open>Kernel_Loop\<close> lets interrupts fall inside an iteration as well.
\<close>

datatype main_action = Irq "u8 list" | Iterate

inductive main_run :: "device \<Rightarrow> u32 \<Rightarrow> u32 \<Rightarrow> main_action list \<Rightarrow> main_state \<Rightarrow> main_state \<Rightarrow> bool"
  for dev ev p where
  run_Nil: "main_run dev ev p [] st st"
| run_Irq: "main_run dev ev p acts st (k, m, v, tr) \<Longrightarrow> delivers dev tr bs \<Longrightarrow>
    keyboard_handler dev ev (k, m, tr) = ret (k', m', tr') \<Longrightarrow>
    main_run dev ev p (acts @ [Irq bs]) st (k', m', v, tr')"
| run_Iterate: "main_run dev ev p acts st st1 \<Longrightarrow> main_loop_body p st1 = ret st2 \<Longrightarrow>
    main_run dev ev p (acts @ [Iterate]) st st2"

section \<open>The console\<close>

text \<open>
  What the user sees: the automaton of the keyboard in front of the screen, every key that is
  pressed and has a character printed in light green.
\<close>

definition echoed :: "keyboard_event_t \<Rightarrow> u8 option" where
  "echoed e = (if is_pressed e \<and> fst (keyboard_scancode_to_ascii e)
     then snd (keyboard_scancode_to_ascii e) else None)"

fun echo_step :: "main_action \<Rightarrow> kbd_spec \<times> screen \<Rightarrow> kbd_spec \<times> screen" where
  "echo_step (Irq bs) (k, scr) = (ks_run bs k, scr)"
| "echo_step Iterate (k, scr) =
     (case ks_queue k of
        [] \<Rightarrow> (k, scr)
      | e # es \<Rightarrow> (k\<lparr>ks_queue := es\<rparr>,
          case echoed e of None \<Rightarrow> scr | Some ch \<Rightarrow> scr_char ch 10 scr))"

definition main_abs :: "main_state \<Rightarrow> kbd_spec \<times> screen" where
  "main_abs = (\<lambda>(k, m, v, tr). (kbd_abs k m, vga_abs v))"

definition main_inv :: "u32 \<Rightarrow> u32 \<Rightarrow> main_state \<Rightarrow> bool" where
  "main_inv ev p = (\<lambda>(k, m, v, tr). kbd_inv ev k \<and> kbd_inv p k \<and> vga_inv v)"

lemma kbd_inv_same:
  "kbd_inv p s \<Longrightarrow> kbd_inv ev s' \<Longrightarrow> cb_same (g_keyboard_buffer s) (g_keyboard_buffer s') \<Longrightarrow> kbd_inv p s'"
  using cb_same_clear [of "g_keyboard_buffer s" "g_keyboard_buffer s'"] by (simp add: kbd_inv_def)

lemma ascii_result: "keyboard_scancode_to_ascii e = (ok, a) \<Longrightarrow> ok \<Longrightarrow> \<exists>ch. a = Some ch"
  by (auto simp: keyboard_scancode_to_ascii_def Let_def split: if_splits)

text \<open>The screen is driven through ports of its own: the interrupt controllers see nothing of it.\<close>

definition pic_unaware :: "io \<Rightarrow> io \<Rightarrow> bool" where
  "pic_unaware tr tr' \<longleftrightarrow> master tr' = master tr \<and> slave tr' = slave tr"

lemma vga_set_cursor_pic: "pic_unaware tr0 tr \<Longrightarrow> pic_unaware tr0 (snd (vga_set_cursor r c (s, tr)))"
  by (simp add: vga_set_cursor_def Let_def pic_unaware_def chip_outb fun_eq_iff pic_ports VGA_CRTC_INDEX_PORT_def
      VGA_CRTC_DATA_PORT_def)

lemma vga_write_char_pic: "pic_unaware tr (snd (vga_write_char ch (s, tr)))"
proof -
  have refl: "pic_unaware tr tr" by (simp add: pic_unaware_def)
  have scroll: "pic_unaware tr (snd (vga_scroll (s, tr)))" for s
    using vga_set_cursor_pic [OF refl] by (simp add: vga_scroll_def Let_def)
  have cursor: "pic_unaware tr (snd (vga_set_cursor r c st))" if "pic_unaware tr (snd st)" for r c st
    using vga_set_cursor_pic [OF that, of r c "fst st"] by simp
  show ?thesis
    using refl scroll cursor by (simp add: vga_write_char_def Let_def case_prod_beta)
qed

lemma main_handle_event_ok:
  assumes "vga_inv v"
  shows "\<exists>v' tr'. main_handle_event p (k, m, v, tr) = ret (k, m, v', tr') \<and> vga_inv v' \<and> pic_unaware tr tr' \<and>
    vga_abs v' = (case echoed (load_event (read_bytes m p 16)) of None \<Rightarrow> vga_abs v | Some ch \<Rightarrow> scr_char ch 10 (vga_abs v))"
proof -
  let ?e = "load_event (read_bytes m p 16)"
  obtain ok a where a: "keyboard_scancode_to_ascii ?e = (ok, a)" by (cases "keyboard_scancode_to_ascii ?e")
  show ?thesis
  proof (cases "is_pressed ?e \<and> ok")
    case False
    then show ?thesis using a assms by (auto simp: main_handle_event_def Let_def echoed_def pic_unaware_def)
  next
    case True
    then obtain ch where ch: "a = Some ch" using ascii_result [OF a] by blast
    let ?v = "vga_set_color VGA_COLOR_LIGHT_GREEN VGA_COLOR_BLACK v"
    have v: "vga_inv ?v" "g_current_color ?v = 10" "vga_abs ?v = vga_abs v"
      using assms by (simp_all add: vga_set_color_def vga_inv_def vga_abs_def)
    obtain v' tr' where w: "vga_write_char ch (?v, tr) = (v', tr')" "vga_inv v'"
      "vga_abs v' = scr_char ch 10 (vga_abs v)"
      using vga_write_char_correct [OF v(1), of ch tr] v(2,3) by metis
    then show ?thesis using True a ch vga_write_char_pic [of tr ch ?v] by (simp add: main_handle_event_def Let_def echoed_def)
  qed
qed

lemma main_loop_body_refines:
  assumes "main_inv ev p st"
  shows "\<exists>st'. main_loop_body p st = ret st' \<and> main_inv ev p st' \<and> main_abs st' = echo_step Iterate (main_abs st)"
proof -
  obtain k m v tr where st: "st = (k, m, v, tr)" by (cases st)
  have inv: "kbd_inv ev k" "kbd_inv p k" "vga_inv v" using assms by (simp_all add: st main_inv_def)
  have cl: "cb_clear_of (g_keyboard_buffer k) p" and cb: "cb_inv (g_keyboard_buffer k)"
    using inv(2) by (simp_all add: kbd_inv_def)
  have has: "keyboard_has_event k \<longleftrightarrow> ks_queue (kbd_abs k m) \<noteq> []"
    by (simp add: keyboard_has_event_def kbd_abs_def cyclic_buffer_is_empty_correct [OF cb])
  note get = keyboard_get_event_correct [OF inv(1) cl, of m] keyboard_get_event_correct [OF inv(2) cl, of m]
  show ?thesis
  proof (cases "ks_queue (kbd_abs k m)")
    case Nil
    then show ?thesis using has assms by (simp add: st main_loop_body_def main_abs_def)
  next
    case (Cons e es)
    then obtain k' m' where g: "keyboard_get_event p (k, m) = ret (True, k', m')" "kbd_inv ev k'" "kbd_inv p k'"
      "load_event (read_bytes m' p 16) = e" "kbd_abs k' m' = (kbd_abs k m)\<lparr>ks_queue := es\<rparr>"
      using get by auto
    obtain v' tr' where "main_handle_event p (k', m', v, tr) = ret (k', m', v', tr')" "vga_inv v'"
      "vga_abs v' = (case echoed e of None \<Rightarrow> vga_abs v | Some ch \<Rightarrow> scr_char ch 10 (vga_abs v))"
      using main_handle_event_ok [OF inv(3), of p k' m' tr] unfolding g(4) by blast
    then show ?thesis using has Cons g by (simp add: st main_loop_body_def main_abs_def main_inv_def)
  qed
qed

lemma main_run_refines:
  "main_run dev ev p acts st st' \<Longrightarrow> main_inv ev p st \<Longrightarrow>
   main_inv ev p st' \<and> main_abs st' = fold echo_step acts (main_abs st)"
proof (induction rule: main_run.induct)
  case (run_Irq acts st k m v tr bs k' m' tr')
  then have inv: "kbd_inv ev k" "kbd_inv p k" "vga_inv v"
    and abs: "(kbd_abs k m, vga_abs v) = fold echo_step acts (main_abs st)"
    by (simp_all add: main_inv_def main_abs_def)
  have h: "kbd_inv ev k'" "kbd_abs k' m' = ks_run bs (kbd_abs k m)"
    "cb_same (g_keyboard_buffer k) (g_keyboard_buffer k')"
    using keyboard_handler_run [OF inv(1) run_Irq.hyps(2), of m] run_Irq.hyps(3) by auto
  have "kbd_inv p k'" by (rule kbd_inv_same [OF inv(2) h(1,3)])
  then have "main_inv ev p (k', m', v, tr')" using inv h by (simp add: main_inv_def)
  moreover have "main_abs (k', m', v, tr') = echo_step (Irq bs) (kbd_abs k m, vga_abs v)"
    using h(2) by (simp add: main_abs_def)
  ultimately show ?case by (simp add: abs)
next
  case (run_Iterate acts st st1 st2)
  then show ?case using main_loop_body_refines [of ev p st1] by auto
qed simp

section \<open>Properties\<close>

text \<open>
  The echo loop. Along every interleaving of keyboard interrupts and iterations of the loop in
  \<open>kernel_main\<close>, the state stays well formed, no iteration fails, and keyboard and screen are what
  the specification gives: scan codes pass through the automaton into the queue, and every iteration
  takes the oldest event and prints its character in light green when a key with one was pressed.
\<close>

lemma main_loop_echoes:
  assumes "main_run dev ev p acts st st'" and "main_inv ev p st"
  shows "main_inv ev p st' \<and> main_abs st' = fold echo_step acts (main_abs st) \<and>
    (\<exists>st''. main_loop_body p st' = ret st'')"
  using main_run_refines [OF assms] main_loop_body_refines [of ev p st'] by blast

end
