(* ===== verification/Kernel_Start.thy ===== *)
theory Kernel_Start
  imports Kernel_Boot Kernel_Fault Kernel_Main
begin

text \<open>
  \<^verbatim>\<open>kernel/src/kernel/main.c\<close>: \<open>kernel_main\<close> from its first line to the echo loop, and the theorem
  that it gets there. The state joins the drivers and the boot information of \<open>Kernel_Boot\<close>, the
  processor and its page tables of \<open>Kernel_Fault\<close>, and the keyboard of \<open>Kernel_Main\<close>.
\<close>

record machine_state =
  ms_kernel :: "kernel_handler kernel_state"
  ms_vm :: vm_state
  ms_kbd :: kbd_state

text \<open>
  \<open>pd\<close> and \<open>events\<close> are the addresses of the static arrays, \<open>regs\<close> the registers of \<open>kernel_main\<close> at
  the accesses of the page-fault test.
\<close>

abbreviation greeting :: string where
  "greeting \<equiv> ''Serial port COM1 initialized successfully!\<newline>''"

text \<open>The greeting as the source spells it, with its quotes and the escaped newline.\<close>

definition greeting_spelled :: string where
  "greeting_spelled = [CHR 0x22] @ ''Serial port COM1 initialized successfully!'' @ [CHR 0x5C, CHR ''n'', CHR 0x22]"

definition kernel_start ::
  "device \<Rightarrow> (string \<Rightarrow> u32) \<Rightarrow> u32 \<Rightarrow> u32 \<Rightarrow> u32 \<Rightarrow> isr_frame_t \<Rightarrow> u32 \<Rightarrow> machine_state \<Rightarrow> machine_state res" where
  "kernel_start dev lit stack_buf pd events regs mb2_info s =
     bindR (kernel_boot dev lit stack_buf Vmm_page_fault_handler mb2_info (ms_kernel s)) (\<lambda>(boot_info, k).
     bindR (SERIAL_PRINT dev SERIAL_PORT_COM1 greeting_spelled (lit greeting) (k_mem k) (k_serial k, k_io k)) (\<lambda>(ser, tr).
     bindR (page_fault_test lit stack_buf pd regs (k_idt k) ((ms_vm s, k_pmm k), (k_mem k, k_vga k, tr)))
       (\<lambda>((vm, pm), (m, v, tr)).
     bindR (keyboard_init dev Keyboard_handler events (ms_kbd s, k_idt k, tr)) (\<lambda>(kbd, t, tr).
       ret (s\<lparr>ms_kernel := k\<lparr>k_serial := ser, k_mem := m, k_vga := v, k_io := tr, k_pmm := pm, k_idt := t\<rparr>,
              ms_vm := vm, ms_kbd := kbd\<rparr>)))))"

section \<open>Steps\<close>

lemma SERIAL_PRINT_ok:
  assumes inv: "serial_inv s" and known: "baud_of s port = Some b"
    and str: "cstring m str txt_bytes" "str \<noteq> NULL"
    and rdy: "\<And>tr. becomes dev (port + SERIAL_REG_LSR) SERIAL_LSR_THR_EMPTY tr"
  shows "\<exists>s' ext. SERIAL_PRINT dev port spelled str m (s, tr) = ret (s', tr @ ext) \<and> written_to port ext = txt_bytes"
proof -
  obtain i c where g: "serial_get_port port s = ret (Some i, s\<lparr>g_cached_lookup_result := c\<rparr>)"
    "g_serial_ports s ! i = \<lparr>sp_port = port, sp_baudrate = b\<rparr>"
    using serial_get_port_ok [OF inv, of port] known by auto
  obtain ext where "serial_write_string dev (Some \<lparr>sp_port = port, sp_baudrate = b\<rparr>) str m tr = ret (True, tr @ ext)"
    "written_to port ext = txt_bytes"
    using serial_write_string_ok [OF str, of dev "\<lparr>sp_port = port, sp_baudrate = b\<rparr>" tr] rdy by auto
  then show ?thesis using g by (simp add: SERIAL_PRINT_def)
qed

text \<open>The pages of the page directory and the identity table: low, and not reported as RAM.\<close>

definition kernel_page :: "boot_memory_region_t list \<Rightarrow> u32 \<Rightarrow> bool" where
  "kernel_page ram a \<longleftrightarrow> virtual_to_physical a \<noteq> NULL \<and> page_aligned (virtual_to_physical a) \<and>
     unat (virtual_to_physical a) < LOW_MEMORY \<and>
     (\<forall>r \<in> set ram. {unat (virtual_to_physical a)..<unat (virtual_to_physical a) + 4096} \<inter> ram_pages r = {})"

text \<open>The first RAM region has two pages in the kernel's window, page 0 not among them.\<close>

definition low_ram :: "boot_memory_region_t list \<Rightarrow> bool" where
  "low_ram ram \<longleftrightarrow> (\<exists>q qs. ram = q # qs \<and> 4096 \<le> ram_first q \<and>
     ram_first q + 8192 \<le> ram_last q \<and> ram_last q \<le> LOW_MEMORY)"

text \<open>The static event array, clear of the local event at \<open>ev\<close>.\<close>

definition event_space :: "u32 \<Rightarrow> u32 \<Rightarrow> bool" where
  "event_space events ev \<longleftrightarrow> events \<noteq> NULL \<and> unat events + 4096 \<le> 4294967296 \<and> ev \<noteq> NULL \<and>
     disjoint_ranges ev 16 events 4096"

lemma paging_ready:
  assumes pre: "vmm_preinit pd idt cpu = ret vm" and off: "\<not> bit (cr0 cpu) 31"
    and kp: "kernel_page ram pd" "kernel_page ram idt" "pd \<noteq> idt"
    and pm: "pmm_inv pm" "managed pm = (\<Union>r \<in> set ram. ram_pages r)"
  shows "vm_inv pd idt (vm, pm)" and "walk vm test_address = None"
proof -
  have st: "static_page pm (virtual_to_physical pd)" "static_page pm (virtual_to_physical idt)"
    using kp(1,2) pm(2) by (auto simp: kernel_page_def static_page_def)
  have nz: "virtual_to_physical pd \<noteq> NULL" "virtual_to_physical idt \<noteq> NULL" using kp by (simp_all add: kernel_page_def)
  obtain s' where s': "vmm_preinit pd idt cpu = ret s'" "vm_inv pd idt (s', pm)"
    "\<And>v. \<not> shared_slot (dir_index v) \<Longrightarrow> walk s' v = None"
    by (rule vmm_preinit_ok [OF off st nz kp(3) pm(1)]) blast
  then show "vm_inv pd idt (vm, pm)" "walk vm test_address = None" using pre test_page(2) by auto
qed

lemma frames_ready:
  assumes low: "low_ram ram" and pm: "pmm_inv pm" "live pm = {}"
    and first: "\<And>q qs. ram = q # qs \<Longrightarrow> ram_pages q \<noteq> {} \<Longrightarrow> \<exists>r rs. g_regions pm = r # rs \<and>
       unat (r_start r) = ram_first q \<and> unat (r_end r) = ram_last q"
  obtains a p1 where "pmm_alloc_pages 1 pm = ret (a, p1)" and "a \<noteq> NULL" and "table_ready vm p1 va"
proof -
  obtain q qs where q: "ram = q # qs" "4096 \<le> ram_first q" "ram_first q + 8192 \<le> ram_last q"
    "ram_last q \<le> LOW_MEMORY"
    using low by (auto simp: low_ram_def)
  then obtain r rs where r: "g_regions pm = r # rs" "unat (r_start r) = ram_first q" "unat (r_end r) = ram_last q"
    using first [OF q(1)] by (auto simp: ram_pages_def)
  obtain a p1 b p2 where f: "pmm_alloc_pages 1 pm = ret (a, p1)" "pmm_alloc_pages 1 p1 = ret (b, p2)"
    "unat (r_start r) \<le> unat a" "unat (r_start r) \<le> unat b" "unat b < unat (r_end r)"
    by (rule first_two_frames [OF pm(1) r(1) pm(2)]) (use q r in auto)
  have "a \<noteq> NULL" "b \<noteq> NULL" using f q r by auto
  moreover have "unat b < LOW_MEMORY" using f(5) q(4) r(3) by simp
  ultimately show thesis using that f(1,2) by (auto simp: table_ready_def)
qed

lemma keyboard_ready:
  assumes "idt_inv t" and "event_space events ev" and "event_space events p"
  obtains s' t' tr' where "keyboard_init dev h events (s, t, tr) = ret (s', t', tr')" and "kbd_inv ev s'"
    and "kbd_inv p s'" and "idt_inv t'" and "ks_queue (kbd_abs s' m) = []" and "g_irq_handlers t' ! 1 = Some h"
    and "g_isr_handlers t' = g_isr_handlers t"
proof -
  obtain s' t' v where k: "keyboard_init dev h events (s, t, tr) = ret (s', t', tr @ [In PIC1_DATA (dev tr PIC1_DATA), Out PIC1_DATA v])"
    "kbd_inv ev s'" "idt_inv t'" "ks_queue (kbd_abs s' m) = []" "g_irq_handlers t' = (g_irq_handlers t)[1 := Some h]"
    using keyboard_init_ready [of t events ev dev h s tr m] assms(1,2) unfolding event_space_def by blast
  have "kbd_inv p s'" using keyboard_init_ready [of t events p dev h s tr m] assms(1,3) k(1) by (auto simp: event_space_def)
  moreover have "g_irq_handlers t' ! 1 = Some h" using k(5) assms(1) by (simp add: idt_inv_def)
  moreover have "g_isr_handlers t' = g_isr_handlers t"
    using k(1) by (auto simp: keyboard_init_def Let_def bindR_eq_ret_iff irq_install_def split: if_splits)
  ultimately show thesis using that k by blast
qed

section \<open>The start\<close>

lemma literal_string:
  assumes "lits_known S lit" and "console_ok S stack_buf (m, v, tr)" and "f \<in> set boot_literals"
  shows "S (lit f) = Some (bytes_of f)" and "cstring m (lit f) (bytes_of f)" and "lit f \<noteq> NULL"
proof -
  show S: "S (lit f) = Some (bytes_of f)" using assms(1,3) by (simp add: lits_known_def)
  then show "cstring m (lit f) (bytes_of f)" "lit f \<noteq> NULL"
    using assms(2) by (simp_all add: console_ok_def reads_ok_def)
qed

lemma greet_literals:
  "greeting \<in> set boot_literals" "test_format \<in> set boot_literals"
  by (simp_all add: boot_literals_def)

text \<open>
  The kernel starts. \<open>vmm_preinit\<close> has run; the loader's information structure is well formed, its
  RAM regions do not overlap, leave out the kernel's page tables and begin with two pages the
  kernel's window shows; the early heap has room; the first serial port passes its self-test and
  keeps transmitting. Then \<open>kernel_main\<close> reaches its loop: every step before it returns. The
  page-fault test has faulted, been served and printed its message, and its value is in memory; the
  paging structures and the allocator satisfy their invariant; both handlers are installed; and
  keyboard and screen are in a state from which the echo loop works, with no event waiting.
\<close>

lemma kernel_start_reaches_loop:
  fixes s :: machine_state and ts :: "mb2_tag list"
  defines "k \<equiv> ms_kernel s" and "ram \<equiv> v_ram (view_tags ts)"
  assumes info: "info_at (k_mem k) mb limit ts" "apart mb limit (serial_emm (k_serial k))"
      "unat (g_end (serial_emm (k_serial k))) + (unat limit - unat mb) < 4294967296"
    and heap: "emm_inv (serial_emm (k_serial k))" "0 < g_cursor (serial_emm (k_serial k))"
      "24 + info_cost ts + ram_metadata ram \<le> room (serial_emm (k_serial k))"
    and mem: "boot_memory (k_mem k) stack_buf (serial_emm (k_serial k)) lit" and regs: "g_regions (k_pmm k) = []"
    and ok: "ram_list_ok ram" and low: "low_ram ram" and idt: "idt_inv (k_idt k)"
    and serial: "serial_inv (k_serial k)" "com1_works dev (k_serial k) (k_io k)"
      "\<And>tr. becomes dev (SERIAL_PORT_COM1 + SERIAL_REG_LSR) SERIAL_LSR_THR_EMPTY tr"
    and paging: "vmm_preinit pd itab cpu = ret (ms_vm s)" "\<not> bit (cr0 cpu) 31"
      "kernel_page ram pd" "kernel_page ram itab" "pd \<noteq> itab"
    and events: "event_space events ev" "event_space events p"
  shows "\<exists>s' k' a scr col. kernel_start dev lit stack_buf pd events frame mb s = ret s' \<and> k' = ms_kernel s' \<and>
    vm_inv pd itab (ms_vm s', k_pmm k') \<and>
    walk (ms_vm s') test_address = Some a \<and> rd32 (phys (ms_vm s')) a = 100 \<and>
    vga_abs (k_vga k') = fold (\<lambda>ch. scr_char ch col) test_output scr \<and>
    g_isr_handlers (k_idt k') ! 14 = Some Vmm_page_fault_handler \<and>
    g_irq_handlers (k_idt k') ! 1 = Some Keyboard_handler \<and>
    main_inv ev p (ms_kbd s', k_mem k', k_vga k', k_io k') \<and>
    ks_queue (fst (main_abs (ms_kbd s', k_mem k', k_vga k', k_io k'))) = []"
proof -
  obtain bi k1 where run: "kernel_boot dev lit stack_buf Vmm_page_fault_handler mb k = ret (bi, k1)"
    and booted: "booted lit stack_buf Vmm_page_fault_handler ram k1"
    and com1: "serial_inv (k_serial k1)" "baud_of (k_serial k1) SERIAL_PORT_COM1 = Some 115200"
    using kernel_boot_ok [OF info(1,2) heap(1,2) info(3) mem regs ok [unfolded ram_def] heap(3) [unfolded ram_def] idt,
        of dev Vmm_page_fault_handler] serial(1,2) by (auto simp: ram_def)
  note b = booted [unfolded booted_def]
  obtain S where S: "lits_known S lit" "console_ok S stack_buf (k_mem k1, k_vga k1, k_io k1)" using b by blast
  have pm: "pmm_inv (k_pmm k1)" "live (k_pmm k1) = {}" "managed (k_pmm k1) = (\<Union>r \<in> set ram. ram_pages r)"
    and t1: "g_isr_handlers (k_idt k1) ! 14 = Some Vmm_page_fault_handler" "idt_inv (k_idt k1)" using b by simp_all
  obtain ser ext where sp: "SERIAL_PRINT dev SERIAL_PORT_COM1 greeting_spelled (lit greeting) (k_mem k1) (k_serial k1, k_io k1) = ret (ser, k_io k1 @ ext)"
    using SERIAL_PRINT_ok [OF com1 literal_string(2,3) [OF S greet_literals(1)] serial(3)] by blast
  note pg = paging_ready [OF paging pm(1,3)]
  obtain a p1 where fr: "pmm_alloc_pages 1 (k_pmm k1) = ret (a, p1)" "a \<noteq> NULL"
    "table_ready (ms_vm s) p1 test_address"
    by (rule frames_ready [OF low pm(1,2)]) (use b in blast)+
  have c: "console_ok S stack_buf (k_mem k1, k_vga k1, k_io k1 @ ext)" using S(2) by (simp add: console_ok_def)
  have srv: "fault_served (k_idt k1)" using t1 by (simp add: fault_served_def idt_inv_def)
  obtain vm pm m v tr where t: "page_fault_test lit stack_buf pd frame (k_idt k1)
      ((ms_vm s, k_pmm k1), (k_mem k1, k_vga k1, k_io k1 @ ext)) = ret ((vm, pm), (m, v, tr))"
    "vm_inv pd itab (vm, pm)" "walk vm test_address = Some a" "rd32 (phys vm) a = 100"
    "console_ok S stack_buf (m, v, tr)" "printed test_output stack_buf (k_mem k1, k_vga k1, k_io k1 @ ext) (m, v, tr)"
    using page_fault_test_ok [where lit = lit, OF pg(1) srv pg(2) fr c literal_string(1) [OF S greet_literals(2)],
        of frame] by (metis prod.exhaust)
  obtain kb t' tr' where kb: "keyboard_init dev Keyboard_handler events (ms_kbd s, k_idt k1, tr) = ret (kb, t', tr')"
    "kbd_inv ev kb" "kbd_inv p kb" "ks_queue (kbd_abs kb m) = []" "g_irq_handlers t' ! 1 = Some Keyboard_handler"
    "g_isr_handlers t' = g_isr_handlers (k_idt k1)"
    by (rule keyboard_ready [OF t1(2) events])
  let ?k = "k1\<lparr>k_serial := ser, k_mem := m, k_vga := v, k_io := tr', k_pmm := pm, k_idt := t'\<rparr>"
  let ?s = "s\<lparr>ms_kernel := ?k, ms_vm := vm, ms_kbd := kb\<rparr>"
  have "kernel_start dev lit stack_buf pd events frame mb s = ret ?s"
    using run sp t(1) kb(1) by (simp add: kernel_start_def k_def)
  moreover have "length test_output < 256" "0 \<notin> set test_output" by (simp_all add: test_output_def bytes_of_def)
  moreover from this have "vga_abs v = fold (\<lambda>ch. scr_char ch (g_current_color (k_vga k1))) test_output (vga_abs (k_vga k1))"
    using t(6) by (simp add: printed_def)
  moreover have "vga_inv v" using t(5) by (simp add: console_ok_def)
  ultimately show ?thesis using t(2-4) kb(2-6) t1(1)
    by (intro exI [of _ ?s] exI [of _ ?k] exI [of _ a] exI [of _ "vga_abs (k_vga k1)"]
        exI [of _ "g_current_color (k_vga k1)"]) (simp add: main_inv_def main_abs_def)
qed

text \<open>The machine of the boot example, its page tables between the two RAM regions.\<close>

definition demo_start :: machine_state where
  "demo_start = \<lparr>ms_kernel = demo_machine demo_handlers, ms_vm = demo_vm, ms_kbd = demo_kbd\<rparr>"

lemma demo_start_serial:
  "serial_inv (k_serial (demo_machine t))" "com1_works demo_loopback (k_serial (demo_machine t)) tr"
  "becomes demo_loopback (SERIAL_PORT_COM1 + SERIAL_REG_LSR) SERIAL_LSR_THR_EMPTY tr"
proof -
  show "serial_inv (k_serial (demo_machine t))" by (simp add: serial_inv_def demo_machine_def)
  show "com1_works demo_loopback (k_serial (demo_machine t)) tr"
    by (simp add: com1_works_def demo_machine_def serial_init_port_def demo_loopback_def try_write_char_def is_transmit_empty_def
        try_read_char_def serial_received_def inb_def Let_def serial_regs SERIAL_LSR_THR_EMPTY_def SERIAL_PORT_COM1_def
        SERIAL_LSR_DATA_READY_def SERIAL_TEST_BYTE_def upsert_serial_config_def emm_alloc_def sizeof_serial_port_t_def demo_heap_def)
  show "becomes demo_loopback (SERIAL_PORT_COM1 + SERIAL_REG_LSR) SERIAL_LSR_THR_EMPTY tr"
    unfolding becomes_def
    by (rule exI [of _ 0]) (simp add: demo_loopback_def SERIAL_PORT_COM1_def SERIAL_REG_LSR_def SERIAL_LSR_THR_EMPTY_def)
qed

lemma demo_start_ram:
  "low_ram (v_ram (view_tags demo_tags))" "kernel_page (v_ram (view_tags demo_tags)) 0xC0300000"
  "kernel_page (v_ram (view_tags demo_tags)) 0xC0301000"
  by (simp_all add: demo_info_view(1) low_ram_def kernel_page_def ram_pages_def ram_start_def ram_end_def ram_first_def
      ram_last_def LOW_MEMORY_def virtual_to_physical_def KERNEL_VIRTUAL_BASE_def page_aligned_def)

end
