(* ===== verification/Cpu.thy ===== *)
theory Cpu
  imports Interrupts
begin

text \<open>
  The processor as the assembly files of the kernel use it: registers, selectors, table registers and
  the linear memory that holds the stack; the instructions that occur in
  \<^verbatim>\<open>kernel/src/arch/x86/idt/idt.s\<close>, \<^verbatim>\<open>kernel/src/arch/x86/gdt/gdt.s\<close> and the files under
  \<^verbatim>\<open>kernel/src/arch/x86/boot\<close>; the calls of C
  functions; and the two routines that load the descriptor tables.

  A C function that assembly calls is the model's function on the kernel's own state; what its
  compiled code does to registers and stack is the parameter \<open>body\<close>, of which only the calling
  convention is assumed (\<open>cdecl\<close>).
\<close>

section \<open>The processor\<close>

datatype reg32 = EAX | ECX | EDX | EBX | ESP | EBP | ESI | EDI

datatype sreg = CS | DS | ES | FS | GS | SS

record cpu =
  gpr :: "reg32 \<Rightarrow> u32"
  seg :: "sreg \<Rightarrow> u16"
  c_eip :: u32
  c_eflags :: u32
  c_cr2 :: u32
  c_gdtr :: table_ptr
  c_idtr :: table_ptr
  c_mem :: mem

datatype c_function = Isr_handler | Irq_handler

text \<open>
  \<open>Mov_reg16_imm\<close> writes the lower half of a register; \<open>Mov_reg_seg\<close> extends the selector with
  zeros, \<open>Mov_seg_reg\<close> takes the lower half. \<open>Mov_reg_mem r b d\<close> loads from \<open>[b + d]\<close>; \<open>Far_jmp s\<close>
  jumps to the next instruction with \<open>s\<close> in the code selector.
\<close>

datatype instr =
    Push_imm u32 | Push_reg reg32 | Pop_reg reg32 | Pusha | Popa
  | Mov_reg_seg reg32 sreg | Mov_seg_reg sreg reg32 | Mov_reg_cr2 reg32 | Mov_reg16_imm reg32 u16
  | Mov_reg_reg reg32 reg32 | Mov_reg_mem reg32 reg32 u32 | Lgdt reg32 | Lidt reg32 | Far_jmp u16 | Ret
  | Add_imm reg32 u32 | Cli | Sti | Iret | Call_fn c_function

definition push :: "u32 \<Rightarrow> cpu \<Rightarrow> cpu" where
  "push v c = c\<lparr>gpr := (gpr c)(ESP := gpr c ESP - 4), c_mem := wr32 (gpr c ESP - 4) v (c_mem c)\<rparr>"

definition pop :: "cpu \<Rightarrow> u32 \<times> cpu" where
  "pop c = (rd32 (c_mem c) (gpr c ESP), c\<lparr>gpr := (gpr c)(ESP := gpr c ESP + 4)\<rparr>)"

definition set_reg :: "reg32 \<Rightarrow> u32 \<Rightarrow> cpu \<Rightarrow> cpu" where
  "set_reg r v c = c\<lparr>gpr := (gpr c)(r := v)\<rparr>"

definition set_seg :: "sreg \<Rightarrow> u16 \<Rightarrow> cpu \<Rightarrow> cpu" where
  "set_seg r v c = c\<lparr>seg := (seg c)(r := v)\<rparr>"

definition pop_reg :: "reg32 \<Rightarrow> cpu \<Rightarrow> cpu" where
  "pop_reg r c = (case pop c of (v, c) \<Rightarrow> set_reg r v c)"

text \<open>The order of \<open>pusha\<close> and \<open>popa\<close>; the stack pointer is stored but not restored.\<close>

definition pusha_regs :: "reg32 list" where
  "pusha_regs = [EAX, ECX, EDX, EBX, ESP, EBP, ESI, EDI]"

definition pusha :: "cpu \<Rightarrow> cpu" where
  "pusha c = fold (\<lambda>r. push (gpr c r)) pusha_regs c"

definition popa :: "cpu \<Rightarrow> cpu" where
  "popa c = fold (\<lambda>r. if r = ESP then snd \<circ> pop else pop_reg r) (rev pusha_regs) c"

text \<open>
  The status flags an addition sets: carry, parity of the low byte, auxiliary carry, zero, sign and
  overflow at their places in the register.
\<close>

definition add_flags :: "u32 \<Rightarrow> u32 \<Rightarrow> u32" where
  "add_flags a b =
     (let r = a + b;
          flag = (\<lambda>k p. push_bit k (if p then 1 else 0 :: u32))
      in flag 0 (unat a + unat b \<ge> 4294967296)
         OR flag 2 (even (length (List.filter (\<lambda>i. bit r i) [0..<8])))
         OR flag 4 (unat a mod 16 + unat b mod 16 \<ge> 16)
         OR flag 6 (r = 0) OR flag 7 (bit r 31)
         OR flag 11 (bit a 31 = bit b 31 \<and> bit r 31 \<noteq> bit a 31))"

definition set_flags :: "u32 \<Rightarrow> u32 \<Rightarrow> cpu \<Rightarrow> cpu" where
  "set_flags m v c = c\<lparr>c_eflags := (c_eflags c AND NOT m) OR v\<rparr>"

text \<open>The operand of \<open>lgdt\<close> and \<open>lidt\<close>: the limit in two bytes, then the base.\<close>

definition load_ptr :: "mem \<Rightarrow> u32 \<Rightarrow> table_ptr" where
  "load_ptr m p = \<lparr>ptr_limit = ucast (m p) OR push_bit 8 (ucast (m (p + 1))), ptr_base = rd32 m (p + 2)\<rparr>"

definition INTERRUPT_FLAG :: u32 where
  "INTERRUPT_FLAG = push_bit 9 1"

text \<open>\<open>iret\<close> between two pieces of kernel code: no change of privilege, so no stack switch.\<close>

definition iret :: "cpu \<Rightarrow> cpu" where
  "iret c =
     (case pop c of (a, c) \<Rightarrow> case pop c of (s, c) \<Rightarrow> case pop c of (f, c) \<Rightarrow>
        (set_seg CS (ucast s) c)\<lparr>c_eip := a, c_eflags := f\<rparr>)"

section \<open>Calling C\<close>

definition load_frame :: "mem \<Rightarrow> u32 \<Rightarrow> isr_frame_t" where
  "load_frame m p =
     \<lparr>cr2 = rd32 m p, fr_ds = rd32 m (p + 4),
      edi = rd32 m (p + 8), esi = rd32 m (p + 12), ebp = rd32 m (p + 16), esp = rd32 m (p + 20),
      ebx = rd32 m (p + 24), edx = rd32 m (p + 28), ecx = rd32 m (p + 32), eax = rd32 m (p + 36),
      int_no = rd32 m (p + 40), err_code = rd32 m (p + 44),
      eip = rd32 m (p + 48), fr_cs = rd32 m (p + 52), eflags = rd32 m (p + 56),
      user_esp = rd32 m (p + 60), fr_ss = rd32 m (p + 64)\<rparr>"

text \<open>
  The calling convention: compiled code returns with its return address on top of the stack, with
  the registers that belong to the caller and the selectors as they were. It may overwrite its own
  part of the stack and its argument, not the caller's.
\<close>

definition cdecl :: "(cpu \<Rightarrow> cpu) \<Rightarrow> bool" where
  "cdecl body \<longleftrightarrow> (\<forall>c. (\<forall>r. r \<in> {ESP, EBX, EBP, ESI, EDI} \<longrightarrow> gpr (body c) r = gpr c r) \<and>
     seg (body c) = seg c \<and>
     (\<forall>x. unat (gpr c ESP) + 8 \<le> unat x \<longrightarrow> c_mem (body c) x = c_mem c x))"

text \<open>
  \<open>call\<close> pushes the address \<open>return_to\<close> of the next instruction; the function finds its argument above it.
  Its return pops the address.
\<close>

definition call_c ::
  "(cpu \<Rightarrow> cpu) \<Rightarrow> u32 \<Rightarrow> (isr_frame_t \<Rightarrow> 's \<Rightarrow> 's res) \<Rightarrow> cpu \<times> 's \<Rightarrow> (cpu \<times> 's) res" where
  "call_c body return_to f = (\<lambda>(c, st).
     let c = push return_to c
     in bindR (f (load_frame (c_mem c) (rd32 (c_mem c) (gpr c ESP + 4))) st) (\<lambda>st.
          ret (snd (pop (body c)), st)))"

fun exec1 ::
  "(cpu \<Rightarrow> cpu) \<Rightarrow> u32 \<Rightarrow> (c_function \<Rightarrow> isr_frame_t \<Rightarrow> 's \<Rightarrow> 's res) \<Rightarrow> instr \<Rightarrow> cpu \<times> 's \<Rightarrow> (cpu \<times> 's) res" where
  "exec1 body return_to fn (Push_imm v) (c, st) = ret (push v c, st)"
| "exec1 body return_to fn (Push_reg r) (c, st) = ret (push (gpr c r) c, st)"
| "exec1 body return_to fn (Pop_reg r) (c, st) = ret (pop_reg r c, st)"
| "exec1 body return_to fn Pusha (c, st) = ret (pusha c, st)"
| "exec1 body return_to fn Popa (c, st) = ret (popa c, st)"
| "exec1 body return_to fn (Mov_reg_seg r s) (c, st) = ret (set_reg r (ucast (seg c s)) c, st)"
| "exec1 body return_to fn (Mov_seg_reg s r) (c, st) = ret (set_seg s (ucast (gpr c r)) c, st)"
| "exec1 body return_to fn (Mov_reg_cr2 r) (c, st) = ret (set_reg r (c_cr2 c) c, st)"
| "exec1 body return_to fn (Mov_reg16_imm r v) (c, st) = ret (set_reg r ((gpr c r AND 0xFFFF0000) OR ucast v) c, st)"
| "exec1 body return_to fn (Mov_reg_reg r s) (c, st) = ret (set_reg r (gpr c s) c, st)"
| "exec1 body return_to fn (Mov_reg_mem r b d) (c, st) = ret (set_reg r (rd32 (c_mem c) (gpr c b + d)) c, st)"
| "exec1 body return_to fn (Lgdt r) (c, st) = ret (c\<lparr>c_gdtr := load_ptr (c_mem c) (gpr c r)\<rparr>, st)"
| "exec1 body return_to fn (Lidt r) (c, st) = ret (c\<lparr>c_idtr := load_ptr (c_mem c) (gpr c r)\<rparr>, st)"
| "exec1 body return_to fn (Far_jmp s) (c, st) = ret (set_seg CS s c, st)"
| "exec1 body return_to fn Ret (c, st) = (case pop c of (a, c) \<Rightarrow> ret (c\<lparr>c_eip := a\<rparr>, st))"
| "exec1 body return_to fn (Add_imm r v) (c, st) =
     ret (set_flags 0x8D5 (add_flags (gpr c r) v) (set_reg r (gpr c r + v) c), st)"
| "exec1 body return_to fn Cli (c, st) = ret (set_flags INTERRUPT_FLAG 0 c, st)"
| "exec1 body return_to fn Sti (c, st) = ret (set_flags INTERRUPT_FLAG INTERRUPT_FLAG c, st)"
| "exec1 body return_to fn Iret (c, st) = ret (iret c, st)"
| "exec1 body return_to fn (Call_fn f) (c, st) = call_c body return_to (fn f) (c, st)"

fun exec ::
  "(cpu \<Rightarrow> cpu) \<Rightarrow> u32 \<Rightarrow> (c_function \<Rightarrow> isr_frame_t \<Rightarrow> 's \<Rightarrow> 's res) \<Rightarrow> instr list \<Rightarrow> cpu \<times> 's \<Rightarrow> (cpu \<times> 's) res" where
  "exec body return_to fn [] st = ret st"
| "exec body return_to fn (i # is) st = bindR (exec1 body return_to fn i st) (exec body return_to fn is)"

lemma exec_append: "exec body return_to fn (xs @ ys) st = bindR (exec body return_to fn xs st) (exec body return_to fn ys)"
  by (induction xs arbitrary: st) (simp_all add: bindR_assoc cong: bindR_cong)

section \<open>The stack\<close>

text \<open>Memory after pushing \<open>vs\<close>, the first value first, from stack pointer \<open>s\<close>.\<close>

fun stack_mem :: "u32 \<Rightarrow> u32 list \<Rightarrow> mem \<Rightarrow> mem" where
  "stack_mem s [] m = m"
| "stack_mem s (v # vs) m = stack_mem (s - 4) vs (wr32 (s - 4) v m)"

lemma unat_stack: "4 * k \<le> unat (s :: u32) \<Longrightarrow> unat (s - of_nat (4 * k)) = unat s - 4 * k"
  using unat_u32_lt [of s] by (subst unat_sub_nowrap) (simp_all only: unat_of_nat_u32 le_less_trans)

lemma wr32_elsewhere: "(\<And>i. i < 4 \<Longrightarrow> x \<noteq> a + of_nat i) \<Longrightarrow> wr32 a v m x = m x"
proof -
  assume h: "\<And>i. i < 4 \<Longrightarrow> x \<noteq> a + of_nat i"
  from h [of 0] h [of 1] h [of 2] h [of 3] show ?thesis by (simp add: wr32_def)
qed

lemma wr32_above: "4 \<le> unat (s :: u32) \<Longrightarrow> unat s \<le> unat x \<Longrightarrow> wr32 (s - 4) v m x = m x"
proof (rule wr32_elsewhere)
  fix i :: nat assume h: "4 \<le> unat s" "unat s \<le> unat x" "i < 4"
  have "unat (s - 4 + of_nat i) < unat s"
    using h unat_u32_lt [of s] unat_stack [of 1 s] by (subst unat_add_nowrap) (simp_all add: unat_of_nat_u32)
  then show "x \<noteq> s - 4 + of_nat i" using h by auto
qed

lemma stack_mem_above: "4 * length vs \<le> unat s \<Longrightarrow> unat s \<le> unat x \<Longrightarrow> stack_mem s vs m x = m x"
proof (induction vs arbitrary: s m)
  case (Cons v vs)
  have "unat (s - 4) = unat s - 4" using unat_stack [of 1 s] Cons.prems by simp
  then show ?case using Cons wr32_above [of s x] by simp
qed simp

lemma rd32_above:
  assumes "unat a + 4 \<le> 4294967296" and "unat s \<le> unat a" and "\<And>x. unat s \<le> unat x \<Longrightarrow> m x = m' x"
  shows "rd32 m a = rd32 m' a"
proof (rule rd32_cong)
  fix i :: nat assume "i < 4"
  then have "unat (a + of_nat i) = unat a + i" using assms(1) by (subst unat_add_nowrap) (simp_all add: unat_of_nat_u32)
  then show "m (a + of_nat i) = m' (a + of_nat i)" using assms(2,3) by simp
qed

lemma stack_mem_read:
  "4 * length vs \<le> unat s \<Longrightarrow> i < length vs \<Longrightarrow> rd32 (stack_mem s vs m) (s - of_nat (4 * Suc i)) = vs ! i"
proof (induction vs arbitrary: s m i)
  case (Cons v vs)
  have u: "unat (s - 4) = unat s - 4" using unat_stack [of 1 s] Cons.prems by simp
  show ?case
  proof (cases i)
    case 0
    have "rd32 (stack_mem (s - 4) vs (wr32 (s - 4) v m)) (s - 4) = rd32 (wr32 (s - 4) v m) (s - 4)"
      using stack_mem_above [of vs "s - 4"] Cons.prems u unat_u32_lt [of s] by (intro rd32_above [where s = "s - 4"]) simp_all
    then show ?thesis using 0 by (simp add: rd32_wr32_same)
  next
    case (Suc j)
    then show ?thesis using Cons.IH [of "s - 4" j] Cons.prems u by (simp add: algebra_simps)
  qed
qed simp

lemma fold_push:
  "fold push vs c = c\<lparr>gpr := (gpr c)(ESP := gpr c ESP - of_nat (4 * length vs)),
     c_mem := stack_mem (gpr c ESP) vs (c_mem c)\<rparr>"
  by (induction vs arbitrary: c) (simp_all add: push_def algebra_simps)

lemma stack_mem_append: "stack_mem s (xs @ ys) m = stack_mem (s - of_nat (4 * length xs)) ys (stack_mem s xs m)"
  by (induction xs arbitrary: s m) (simp_all add: algebra_simps)

section \<open>Symbolic execution\<close>

lemma pusha_push: "pusha c = fold push (map (gpr c) pusha_regs) c"
  by (simp add: pusha_def fold_map comp_def)

lemmas run_simps = set_reg_def set_seg_def set_flags_def push_def pop_def pop_reg_def pusha_push popa_def pusha_regs_def iret_def

lemma selector_bits: "ucast (a AND 0xFFFF0000 OR ucast v) = (v :: u16)" for a :: u32
proof -
  have m: "0xFFFF0000 = (push_bit 16 (mask 16) :: u32)" by (simp add: mask_eq_exp_minus_1 push_bit_eq_mult)
  show ?thesis by (rule bit_word_eqI) (auto simp: m bit_simps)
qed

lemma selector_back: "ucast (ucast v :: u32) = (v :: u16)"
  by (rule bit_word_eqI) (auto simp: bit_simps)

section \<open>Loading the tables\<close>

definition gdt_load_routine :: "instr list" where
  "gdt_load_routine =
     [Mov_reg_mem EAX ESP 4, Lgdt EAX,
      Mov_reg16_imm EAX 0x10, Mov_seg_reg DS EAX, Mov_seg_reg ES EAX, Mov_seg_reg FS EAX, Mov_seg_reg GS EAX,
      Mov_seg_reg SS EAX,
      Far_jmp 0x08, Ret]"

definition idt_load_routine :: "instr list" where
  "idt_load_routine = [Mov_reg_mem EAX ESP 4, Lidt EAX, Sti, Ret]"

text \<open>
  Called with the address of a table pointer above the return address, \<open>gdt_load\<close> loads the table,
  puts the kernel's data selector into every data segment and its code selector into \<open>cs\<close>; \<open>idt_load\<close>
  loads the table and enables interrupts. Both return to the caller and change nothing else but \<open>eax\<close>.
\<close>

lemma gdt_load_runs:
  assumes "rd32 (c_mem c) (gpr c ESP + 4) = p" and "rd32 (c_mem c) (gpr c ESP) = a"
  shows "\<exists>x. exec body return_to fn gdt_load_routine (c, st) =
    ret (c\<lparr>c_gdtr := load_ptr (c_mem c) p, gpr := (gpr c)(EAX := x, ESP := gpr c ESP + 4), c_eip := a,
           seg := (seg c)(DS := 0x10, ES := 0x10, FS := 0x10, GS := 0x10, SS := 0x10, CS := 0x08)\<rparr>, st)"
  using assms selector_bits [of p "0x10"]
  by (intro exI [of _ "p AND 0xFFFF0000 OR 0x10"]) (simp add: gdt_load_routine_def run_simps)

lemma idt_load_runs:
  assumes "rd32 (c_mem c) (gpr c ESP + 4) = p" and "rd32 (c_mem c) (gpr c ESP) = a"
  shows "exec body return_to fn idt_load_routine (c, st) =
    ret (c\<lparr>c_idtr := load_ptr (c_mem c) p, gpr := (gpr c)(EAX := p, ESP := gpr c ESP + 4), c_eip := a,
           c_eflags := c_eflags c OR INTERRUPT_FLAG\<rparr>, st)"
proof -
  have "f AND NOT INTERRUPT_FLAG OR INTERRUPT_FLAG = f OR INTERRUPT_FLAG" for f
    by (rule bit_word_eqI) (auto simp: bit_simps)
  then show ?thesis using assms by (simp add: idt_load_routine_def run_simps)
qed

end
