(* ===== verification/Interrupt_Entry.thy ===== *)
theory Interrupt_Entry
  imports Cpu
begin

text \<open>
  \<^verbatim>\<open>kernel/src/arch/x86/idt/idt.s\<close>: the entry points of the 48 gates, instruction by
  instruction, from the moment the processor takes an interrupt to its \<open>iret\<close>, and the theorem that the
  code they interrupt does not notice.
\<close>

section \<open>The stubs\<close>

text \<open>\<open>jmp isr_common_stub\<close> continues with the common part.\<close>

definition save_context :: "instr list" where
  "save_context =
     [Pusha,
      Mov_reg_seg EAX DS, Push_reg EAX,
      Mov_reg_cr2 EAX, Push_reg EAX,
      Mov_reg16_imm EAX 0x10, Mov_seg_reg DS EAX, Mov_seg_reg ES EAX, Mov_seg_reg FS EAX, Mov_seg_reg GS EAX,
      Push_reg ESP]"

definition restore_context :: "instr list" where
  "restore_context =
     [Add_imm ESP 8, Pop_reg EBX,
      Mov_seg_reg DS EBX, Mov_seg_reg ES EBX, Mov_seg_reg FS EBX, Mov_seg_reg GS EBX,
      Popa, Add_imm ESP 8, Sti, Iret]"

definition isr_common_stub :: "instr list" where
  "isr_common_stub = save_context @ [Call_fn Isr_handler] @ restore_context"

definition irq_common_stub :: "instr list" where
  "irq_common_stub = save_context @ [Call_fn Irq_handler] @ restore_context"

definition isr_error_stub :: "u32 \<Rightarrow> instr list" where
  "isr_error_stub num = [Cli, Push_imm num] @ isr_common_stub"

definition isr_no_error_stub :: "u32 \<Rightarrow> instr list" where
  "isr_no_error_stub num = [Cli, Push_imm 0, Push_imm num] @ isr_common_stub"

definition irq_stub :: "u32 \<Rightarrow> instr list" where
  "irq_stub int_num = [Cli, Push_imm 0, Push_imm int_num] @ irq_common_stub"

text \<open>The two tables, in the order of the file.\<close>

definition g_isr_stub_table :: "instr list list" where
  "g_isr_stub_table =
     [isr_no_error_stub 0, isr_no_error_stub 1, isr_no_error_stub 2, isr_no_error_stub 3,
      isr_no_error_stub 4, isr_no_error_stub 5, isr_no_error_stub 6, isr_no_error_stub 7,
      isr_error_stub 8, isr_no_error_stub 9, isr_error_stub 10, isr_error_stub 11,
      isr_error_stub 12, isr_error_stub 13, isr_error_stub 14, isr_no_error_stub 15,
      isr_no_error_stub 16, isr_error_stub 17, isr_no_error_stub 18, isr_no_error_stub 19,
      isr_no_error_stub 20, isr_no_error_stub 21, isr_no_error_stub 22, isr_no_error_stub 23,
      isr_no_error_stub 24, isr_no_error_stub 25, isr_no_error_stub 26, isr_no_error_stub 27,
      isr_no_error_stub 28, isr_no_error_stub 29, isr_error_stub 30, isr_no_error_stub 31]"

definition g_irq_stub_table :: "instr list list" where
  "g_irq_stub_table =
     [irq_stub 32, irq_stub 33, irq_stub 34, irq_stub 35, irq_stub 36, irq_stub 37, irq_stub 38, irq_stub 39,
      irq_stub 40, irq_stub 41, irq_stub 42, irq_stub 43, irq_stub 44, irq_stub 45, irq_stub 46, irq_stub 47]"

section \<open>Taking an interrupt\<close>

text \<open>
  What the processor does at the same privilege level: it pushes flags, code selector and the
  address to continue at, for some exceptions an error code, clears the trap, nested-task, resume and
  virtual-mode flags and, through an interrupt gate, the interrupt flag.
\<close>

definition deliver :: "idt_entry_t \<Rightarrow> u32 option \<Rightarrow> cpu \<Rightarrow> cpu" where
  "deliver gate err c =
     (let c1 = push (c_eip c) (push (ucast (seg c CS)) (push (c_eflags c) c));
          c2 = set_flags 0x34100 0 (set_seg CS (selector gate) c1)\<lparr>c_eip := gate_offset gate\<rparr>;
          c3 = (if attributes gate AND 0x0F = 0x0E then set_flags INTERRUPT_FLAG 0 c2 else c2)
      in case err of None \<Rightarrow> c3 | Some e \<Rightarrow> push e c3)"

text \<open>The code at an address: \<open>isr_at\<close> and \<open>irq_at\<close> are the addresses the linker gave the stubs.\<close>

definition code_at :: "(nat \<Rightarrow> u32) \<Rightarrow> (nat \<Rightarrow> u32) \<Rightarrow> u32 \<Rightarrow> instr list option" where
  "code_at isr_at irq_at a =
     map_of (map (\<lambda>v. (isr_at v, g_isr_stub_table ! v)) [0..<32] @ map (\<lambda>v. (irq_at v, g_irq_stub_table ! v)) [0..<16]) a"

definition interrupt ::
  "(nat \<Rightarrow> u32) \<Rightarrow> (nat \<Rightarrow> u32) \<Rightarrow> (cpu \<Rightarrow> cpu) \<Rightarrow> u32 \<Rightarrow> (c_function \<Rightarrow> isr_frame_t \<Rightarrow> 's \<Rightarrow> 's res) \<Rightarrow>
   'h idt_state \<Rightarrow> nat \<Rightarrow> u32 option \<Rightarrow> cpu \<times> 's \<Rightarrow> (cpu \<times> 's) res" where
  "interrupt isr_at irq_at body return_to fn t v err = (\<lambda>(c, st).
     case idtr t of
       None \<Rightarrow> undef ''idtr''
     | Some p \<Rightarrow>
         if unat (ptr_limit p) < 8 * v + 7 then undef ''vector''
         else
           let gate = g_idt_entries t ! v
           in case code_at isr_at irq_at (gate_offset gate) of
                None \<Rightarrow> undef ''stub''
              | Some code \<Rightarrow> exec body return_to fn code (deliver gate err c, st))"

definition c_code ::
  "(string \<Rightarrow> u32) \<Rightarrow> ('h \<Rightarrow> isr_frame_t \<Rightarrow> 's \<times> io \<Rightarrow> ('s \<times> io) res) \<Rightarrow> 'h idt_state \<Rightarrow>
   c_function \<Rightarrow> isr_frame_t \<Rightarrow> 's \<times> io \<Rightarrow> ('s \<times> io) res" where
  "c_code lit call t f frame st =
     (case f of Isr_handler \<Rightarrow> isr_handler lit call frame t st | Irq_handler \<Rightarrow> irq_handler call frame t st)"

section \<open>Saving and restoring the context\<close>

text \<open>What lies on the stack when the C function runs, in the order it was pushed.\<close>

definition context_words :: "u32 \<Rightarrow> u32 \<Rightarrow> cpu \<Rightarrow> u32 list" where
  "context_words n e c =
     [c_eflags c, ucast (seg c CS), c_eip c, e, n,
      gpr c EAX, gpr c ECX, gpr c EDX, gpr c EBX, gpr c ESP - 20, gpr c EBP, gpr c ESI, gpr c EDI,
      ucast (seg c DS), c_cr2 c]"

definition entry_frame :: "u32 \<Rightarrow> u32 \<Rightarrow> cpu \<Rightarrow> isr_frame_t" where
  "entry_frame n e c =
     \<lparr>cr2 = c_cr2 c, fr_ds = ucast (seg c DS), edi = gpr c EDI, esi = gpr c ESI, ebp = gpr c EBP,
      esp = gpr c ESP - 20, ebx = gpr c EBX, edx = gpr c EDX, ecx = gpr c ECX, eax = gpr c EAX,
      int_no = n, err_code = e, eip = c_eip c, fr_cs = ucast (seg c CS), eflags = c_eflags c,
      user_esp = rd32 (c_mem c) (gpr c ESP), fr_ss = rd32 (c_mem c) (gpr c ESP + 4)\<rparr>"

lemma context_saved:
  assumes "code = (if err = None then [Cli, Push_imm 0, Push_imm n] else [Cli, Push_imm n])"
    and "e = (case err of None \<Rightarrow> 0 | Some e \<Rightarrow> e)"
  shows "\<exists>x f. \<forall>st. exec body return_to fn (code @ save_context) (deliver gate err c, st) =
    ret (c\<lparr>gpr := (gpr c)(EAX := x, ESP := gpr c ESP - 64),
           seg := (seg c)(CS := selector gate, DS := 0x10, ES := 0x10, FS := 0x10, GS := 0x10),
           c_eip := gate_offset gate, c_eflags := f,
           c_mem := stack_mem (gpr c ESP) (context_words n e c @ [gpr c ESP - 60]) (c_mem c)\<rparr>, st)"
proof -
  have x: "ucast (c_cr2 c AND 0xFFFF0000 OR 0x10) = (0x10 :: u16)"
    using selector_bits [of "c_cr2 c" "0x10"] by simp
  let ?g = "deliver gate err c"
  let ?f = "c_eflags ?g AND NOT INTERRUPT_FLAG"
  show ?thesis
    by (rule exI [of _ "c_cr2 c AND 0xFFFF0000 OR 0x10"], rule exI [of _ ?f])
      (cases err; simp add: assms deliver_def Let_def save_context_def run_simps context_words_def x)
qed

lemma context_restored:
  assumes "rd32 (c_mem d) (s - 56) = ucast ds" "rd32 (c_mem d) (s - 52) = r7" "rd32 (c_mem d) (s - 48) = r6"
    "rd32 (c_mem d) (s - 44) = r5" "rd32 (c_mem d) (s - 36) = r3" "rd32 (c_mem d) (s - 32) = r2"
    "rd32 (c_mem d) (s - 28) = r1" "rd32 (c_mem d) (s - 24) = r0" "rd32 (c_mem d) (s - 12) = ip"
    "rd32 (c_mem d) (s - 8) = ucast cs" "rd32 (c_mem d) (s - 4) = fl" and "gpr d ESP = s - 64"
  shows "exec body return_to fn restore_context (d, st) =
    ret (d\<lparr>gpr := (gpr d)(EDI := r7, ESI := r6, EBP := r5, EBX := r3, EDX := r2, ECX := r1, EAX := r0, ESP := s),
           seg := (seg d)(DS := ds, ES := ds, FS := ds, GS := ds, CS := cs), c_eip := ip, c_eflags := fl\<rparr>, st)"
  using assms by (simp add: restore_context_def run_simps selector_back)

text \<open>
  How interrupted code goes on: where it was, with its registers, flags and stack; \<open>es\<close>, \<open>fs\<close> and
  \<open>gs\<close> are loaded from the saved \<open>ds\<close>.
\<close>

definition resumed :: "cpu \<Rightarrow> cpu \<Rightarrow> bool" where
  "resumed c c' \<longleftrightarrow> c_eip c' = c_eip c \<and> c_eflags c' = c_eflags c \<and> gpr c' = gpr c \<and>
     seg c' = (seg c)(ES := seg c DS, FS := seg c DS, GS := seg c DS) \<and>
     (\<forall>x. unat (gpr c ESP) \<le> unat x \<longrightarrow> c_mem c' x = c_mem c x)"

text \<open>The words that were pushed stay readable while memory above them does not change.\<close>

lemma words_kept:
  assumes m: "m = stack_mem s (ws @ [p, r]) m0" and len: "length ws = 15" and room: "68 \<le> unat s"
    and same: "\<forall>x. unat (s - 60) \<le> unat x \<longrightarrow> m' x = m x"
  shows "i < 15 \<Longrightarrow> rd32 m' (s - of_nat (4 * Suc i)) = ws ! i" and "rd32 m (s - 64) = p"
    and "unat s \<le> unat x \<Longrightarrow> m' x = m0 x"
    and "unat s \<le> unat a \<Longrightarrow> unat a + 4 \<le> 4294967296 \<Longrightarrow> rd32 m' a = rd32 m0 a"
proof -
  have u: "unat (s - of_nat (4 * k)) = unat s - 4 * k" if "k \<le> 17" for k using unat_stack [of k s] room that by simp
  have rd: "rd32 m (s - of_nat (4 * Suc i)) = (ws @ [p, r]) ! i" if "i < 17" for i
    unfolding m using stack_mem_read [of "ws @ [p, r]" s i] that room len by simp
  show "rd32 m (s - 64) = p" using rd [of 15] len by (simp add: nth_append)
  have u15: "unat (s - 60) = unat s - 60" using u [of 15] by simp
  show "rd32 m' (s - of_nat (4 * Suc i)) = ws ! i" if "i < 15"
  proof -
    have "rd32 m' (s - of_nat (4 * Suc i)) = rd32 m (s - of_nat (4 * Suc i))"
    proof (rule rd32_above [where s = "s - 60"])
      show "unat (s - of_nat (4 * Suc i)) + 4 \<le> 4294967296" "unat (s - 60) \<le> unat (s - of_nat (4 * Suc i))"
        using that u [of "Suc i"] u15 unat_u32_lt [of s] room by (simp_all del: of_nat_mult of_nat_Suc)
    qed (use same in blast)
    then show ?thesis using rd [of i] that len by (simp add: nth_append)
  qed
  show above: "m' x = m0 x" if "unat s \<le> unat x" for x
    using same that u15 room len stack_mem_above [of "ws @ [p, r]" s x] by (simp add: m)
  show "rd32 m' a = rd32 m0 a" if "unat s \<le> unat a" "unat a + 4 \<le> 4294967296"
    using that(2,1) above by (rule rd32_above)
qed

lemma words_frame:
  assumes w: "\<And>i. i < 15 \<Longrightarrow> rd32 m (gpr c ESP - of_nat (4 * Suc i)) = context_words n e c ! i"
    and a: "rd32 m (gpr c ESP) = rd32 (c_mem c) (gpr c ESP)" "rd32 m (gpr c ESP + 4) = rd32 (c_mem c) (gpr c ESP + 4)"
  shows "load_frame m (gpr c ESP - 60) = entry_frame n e c"
  using w [of 0] w [of 1] w [of 2] w [of 3] w [of 4] w [of 5] w [of 6] w [of 7] w [of 8] w [of 9] w [of 10] w [of 11]
    w [of 12] w [of 13] w [of 14] a
  by (simp add: load_frame_def entry_frame_def context_words_def add.commute [of 4])

lemma stub_runs:
  assumes code: "code = (if err = None then [Cli, Push_imm 0, Push_imm n] else [Cli, Push_imm n])"
    and e: "e = (case err of None \<Rightarrow> 0 | Some e \<Rightarrow> e)"
    and body: "cdecl body" and room: "68 \<le> unat (gpr c ESP)" "unat (gpr c ESP) + 8 \<le> 4294967296"
  shows "\<exists>c'. resumed c c' \<and> (\<forall>st. exec body return_to fn (code @ save_context @ [Call_fn F] @ restore_context) (deliver gate err c, st) =
    bindR (fn F (entry_frame n e c) st) (\<lambda>st. ret (c', st)))"
proof -
  let ?s = "gpr c ESP"
  define ws where "ws = context_words n e c"
  obtain x f where "\<forall>st. exec body return_to fn (code @ save_context) (deliver gate err c, st) =
    ret (c\<lparr>gpr := (gpr c)(EAX := x, ESP := ?s - 64),
           seg := (seg c)(CS := selector gate, DS := 0x10, ES := 0x10, FS := 0x10, GS := 0x10),
           c_eip := gate_offset gate, c_eflags := f, c_mem := stack_mem ?s (ws @ [?s - 60]) (c_mem c)\<rparr>, st)"
    unfolding ws_def using context_saved [OF code e, of body return_to fn gate c] by blast
  then obtain c1 where sv: "\<And>st. exec body return_to fn (code @ save_context) (deliver gate err c, st) = ret (c1, st)"
    and c1: "gpr c1 = (gpr c)(EAX := x, ESP := ?s - 64)" "c_mem c1 = stack_mem ?s (ws @ [?s - 60]) (c_mem c)"
      "seg c1 = (seg c)(CS := selector gate, DS := 0x10, ES := 0x10, FS := 0x10, GS := 0x10)"
    by simp
  let ?c2 = "push return_to c1"
  let ?d = "snd (pop (body ?c2))"
  let ?d' = "?d\<lparr>gpr := (gpr ?d)(EDI := gpr c EDI, ESI := gpr c ESI, EBP := gpr c EBP, EBX := gpr c EBX, EDX := gpr c EDX,
             ECX := gpr c ECX, EAX := gpr c EAX, ESP := ?s),
           seg := (seg ?d)(DS := seg c DS, ES := seg c DS, FS := seg c DS, GS := seg c DS, CS := seg c CS),
           c_eip := c_eip c, c_eflags := c_eflags c\<rparr>"
  have len: "length ws = 15" by (simp add: ws_def context_words_def)
  then have c2: "gpr ?c2 ESP = ?s - 68" "c_mem ?c2 = stack_mem ?s (ws @ [?s - 60, return_to]) (c_mem c)"
    by (simp_all add: push_def c1 stack_mem_append)
  have d: "seg ?d = seg c1" "gpr ?d ESP = ?s - 64" "\<And>r. r \<in> {EBX, EBP, ESI, EDI} \<Longrightarrow> gpr ?d r = gpr c r"
    "\<forall>x. unat (?s - 60) \<le> unat x \<longrightarrow> c_mem ?d x = c_mem ?c2 x"
    using body c1 unat_stack [of 15 ?s] unat_stack [of 17 ?s] room unfolding cdecl_def by (auto simp: pop_def push_def)
  note k2 = words_kept [OF c2(2) len room(1), of "c_mem ?c2"] and kd = words_kept [OF c2(2) len room(1) d(4)]
  have frame: "load_frame (c_mem ?c2) (rd32 (c_mem ?c2) (gpr ?c2 ESP + 4)) = entry_frame n e c"
    using words_frame [of "c_mem ?c2" c n e] k2(1,4) k2(2) c2(1) room unat_add_nowrap [of ?s 4] by (simp add: ws_def)
  have w: "rd32 (c_mem ?d) (?s - of_nat (4 * Suc i)) = context_words n e c ! i" if "i < 15" for i
    using kd(1) [OF that] by (simp add: ws_def)
  have rs: "exec body return_to fn restore_context (?d, st) = ret (?d', st)" for st
    using w [of 13] w [of 12] w [of 11] w [of 10] w [of 8] w [of 7] w [of 6] w [of 5] w [of 2] w [of 1] w [of 0] d(2)
    by (intro context_restored) (simp_all add: context_words_def)
  have "gpr ?d' r = gpr c r" for r by (cases r) (simp_all add: d)
  then have "resumed c ?d'" using d(1) kd(3) c1(3) by (auto simp: resumed_def fun_eq_iff)
  moreover have "exec body return_to fn (code @ save_context @ [Call_fn F] @ restore_context) (deliver gate err c, st) =
      bindR (fn F (entry_frame n e c) st) (\<lambda>st. ret (?d', st))" for st
    using frame rs sv [of st] by (simp add: exec_append bindR_assoc call_c_def Let_def flip: append_assoc cong: bindR_cong)
  ultimately show ?thesis by blast
qed

section \<open>Gates and stubs\<close>

text \<open>The vectors whose stub expects that the processor has pushed an error code.\<close>

definition error_vectors :: "nat set" where
  "error_vectors = {8, 10, 11, 12, 13, 14, 17, 30}"

definition stub_prefix :: "nat \<Rightarrow> instr list" where
  "stub_prefix v = (if v \<in> error_vectors then [Cli, Push_imm (of_nat v)] else [Cli, Push_imm 0, Push_imm (of_nat v)])"

lemma below_32: "v < 32 \<Longrightarrow> v \<in> set [0, 1, 2, 3, 4, 5, 6, 7, 8, 9, 10, 11, 12, 13, 14, 15, 16, 17, 18, 19, 20, 21, 22, 23,
    24, 25, 26, 27, 28, 29, 30, 31]" for v :: nat
  by (simp add: numeral_eq_Suc less_Suc_eq)

lemma isr_stubs_table:
  assumes "v < 32"
  shows "g_isr_stub_table ! v = stub_prefix v @ save_context @ [Call_fn Isr_handler] @ restore_context"
  using below_32 [OF assms]
  by (auto simp: g_isr_stub_table_def stub_prefix_def error_vectors_def isr_error_stub_def isr_no_error_stub_def
      isr_common_stub_def)

lemma irq_stubs_table:
  assumes "v < 16"
  shows "g_irq_stub_table ! v = stub_prefix (v + 32) @ save_context @ [Call_fn Irq_handler] @ restore_context"
  using below_32 [of v] assms
  by (auto simp: g_irq_stub_table_def stub_prefix_def error_vectors_def irq_stub_def irq_common_stub_def)

definition stub_address :: "(nat \<Rightarrow> u32) \<Rightarrow> (nat \<Rightarrow> u32) \<Rightarrow> nat \<Rightarrow> u32" where
  "stub_address isr_at irq_at v = (if v < 32 then isr_at v else irq_at (v - 32))"

definition stub_function :: "nat \<Rightarrow> c_function" where
  "stub_function v = (if v < 32 then Isr_handler else Irq_handler)"

lemma code_at_stub:
  assumes d: "inj_on (stub_address isr_at irq_at) {..<48}" and v: "v < 48"
  shows "code_at isr_at irq_at (stub_address isr_at irq_at v) =
    Some (stub_prefix v @ save_context @ [Call_fn (stub_function v)] @ restore_context)"
proof -
  let ?A = "stub_address isr_at irq_at" and ?f = "\<lambda>v. if v < 32 then g_isr_stub_table ! v else g_irq_stub_table ! (v - 32)"
  have l: "map (\<lambda>v. (isr_at v, g_isr_stub_table ! v)) [0..<32] @ map (\<lambda>v. (irq_at v, g_irq_stub_table ! v)) [0..<16]
      = map (\<lambda>v. (?A v, ?f v)) [0..<48]"
    by (rule nth_equalityI) (auto simp: stub_address_def nth_append simp del: upt_rec_numeral)
  have "inj_on ?A (set [0..<48])" using d by (simp add: atLeast0LessThan)
  then have "distinct (map fst (map (\<lambda>v. (?A v, ?f v)) [0..<48]))" by (simp add: distinct_map comp_def)
  then have "code_at isr_at irq_at (?A v) = Some (?f v)"
    unfolding code_at_def l by (rule map_of_is_SomeI) (use v in \<open>auto simp: image_iff\<close>)
  then show ?thesis using isr_stubs_table [of v] irq_stubs_table [of "v - 32"] v by (simp add: stub_function_def)
qed

text \<open>What \<open>idt_init\<close> establishes for the stubs; installing handlers does not touch it.\<close>

definition gates_ready :: "(nat \<Rightarrow> u32) \<Rightarrow> (nat \<Rightarrow> u32) \<Rightarrow> 'h idt_state \<Rightarrow> bool" where
  "gates_ready isr_at irq_at t \<longleftrightarrow> (\<exists>p. idtr t = Some p \<and> ptr_limit p = 383) \<and>
     (\<forall>v < 48. gate_offset (g_idt_entries t ! v) = stub_address isr_at irq_at v)"

lemma idt_init_gates_ready:
  assumes "idt_inv s" and "idt_init table isr_at irq_at (s, tr) = (t, tr')"
  shows "gates_ready isr_at irq_at t"
proof -
  obtain s' tr'' where "idt_init table isr_at irq_at (s, tr) = (s', tr'')" "idtr s' = Some \<lparr>ptr_limit = 383, ptr_base = table\<rparr>"
    "\<forall>v < 48. gate_offset (g_idt_entries s' ! v) = (if v < 32 then isr_at v else irq_at (v - 32))"
    using idt_init_ok [OF assms(1), of table isr_at irq_at tr] by blast
  then show ?thesis using assms(2) by (simp add: gates_ready_def stub_address_def)
qed

lemma install_keeps_gates:
  "isr_install n h t = ret t' \<Longrightarrow> gates_ready isr_at irq_at t' = gates_ready isr_at irq_at t"
  "irq_install n h t = ret t' \<Longrightarrow> gates_ready isr_at irq_at t' = gates_ready isr_at irq_at t"
  by (auto simp: isr_install_def irq_install_def gates_ready_def split: if_splits)

definition entry_error :: "u32 option \<Rightarrow> u32" where
  "entry_error err = (case err of None \<Rightarrow> 0 | Some e \<Rightarrow> e)"

lemma interrupt_runs:
  assumes g: "gates_ready isr_at irq_at t" and d: "inj_on (stub_address isr_at irq_at) {..<48}" and v: "v < 48"
    and err: "err \<noteq> None \<longleftrightarrow> v \<in> error_vectors" and body: "cdecl body"
    and room: "68 \<le> unat (gpr c ESP)" "unat (gpr c ESP) + 8 \<le> 4294967296"
  shows "\<exists>c'. resumed c c' \<and> (\<forall>st. interrupt isr_at irq_at body return_to fn t v err (c, st) =
    bindR (fn (stub_function v) (entry_frame (of_nat v) (entry_error err) c) st) (\<lambda>st. ret (c', st)))"
proof -
  have p: "stub_prefix v = (if err = None then [Cli, Push_imm 0, Push_imm (of_nat v)] else [Cli, Push_imm (of_nat v)])"
    using err by (simp add: stub_prefix_def)
  have "interrupt isr_at irq_at body return_to fn t v err (c, st) =
      exec body return_to fn (stub_prefix v @ save_context @ [Call_fn (stub_function v)] @ restore_context)
        (deliver (g_idt_entries t ! v) err c, st)" for st
    using g v code_at_stub [OF d v] by (auto simp: interrupt_def gates_ready_def Let_def)
  then show ?thesis using stub_runs [OF p entry_error_def body room] by simp
qed

section \<open>Properties\<close>

text \<open>
  C19. Interrupts are transparent to the code they interrupt. With the gates as \<open>idt_init\<close> leaves them,
  for each of the 48 vectors, with the processor's error code or without as the vector has it, the entry
  point calls the right C function once, on a frame that holds the interrupted registers, selectors,
  flags and address, the faulting address, the number of the vector and the error code. Whatever the
  function's compiled code does within the calling convention, the interrupted code then goes on where
  it was, with all its registers, selectors and flags, and its stack as it left it. When the C function
  panics, so does the entry.
\<close>

theorem interrupt_transparent:
  assumes "idt_inv s" and "idt_init table isr_at irq_at (s, tr) = (t0, tr0)"
    and "g_idt_entries t = g_idt_entries t0" and "idtr t = idtr t0"
    and "inj_on (stub_address isr_at irq_at) {..<48}" and "v < 48" and "err \<noteq> None \<longleftrightarrow> v \<in> error_vectors"
    and "cdecl body" and "68 \<le> unat (gpr c ESP)" and "unat (gpr c ESP) + 8 \<le> 4294967296"
    and "seg c ES = seg c DS" and "seg c FS = seg c DS" and "seg c GS = seg c DS"
  shows "\<exists>c'. (\<forall>st. interrupt isr_at irq_at body return_to (c_code lit call t) t v err (c, st) =
      bindR (c_code lit call t (stub_function v) (entry_frame (of_nat v) (entry_error err) c) st) (\<lambda>st. ret (c', st))) \<and>
    gpr c' = gpr c \<and> seg c' = seg c \<and> c_eip c' = c_eip c \<and> c_eflags c' = c_eflags c \<and>
    (\<forall>x. unat (gpr c ESP) \<le> unat x \<longrightarrow> c_mem c' x = c_mem c x)"
proof -
  have "gates_ready isr_at irq_at t"
    using idt_init_gates_ready [OF assms(1,2)] assms(3,4) by (simp add: gates_ready_def)
  from interrupt_runs [OF this assms(5-10)] obtain c' where c': "resumed c c'"
    "\<forall>st. interrupt isr_at irq_at body return_to (c_code lit call t) t v err (c, st) =
      bindR (c_code lit call t (stub_function v) (entry_frame (of_nat v) (entry_error err) c) st) (\<lambda>st. ret (c', st))"
    by blast
  have "(seg c)(ES := seg c DS, FS := seg c DS, GS := seg c DS) = seg c" using assms(11-13) by (auto simp: fun_eq_iff)
  then show ?thesis using c' unfolding resumed_def by auto
qed

text \<open>A compiled function that scratches what it may: two registers, its stack and its argument.\<close>

definition demo_body :: "cpu \<Rightarrow> cpu" where
  "demo_body c = c\<lparr>gpr := (gpr c)(EAX := 0xDEAD, ECX := 1),
     c_mem := (\<lambda>x. if unat x < unat (gpr c ESP) + 8 then 0x55 else c_mem c x)\<rparr>"

definition demo_interrupted :: cpu where
  "demo_interrupted = \<lparr>gpr = (\<lambda>_. 7)(ESP := 0xC0200000), seg = (\<lambda>_. 0x10)(CS := 8), c_eip = 0xC0100123,
     c_eflags = 0x202, c_cr2 = 0,
     c_gdtr = \<lparr>ptr_limit = 39, ptr_base = 0\<rparr>, c_idtr = \<lparr>ptr_limit = 383, ptr_base = 0xC0104000\<rparr>, c_mem = (\<lambda>_. 1)\<rparr>"

lemma demo_cdecl: "cdecl demo_body"
  by (auto simp: cdecl_def demo_body_def)

definition demo_isr_at :: "nat \<Rightarrow> u32" where "demo_isr_at v = 0xC0101000 + 16 * of_nat v"
definition demo_irq_at :: "nat \<Rightarrow> u32" where "demo_irq_at v = 0xC0102000 + 16 * of_nat v"

lemma demo_stubs: "inj_on (stub_address demo_isr_at demo_irq_at) {..<48}"
proof (rule inj_onI)
  let ?A = "stub_address demo_isr_at demo_irq_at"
  have u: "unat (?A v) = (if v < 32 then 0xC0101000 + 16 * v else 0xC0102000 + 16 * (v - 32))" if "v < 48" for v
    using that by (simp add: stub_address_def demo_isr_at_def demo_irq_at_def unat_word_ariths unat_of_nat_u32 take_bit_eq_mod) arith
  fix v w assume vw: "v \<in> {..<48 :: nat}" "w \<in> {..<48}" and e: "?A v = ?A w"
  have l: "v < 48" "w < 48" using vw by simp_all
  have "(if v < 32 then 0xC0101000 + 16 * v else 0xC0102000 + 16 * (v - 32)) =
      (if w < 32 then 0xC0101000 + 16 * w else 0xC0102000 + 16 * (w - 32))"
    unfolding u [OF l(1), symmetric] u [OF l(2), symmetric] e ..
  then show "v = w" using l by (simp split: if_splits)
qed

theorem interrupt_transparent_witness:
  "\<exists>t tr c' tr'. idt_init 0xC0104000 demo_isr_at demo_irq_at (demo_idt, []) = (t, tr) \<and>
     interrupt demo_isr_at demo_irq_at demo_body 0xC0103000 (c_code (\<lambda>_. 0) (\<lambda>h frame (s, tr). ret (s + h, tr)) t) t
       33 None (demo_interrupted, 0 :: nat, []) = ret (c', 7, tr') \<and> gpr c' = gpr demo_interrupted"
proof -
  obtain t tr where t: "idt_init 0xC0104000 demo_isr_at demo_irq_at (demo_idt, []) = (t, tr)"
    "g_irq_handlers t = g_irq_handlers demo_idt"
    using idt_init_ok [OF demo_idt_inv, of "0xC0104000" demo_isr_at demo_irq_at "[]"] by blast
  have h: "g_irq_handlers demo_idt ! Suc 0 = Some 7" "length (g_irq_handlers demo_idt) = 16" by (simp_all add: demo_idt_def)
  have "c_code (\<lambda>_. 0) (\<lambda>h frame (s, tr). ret (s + h, tr)) t (stub_function 33)
      (entry_frame (of_nat 33) (entry_error None) demo_interrupted) (0 :: nat, []) = ret (7, pic_send_eoi 1 [])"
    by (simp add: c_code_def stub_function_def irq_handler_def entry_frame_def t(2) h)
  then show ?thesis
    using interrupt_transparent [OF demo_idt_inv t(1) refl refl demo_stubs, of 33 None demo_body demo_interrupted "0xC0103000"
        "\<lambda>_. 0" "\<lambda>h frame (s, tr). ret (s + h, tr)"] demo_cdecl t(1)
    by (fastforce simp: error_vectors_def demo_interrupted_def)
qed

end
