(* ===== verification/Kernel_Loop.thy ===== *)
theory Kernel_Loop
  imports Kernel_Main Interrupt_Entry Kernel_Fault
begin

text \<open>
  \<^verbatim>\<open>kernel/src/kernel/main.c\<close>, the echo loop under interrupts at every point. The iteration of
  \<open>Kernel_Main\<close> is taken apart into the steps that \<open>keyboard_get_event\<close> and \<open>cyclic_buffer_pop\<close> make:
  the test, the copy byte by byte, the computation of the new \<open>tail\<close> and its store. Between any two
  of them an interrupt of any line may come in through its gate, stub and dispatcher.
\<close>

section \<open>The handler when there is room\<close>

lemma push_shape:
  assumes "cb_inv c" and "cb_clear_of c p" and run: "cyclic_buffer_push (Some c) p m = ret (r, b, m')"
  shows "\<exists>c'. b = Some c' \<and> cb_inv c' \<and> cb_same c c' \<and>
    cb_queue c' m' = bq_push (unat (capacity c) - 1) (read_bytes m p (unat (element_size c))) (cb_queue c m) \<and>
    (\<forall>x. \<not> in_range (buffer c) (unat (capacity c) * unat (element_size c)) x \<longrightarrow> m' x = m x) \<and>
    (Suc (length (cb_queue c m)) < unat (capacity c) \<longrightarrow> tail c' = tail c) \<and>
    unat (head c') = Suc (unat (head c)) mod unat (capacity c)"
proof -
  obtain c' m1 where c': "cyclic_buffer_push (Some c) p m = ret (True, Some c', m1)" "cb_inv c'" "cb_same c c'"
    "cb_queue c' m1 = bq_push (unat (capacity c) - 1) (read_bytes m p (unat (element_size c))) (cb_queue c m)"
    "\<And>x. \<not> in_range (buffer c) (unat (capacity c) * unat (element_size c)) x \<Longrightarrow> m1 x = m x"
    by (rule cyclic_buffer_push_correct [OF assms(1,2), of m]) blast
  have "tail c' = tail c" if "Suc (length (cb_queue c m)) < unat (capacity c)"
  proof -
    have "Suc (unat (head c)) mod unat (capacity c) \<noteq> unat (tail c)"
      using that assms(1) ring_full_iff [of "unat (head c)" "unat (capacity c)" "unat (tail c)"]
      by (simp add: cb_queue_def cb_inv_def)
    then show ?thesis
      using c'(1) assms(2) cb_next_index [OF assms(1) cb_index(1) [OF assms(1)]] cyclic_buffer_is_full_correct [OF assms(1)]
      by (auto simp: cyclic_buffer_push_def cb_clear_of_def Let_def)
  qed
  moreover have "unat (head c') = Suc (unat (head c)) mod unat (capacity c)"
    using c'(1) assms(2) cb_next_index [OF assms(1) cb_index(1) [OF assms(1)]] cb_next_index(1) [OF assms(1) cb_index(2) [OF assms(1)]]
    by (auto simp: cyclic_buffer_push_def cb_clear_of_def Let_def bindR_eq_ret_iff split: if_splits)
  ultimately show ?thesis using c' run by auto
qed

lemma handle_scancode_push:
  assumes "handle_scancode ev raw x (s, m) = ret (s', m')"
  shows "\<exists>e r. cyclic_buffer_push (Some (g_keyboard_buffer s)) ev (store_event ev e m) = ret (r, Some (g_keyboard_buffer s'), m')"
  using assms handle_modifiers_fields(6) [OF refl]
  by (auto simp: handle_scancode_def Let_def bindR_eq_ret_iff split: option.splits) blast

text \<open>The bytes of the event array, and what an interrupt may change besides them.\<close>

definition ring_bytes :: "kbd_state \<Rightarrow> u32 \<Rightarrow> bool" where
  "ring_bytes s x \<longleftrightarrow> in_range (buffer (g_keyboard_buffer s)) 4096 x"

definition appended :: "u32 \<Rightarrow> nat \<Rightarrow> kbd_state \<times> mem \<Rightarrow> kbd_state \<times> mem \<Rightarrow> bool" where
  "appended ev n = (\<lambda>(s, m) (s', m').
     (\<forall>x. \<not> in_range ev 16 x \<and> \<not> ring_bytes s x \<longrightarrow> m' x = m x) \<and>
     (length (cb_queue (g_keyboard_buffer s) m) + n \<le> 255 \<longrightarrow>
        tail (g_keyboard_buffer s') = tail (g_keyboard_buffer s) \<and>
        (\<exists>xs. length xs \<le> n \<and>
           cb_queue (g_keyboard_buffer s') m' = cb_queue (g_keyboard_buffer s) m @ xs)))"

lemma handle_scancode_appends:
  assumes inv: "kbd_inv ev s" and run: "handle_scancode ev raw x (s, m) = ret (s', m')"
  shows "appended ev 1 (s, m) (s', m')"
    and "unat (head (g_keyboard_buffer s')) = Suc (unat (head (g_keyboard_buffer s))) mod 256"
proof -
  let ?c = "g_keyboard_buffer s" and ?c' = "g_keyboard_buffer s'"
  have c: "cb_inv ?c" "cb_clear_of ?c ev" "unat (capacity ?c) = 256" "unat (element_size ?c) = 16"
    using inv by (simp_all add: kbd_inv_def)
  obtain e r where p: "cyclic_buffer_push (Some ?c) ev (store_event ev e m) = ret (r, Some ?c', m')"
    using handle_scancode_push [OF run] by blast
  note P = push_shape [OF c(1,2) p, unfolded c(3,4)]
  have "cb_queue ?c (store_event ev e m) = cb_queue ?c m"
  proof (rule cb_queue_frame [OF c(1)])
    fix x assume "in_range (buffer ?c) (unat (capacity ?c) * unat (element_size ?c)) x"
    then have "\<not> in_range ev 16 x" using c disjoint_ranges_in_range unfolding cb_clear_of_def by metis
    then show "store_event ev e m x = m x" by (rule store_event_frame)
  qed
  then show "appended ev 1 (s, m) (s', m')" using P store_event_frame [of ev _ e m]
    by (auto simp: appended_def ring_bytes_def bq_push_def)
  show "unat (head ?c') = Suc (unat (head ?c)) mod 256" using P by auto
qed

lemma appended_trans:
  assumes "appended ev n (s, m) (s1, m1)" and "appended ev k (s1, m1) (s2, m2)"
    and "cb_same (g_keyboard_buffer s) (g_keyboard_buffer s1)"
  shows "appended ev (n + k) (s, m) (s2, m2)"
proof -
  have "ring_bytes s1 = ring_bytes s" using assms(3) by (simp add: ring_bytes_def cb_same_def fun_eq_iff)
  then show ?thesis using assms(1,2) unfolding appended_def by fastforce
qed

lemma appended_mono: "appended ev n a b \<Longrightarrow> n \<le> k \<Longrightarrow> appended ev k a b"
  unfolding appended_def by (fastforce split: prod.splits)

lemma pic_unaware_read: "pic_unaware tr (tr @ [In p d])" "pic_unaware tr (tr @ [In p d, In q x])"
  by (simp_all add: pic_unaware_def master_def slave_def fun_eq_iff)

lemma head_mod: "kbd_inv ev s \<Longrightarrow> unat (head (g_keyboard_buffer s)) mod 256 = unat (head (g_keyboard_buffer s))"
  by (auto simp: kbd_inv_def cb_inv_def)

definition pushes :: "u8 list \<Rightarrow> nat" where
  "pushes bs = length (takeWhile (\<lambda>b. b \<noteq> 0xE0) bs)"

lemma keyboard_handler_appends:
  assumes "kbd_inv ev s" and "delivers dev tr bs"
  shows "\<exists>s' m' tr'. keyboard_handler dev ev (s, m, tr) = ret (s', m', tr') \<and>
    appended ev (length bs) (s, m) (s', m') \<and> pic_unaware tr tr' \<and>
    unat (head (g_keyboard_buffer s')) = (unat (head (g_keyboard_buffer s)) + pushes bs) mod 256"
  using assms
proof (induction bs arbitrary: s m tr)
  case Nil
  then show ?case using head_mod [OF Nil(1)] by (subst keyboard_handler.simps) (simp add: inb_def Let_def appended_def pic_unaware_read pushes_def)
next
  case (Cons b bs)
  let ?tr = "tr @ [In PS2_STATUS_PORT (dev tr PS2_STATUS_PORT), In PS2_DATA_PORT b]"
  have d: "dev tr PS2_STATUS_PORT AND 1 \<noteq> 0" "b = 0xE0 \<or> delivers dev ?tr bs"
    "dev (tr @ [In PS2_STATUS_PORT (dev tr PS2_STATUS_PORT)]) PS2_DATA_PORT = b"
    using Cons.prems(2) by (simp_all add: Let_def)
  note hd = head_mod [OF Cons.prems(1)]
  show ?case
  proof (cases "b = 0xE0")
    case True
    then show ?thesis using d
      by (subst keyboard_handler.simps) (simp add: inb_def Let_def appended_def ring_bytes_def pic_unaware_read pushes_def hd)
  next
    case False
    obtain s1 m1 where s1: "handle_scancode ev (ucast b) (g_extended_pending s)
        (s\<lparr>g_extended_pending := False\<rparr>, m) = ret (s1, m1)" "kbd_inv ev s1"
      "cb_same (g_keyboard_buffer s) (g_keyboard_buffer s1)"
      using handle_scancode_refines [OF Cons.prems(1)] by blast
    have "kbd_inv ev (s\<lparr>g_extended_pending := False\<rparr>)" using Cons.prems(1) by (simp add: kbd_inv_def)
    from handle_scancode_appends [OF this s1(1)] have a1: "appended ev 1 (s, m) (s1, m1)"
      "unat (head (g_keyboard_buffer s1)) = Suc (unat (head (g_keyboard_buffer s))) mod 256"
      by (simp_all add: appended_def ring_bytes_def)
    obtain s' m' tr' where i: "keyboard_handler dev ev (s1, m1, ?tr) = ret (s', m', tr')"
      "appended ev (length bs) (s1, m1) (s', m')" "pic_unaware ?tr tr'"
      "unat (head (g_keyboard_buffer s')) = (unat (head (g_keyboard_buffer s1)) + pushes bs) mod 256"
      using Cons.IH [OF s1(2)] d(2) False by blast
    have "appended ev (1 + length bs) (s, m) (s', m')" using s1(3) a1(1) i(2) by (blast intro: appended_trans)
    moreover have "keyboard_handler dev ev (s, m, tr) = ret (s', m', tr')"
      using d(1,3) False s1(1) i(1) by (subst keyboard_handler.simps) (simp add: inb_def Let_def)
    moreover have "pic_unaware tr tr'" using i(3) by (simp add: pic_unaware_def master_def slave_def fun_eq_iff)
    moreover have "unat (head (g_keyboard_buffer s')) = (unat (head (g_keyboard_buffer s)) + pushes (b # bs)) mod 256"
      using i(4) a1(2) False by (simp add: pushes_def mod_simps)
    ultimately show ?thesis by simp
  qed
qed

section \<open>The loop in small steps\<close>

text \<open>
  Where the loop is: at its test, at the tests of \<open>keyboard_get_event\<close> and of \<open>cyclic_buffer_pop\<close>, in
  the copy with the source address and the number of bytes done, before the new \<open>tail\<close> is computed,
  before it is stored, or past the call with the event in the local variable at \<open>p\<close>.
\<close>

datatype loop_pc = Poll | Get_event | Pop | Copying u32 nat | Next_tail | Store_tail u32 | Handle

type_synonym loop_state = "loop_pc \<times> main_state"

definition loop_step :: "u32 \<Rightarrow> loop_state \<Rightarrow> loop_state res" where
  "loop_step p = (\<lambda>(pc, k, m, v, tr). let c = g_keyboard_buffer k in
     case pc of
       Poll \<Rightarrow> ret (if keyboard_has_event k then Get_event else Poll, k, m, v, tr)
     | Get_event \<Rightarrow> ret (if keyboard_has_event k then Pop else Handle, k, m, v, tr)
     | Pop \<Rightarrow>
         let source = buffer c + tail c * element_size c
         in ret (if p = NULL \<or> cyclic_buffer_is_empty (Some c) then Handle
                 else if source = NULL \<or> p = source then Next_tail else Copying source 0, k, m, v, tr)
     | Copying source i \<Rightarrow>
         if i < unat (element_size c)
         then ret (Copying source (Suc i), k, m(p + of_nat i := m (source + of_nat i)), v, tr)
         else ret (Next_tail, k, m, v, tr)
     | Next_tail \<Rightarrow> bindR (mod_u32 (tail c + 1) (capacity c)) (\<lambda>t. ret (Store_tail t, k, m, v, tr))
     | Store_tail t \<Rightarrow> ret (Handle, k\<lparr>g_keyboard_buffer := c\<lparr>tail := t\<rparr>\<rparr>, m, v, tr)
     | Handle \<Rightarrow> bindR (main_handle_event p (k, m, v, tr)) (\<lambda>st. ret (Poll, st)))"

fun loop_steps :: "nat \<Rightarrow> u32 \<Rightarrow> loop_state \<Rightarrow> loop_state res" where
  "loop_steps 0 p st = ret st"
| "loop_steps (Suc n) p st = bindR (loop_step p st) (loop_steps n p)"

section \<open>Interrupts\<close>

text \<open>What the machine fixes: the controller, the two local events, the gates and the handlers.\<close>

record loop_env =
  e_dev :: device
  e_ev :: u32
  e_p :: u32
  e_isr_at :: "nat \<Rightarrow> u32"
  e_irq_at :: "nat \<Rightarrow> u32"
  e_body :: "cpu \<Rightarrow> cpu"
  e_back :: u32
  e_lit :: "string \<Rightarrow> u32"
  e_idt :: "kernel_handler idt_state"

definition call_irq ::
  "device \<Rightarrow> u32 \<Rightarrow> kernel_handler \<Rightarrow> isr_frame_t \<Rightarrow> (kbd_state \<times> mem) \<times> io \<Rightarrow> ((kbd_state \<times> mem) \<times> io) res" where
  "call_irq dev ev h frame = (\<lambda>((k, m), tr).
     case h of
       Keyboard_handler \<Rightarrow> bindR (keyboard_handler dev ev (k, m, tr)) (\<lambda>(k, m, tr). ret ((k, m), tr))
     | Vmm_page_fault_handler \<Rightarrow> undef ''handler'')"

definition line_interrupt :: "loop_env \<Rightarrow> nat \<Rightarrow> cpu \<times> (kbd_state \<times> mem) \<times> io \<Rightarrow> (cpu \<times> (kbd_state \<times> mem) \<times> io) res" where
  "line_interrupt E n =
     interrupt (e_isr_at E) (e_irq_at E) (e_body E) (e_back E) (c_code (e_lit E) (call_irq (e_dev E) (e_ev E)) (e_idt E))
       (e_idt E) (32 + n) None"

text \<open>
  \<open>Line n bs\<close> is an interrupt on line \<open>n\<close>, for the keyboard with the bytes that the controller holds;
  \<open>Take\<close> and \<open>Show\<close> are the two effects of the loop, an event leaving the queue and its character
  appearing on the screen.
\<close>

datatype loop_action = Line nat "u8 list" | Take | Show

fun visible :: "loop_pc \<Rightarrow> loop_action list" where
  "visible (Store_tail t) = [Take]"
| "visible Handle = [Show]"
| "visible pc = []"

definition stack_room :: "cpu \<Rightarrow> bool" where
  "stack_room c \<longleftrightarrow> 68 \<le> unat (gpr c ESP) \<and> unat (gpr c ESP) + 8 \<le> 4294967296"

definition arrives :: "loop_env \<Rightarrow> nat \<Rightarrow> u8 list \<Rightarrow> io \<Rightarrow> bool" where
  "arrives E n bs tr \<longleftrightarrow> n < 16 \<and> (if n = 1 then delivers (e_dev E) tr bs else bs = [])"

inductive loop_run :: "loop_env \<Rightarrow> (loop_state \<Rightarrow> u8 list \<Rightarrow> bool) \<Rightarrow> loop_action list \<Rightarrow> loop_state \<Rightarrow> loop_state \<Rightarrow> bool"
  for E P where
  loop_Nil: "loop_run E P [] st st"
| loop_Line: "loop_run E P acts st (pc, k, m, v, tr) \<Longrightarrow> arrives E n bs tr \<Longrightarrow> P (pc, k, m, v, tr) bs \<Longrightarrow> stack_room c \<Longrightarrow>
    line_interrupt E n (c, (k, m), tr) = ret (c', (k', m'), tr') \<Longrightarrow>
    loop_run E P (acts @ [Line n bs]) st (pc, k', m', v, tr')"
| loop_Main: "loop_run E P acts st st1 \<Longrightarrow> loop_step (e_p E) st1 = ret st2 \<Longrightarrow>
    loop_run E P (acts @ visible (fst st1)) st st2"

section \<open>Specification\<close>

fun loop_spec :: "loop_action \<Rightarrow> kbd_spec \<times> keyboard_event_t option \<times> screen \<Rightarrow> kbd_spec \<times> keyboard_event_t option \<times> screen" where
  "loop_spec (Line n bs) (k, e, scr) = (if n = 1 then ks_run bs k else k, e, scr)"
| "loop_spec Take (k, e, scr) =
     (case ks_queue k of [] \<Rightarrow> (k, e, scr) | x # xs \<Rightarrow> (k\<lparr>ks_queue := xs\<rparr>, Some x, scr))"
| "loop_spec Show (k, e, scr) =
     (k, None, case Option.bind e echoed of None \<Rightarrow> scr | Some ch \<Rightarrow> scr_char ch 10 scr)"

definition loop_abs :: "u32 \<Rightarrow> loop_state \<Rightarrow> kbd_spec \<times> keyboard_event_t option \<times> screen" where
  "loop_abs p = (\<lambda>(pc, k, m, v, tr).
     (kbd_abs k m, if pc = Handle then Some (load_event (read_bytes m p 16)) else None, vga_abs v))"

text \<open>No interrupt fills the queue up while an event is being taken from it.\<close>

fun popping :: "loop_pc \<Rightarrow> bool" where
  "popping (Copying source i) = True"
| "popping Next_tail = True"
| "popping (Store_tail t) = True"
| "popping pc = False"

definition fits :: "loop_state \<Rightarrow> u8 list \<Rightarrow> bool" where
  "fits = (\<lambda>(pc, k, m, v, tr) bs.
     popping pc \<longrightarrow> length (cb_queue (g_keyboard_buffer k) m) + length bs \<le> 255)"

definition env_ok :: "loop_env \<Rightarrow> bool" where
  "env_ok E \<longleftrightarrow> gates_ready (e_isr_at E) (e_irq_at E) (e_idt E) \<and>
     inj_on (stub_address (e_isr_at E) (e_irq_at E)) {..<48} \<and> cdecl (e_body E) \<and> idt_inv (e_idt E) \<and>
     g_irq_handlers (e_idt E) ! 1 = Some Keyboard_handler \<and>
     (\<forall>n < 16. n \<noteq> 1 \<longrightarrow> g_irq_handlers (e_idt E) ! n = None) \<and>
     disjoint_ranges (e_p E) 16 (e_ev E) 16"

text \<open>What is copied so far, and what the loop knows at each point.\<close>

definition taken :: "u32 \<Rightarrow> nat \<Rightarrow> kbd_state \<Rightarrow> mem \<Rightarrow> bool" where
  "taken p i k m \<longleftrightarrow> cb_queue (g_keyboard_buffer k) m \<noteq> [] \<and>
     (\<forall>j < i. m (p + of_nat j) = hd (cb_queue (g_keyboard_buffer k) m) ! j)"

fun pc_inv :: "u32 \<Rightarrow> loop_pc \<Rightarrow> kbd_state \<Rightarrow> mem \<Rightarrow> bool" where
  "pc_inv p Poll k m = True"
| "pc_inv p Handle k m = True"
| "pc_inv p (Copying source i) k m \<longleftrightarrow> i \<le> 16 \<and> taken p i k m \<and>
     source = cb_slot (g_keyboard_buffer k) (unat (tail (g_keyboard_buffer k)))"
| "pc_inv p (Store_tail t) k m \<longleftrightarrow> taken p 16 k m \<and>
     t = (tail (g_keyboard_buffer k) + 1) mod capacity (g_keyboard_buffer k)"
| "pc_inv p Next_tail k m \<longleftrightarrow> taken p 16 k m"
| "pc_inv p pc k m \<longleftrightarrow> taken p 0 k m"

definition loop_inv :: "loop_env \<Rightarrow> loop_state \<Rightarrow> bool" where
  "loop_inv E = (\<lambda>(pc, st). main_inv (e_ev E) (e_p E) st \<and> pc_inv (e_p E) pc (fst st) (fst (snd st)))"

section \<open>Every step keeps the invariant\<close>

lemma loop_invD:
  assumes "loop_inv E (pc, k, m, v, tr)"
  shows "kbd_inv (e_ev E) k" "kbd_inv (e_p E) k" "vga_inv v" "pc_inv (e_p E) pc k m"
  using assms by (simp_all add: loop_inv_def main_inv_def)

lemma kbd_queue:
  assumes "kbd_inv p k"
  shows "cb_inv (g_keyboard_buffer k)" "cb_clear_of (g_keyboard_buffer k) p"
    "keyboard_has_event k \<longleftrightarrow> cb_queue (g_keyboard_buffer k) m \<noteq> []"
    "unat (capacity (g_keyboard_buffer k)) = 256" "unat (element_size (g_keyboard_buffer k)) = 16"
  using assms cyclic_buffer_is_empty_correct [of "g_keyboard_buffer k" m]
  by (simp_all add: kbd_inv_def keyboard_has_event_def)

lemma queue_elem:
  assumes "kbd_inv p k" and "cb_queue (g_keyboard_buffer k) m \<noteq> []"
  shows "hd (cb_queue (g_keyboard_buffer k) m) =
    read_bytes m (cb_slot (g_keyboard_buffer k) (unat (tail (g_keyboard_buffer k)))) 16"
proof -
  let ?c = "g_keyboard_buffer k"
  note q = kbd_queue [OF assms(1)]
  have "unat (head ?c) < 256" "unat (tail ?c) < 256" using q(1,4) by (simp_all add: cb_inv_def)
  moreover from this have "unat (head ?c) \<noteq> unat (tail ?c)"
    using assms(2) ring_len_0_iff [of "unat (head ?c)" 256 "unat (tail ?c)"]
    by (auto simp: cb_queue_def q(4) simp flip: length_0_conv)
  ultimately show ?thesis
    using ring_hd [of "unat (head ?c)" 256 "unat (tail ?c)" "cb_elem ?c m"] by (simp add: cb_queue_def cb_elem_def q(4,5))
qed

text \<open>Writing to the local event leaves the queue alone.\<close>

lemma local_write:
  assumes "kbd_inv p k" and "i < 16"
  shows "cb_queue (g_keyboard_buffer k) (m(p + of_nat i := b)) = cb_queue (g_keyboard_buffer k) m"
proof (rule cb_queue_frame)
  note q = kbd_queue [OF assms(1)]
  show "cb_inv (g_keyboard_buffer k)" by (rule q(1))
  fix x assume "in_range (buffer (g_keyboard_buffer k)) (unat (capacity (g_keyboard_buffer k)) * unat (element_size (g_keyboard_buffer k))) x"
  then have "\<not> in_range p 16 x" using q(2,5) disjoint_ranges_in_range unfolding cb_clear_of_def by metis
  then have "x \<noteq> p + of_nat i" using in_range_offset [of i 16 p] assms(2) by auto
  then show "(m(p + of_nat i := b)) x = m x" by simp
qed

lemma taken_copy:
  assumes "kbd_inv p k" and "taken p i k m" and "i < 16"
  shows "taken p (Suc i) k (m(p + of_nat i := m (cb_slot (g_keyboard_buffer k) (unat (tail (g_keyboard_buffer k))) + of_nat i)))"
proof -
  have "p + of_nat j \<noteq> p + of_nat i" if "j < i" for j
  proof
    assume "p + of_nat j = p + of_nat i"
    then have "unat (of_nat j :: u32) = unat (of_nat i :: u32)" by simp
    then show False using that assms(3) by (simp only: unat_of_nat_u32)
  qed
  moreover have "hd (cb_queue (g_keyboard_buffer k) m) ! i = m (cb_slot (g_keyboard_buffer k) (unat (tail (g_keyboard_buffer k))) + of_nat i)"
    using queue_elem [OF assms(1)] assms(2,3) by (simp add: taken_def)
  ultimately show ?thesis
    using assms(2) local_write [OF assms(1,3)] by (auto simp: taken_def less_Suc_eq)
qed

lemma cb_elem_tail: "cb_elem (c\<lparr>tail := t\<rparr>) = cb_elem c"
  by (simp add: cb_elem_def cb_slot_def fun_eq_iff)

text \<open>Storing the new \<open>tail\<close> takes the event that was copied off the queue.\<close>

lemma tail_stored:
  assumes inv: "kbd_inv p k" "kbd_inv ev k" and tk: "taken p 16 k m"
  defines "k' \<equiv> k\<lparr>g_keyboard_buffer := (g_keyboard_buffer k)\<lparr>tail := (tail (g_keyboard_buffer k) + 1) mod capacity (g_keyboard_buffer k)\<rparr>\<rparr>"
  shows "kbd_inv p k'" "kbd_inv ev k'"
    "cb_queue (g_keyboard_buffer k) m = read_bytes m p 16 # cb_queue (g_keyboard_buffer k') m"
proof -
  let ?c = "g_keyboard_buffer k"
  note q = kbd_queue [OF inv(1)]
  note N = cb_next_index [OF q(1) cb_index(2) [OF q(1)]]
  have ht: "unat (head ?c) < 256" "unat (tail ?c) < 256" using q(1,4) by (simp_all add: cb_inv_def)
  have hn: "unat (head ?c) \<noteq> unat (tail ?c)"
    using tk ht ring_len_0_iff [of "unat (head ?c)" 256 "unat (tail ?c)"]
    by (auto simp: taken_def cb_queue_def q(4) simp flip: length_0_conv)
  have "cb_queue (g_keyboard_buffer k') m = tl (cb_queue ?c m)"
    using ring_pop [OF ht hn, of "cb_elem ?c m"] N(2) q(4) by (simp add: cb_queue_def k'_def cb_elem_tail)
  moreover have "hd (cb_queue ?c m) = read_bytes m p 16"
    using tk queue_elem [OF inv(1), of m] by (intro nth_equalityI) (simp_all add: taken_def)
  ultimately show "cb_queue ?c m = read_bytes m p 16 # cb_queue (g_keyboard_buffer k') m"
    using tk by (metis list.collapse taken_def)
  have inv': "cb_inv (g_keyboard_buffer k')" using q(1,4) N(2) ht by (simp add: k'_def cb_inv_def)
  show "kbd_inv p k'" "kbd_inv ev k'"
    using inv inv' cb_same_clear [of ?c "g_keyboard_buffer k'"] by (simp_all add: kbd_inv_def k'_def cb_same_def)
qed

lemma loop_step_refines:
  assumes inv: "loop_inv E (pc, k, m, v, tr)"
  shows "\<exists>pc' k' m' v' tr'. loop_step (e_p E) (pc, k, m, v, tr) = ret (pc', k', m', v', tr') \<and> loop_inv E (pc', k', m', v', tr') \<and>
    loop_abs (e_p E) (pc', k', m', v', tr') = fold loop_spec (visible pc) (loop_abs (e_p E) (pc, k, m, v, tr)) \<and> pic_unaware tr tr'"
proof -
  let ?p = "e_p E" and ?c = "g_keyboard_buffer k"
  note I = loop_invD [OF inv]
  note q = kbd_queue [OF I(2)]
  have quiet: "pic_unaware tr tr" by (simp add: pic_unaware_def)
  have main: "main_inv (e_ev E) ?p (k, m, v, tr)" using inv by (simp add: loop_inv_def)
  show ?thesis
  proof (cases pc)
    case Poll
    then show ?thesis using main quiet q(3)
      by (auto simp: loop_step_def Let_def loop_inv_def taken_def loop_abs_def)
  next
    case Get_event
    then show ?thesis using main quiet q(3) I(4)
      by (auto simp: loop_step_def Let_def loop_inv_def taken_def loop_abs_def)
  next
    case Pop
    let ?s = "cb_slot ?c (unat (tail ?c))"
    have t: "unat (tail ?c) < unat (capacity ?c)" using q(1) by (simp add: cb_inv_def)
    have "?s \<noteq> NULL" by (rule cb_slot_bounds(3) [OF q(1) t])
    moreover have "?p + of_nat 0 \<noteq> ?s + of_nat 0"
      using cb_clear_slot [OF q(1,2) t] q(5) unfolding disjoint_ranges_def by (metis zero_less_numeral)
    moreover have "\<not> cyclic_buffer_is_empty (Some ?c)" using I(4) q(3) Pop by (simp add: taken_def keyboard_has_event_def)
    ultimately show ?thesis using Pop main quiet I(4) q(2) cb_index(4) [OF q(1)]
      by (auto simp: loop_step_def Let_def loop_inv_def taken_def loop_abs_def cb_clear_of_def)
  next
    case (Copying source i)
    show ?thesis
    proof (cases "i < 16")
      case True
      then show ?thesis
        using Copying main quiet I(4) q(5) taken_copy [OF I(2) _ True, of m] local_write [OF I(2) True, of m]
        by (auto simp: loop_step_def Let_def loop_inv_def main_inv_def loop_abs_def kbd_abs_def)
    next
      case False
      then show ?thesis using Copying main quiet I(4) q(5)
        by (auto simp: loop_step_def Let_def loop_inv_def loop_abs_def)
    qed
  next
    case Next_tail
    then show ?thesis using main quiet I(4) cb_next_index(1) [OF q(1) cb_index(2) [OF q(1)]]
      by (simp add: loop_step_def Let_def loop_inv_def loop_abs_def)
  next
    case (Store_tail t)
    then have tk: "taken ?p 16 k m" "t = (tail ?c + 1) mod capacity ?c" using I(4) by simp_all
    note T = tail_stored [OF I(2,1) tk(1)]
    show ?thesis using Store_tail main quiet T tk(2)
      by (auto simp: loop_step_def Let_def loop_inv_def main_inv_def loop_abs_def kbd_abs_def)
  next
    case Handle
    obtain v' tr' where "main_handle_event ?p (k, m, v, tr) = ret (k, m, v', tr')" "vga_inv v'" "pic_unaware tr tr'"
      "vga_abs v' = (case echoed (load_event (read_bytes m ?p 16)) of None \<Rightarrow> vga_abs v | Some ch \<Rightarrow> scr_char ch 10 (vga_abs v))"
      using main_handle_event_ok [OF I(3)] by blast
    then show ?thesis using Handle I by (simp add: loop_step_def Let_def loop_inv_def main_inv_def loop_abs_def)
  qed
qed

section \<open>Interrupts at every point\<close>

lemma quiet_eois: "pic_unaware tr tr' \<Longrightarrow> master tr' c = master tr c \<and> slave tr' c = slave tr c"
  by (simp add: pic_unaware_def)

text \<open>The end-of-interrupt commands of one interrupt: one to the master, one to the slave for its lines.\<close>

definition acked :: "nat \<Rightarrow> io \<Rightarrow> io \<Rightarrow> bool" where
  "acked n tr tr' \<longleftrightarrow> (\<forall>chip. eois (master tr' chip) = Suc (eois (master tr chip)) \<and>
     eois (slave tr' chip) = eois (slave tr chip) + (if 8 \<le> n then 1 else 0))"

lemma line_interrupt_ok:
  assumes env: "env_ok E" and inv: "kbd_inv (e_ev E) k" and arr: "arrives E n bs tr" and room: "stack_room c"
  shows "\<exists>c' k' m' tr'. line_interrupt E n (c, (k, m), tr) = ret (c', (k', m'), tr') \<and> resumed c c' \<and>
    kbd_inv (e_ev E) k' \<and> cb_same (g_keyboard_buffer k) (g_keyboard_buffer k') \<and>
    kbd_abs k' m' = (if n = 1 then ks_run bs (kbd_abs k m) else kbd_abs k m) \<and>
    appended (e_ev E) (length bs) (k, m) (k', m') \<and>
    acked n tr tr' \<and>
    (n = 1 \<longrightarrow> unat (head (g_keyboard_buffer k')) = (unat (head (g_keyboard_buffer k)) + pushes bs) mod 256)"
proof -
  let ?t = "e_idt E" and ?call = "call_irq (e_dev E) (e_ev E)"
  let ?f = "entry_frame (of_nat (32 + n)) (entry_error None) c"
  have n: "n < 16" "32 + n < 48" "(None :: u32 option) \<noteq> None \<longleftrightarrow> 32 + n \<in> error_vectors"
    using arr by (simp_all add: arrives_def error_vectors_def)
  have e: "gates_ready (e_isr_at E) (e_irq_at E) ?t" "inj_on (stub_address (e_isr_at E) (e_irq_at E)) {..<48}"
    "cdecl (e_body E)" using env by (simp_all add: env_ok_def)
  have r: "68 \<le> unat (gpr c ESP)" "unat (gpr c ESP) + 8 \<le> 4294967296" using room by (simp_all add: stack_room_def)
  obtain c' where c': "resumed c c'" "\<And>st. line_interrupt E n (c, st) =
      bindR (c_code (e_lit E) ?call ?t (stub_function (32 + n)) ?f st) (\<lambda>st. ret (c', st))"
    using interrupt_runs [OF e(1,2) n(2,3) e(3) r, where fn = "c_code (e_lit E) ?call ?t"]
    unfolding line_interrupt_def by blast
  have no: "unat (int_no ?f) = 32 + n" using n(1) by (simp add: entry_frame_def unat_word_ariths unat_of_nat_u32)
  have eoi: "\<exists>tr''. irq_handler ?call ?f ?t ((k, m), tr) = ret ((k', m'), tr'') \<and>
      eois (master tr'' chip) = Suc (eois (master tr' chip)) \<and>
      eois (slave tr'' chip) = eois (slave tr' chip) + (if 8 \<le> n then 1 else 0)"
    if "(case g_irq_handlers ?t ! n of None \<Rightarrow> ret ((k, m), tr) | Some g \<Rightarrow> ?call g ?f ((k, m), tr)) = ret ((k', m'), tr')"
    for k' m' tr' chip
    using irq_handler_ok [where call = ?call and frame = ?f, of ?t "((k, m), tr)" "(k', m')" tr' chip] that no n(1) env
    by (auto simp: env_ok_def)
  have out: "line_interrupt E n (c, (k, m), tr) = bindR (irq_handler ?call ?f ?t ((k, m), tr)) (\<lambda>st. ret (c', st))"
    by (simp add: c'(2) c_code_def stub_function_def)
  show ?thesis
  proof (cases "n = 1")
    case True
    have d: "delivers (e_dev E) tr bs" using arr True by (simp add: arrives_def)
    obtain k' m' tr' where h: "keyboard_handler (e_dev E) (e_ev E) (k, m, tr) = ret (k', m', tr')"
      "kbd_inv (e_ev E) k'" "kbd_abs k' m' = ks_run bs (kbd_abs k m)" "cb_same (g_keyboard_buffer k) (g_keyboard_buffer k')"
      using keyboard_handler_run [OF inv d, of m] by blast
    have a: "appended (e_ev E) (length bs) (k, m) (k', m')" "pic_unaware tr tr'"
      "unat (head (g_keyboard_buffer k')) = (unat (head (g_keyboard_buffer k)) + pushes bs) mod 256"
      using keyboard_handler_appends [OF inv d, of m] h(1) by auto
    have "(case g_irq_handlers ?t ! n of None \<Rightarrow> ret ((k, m), tr) | Some g \<Rightarrow> ?call g ?f ((k, m), tr)) = ret ((k', m'), tr')"
      using env True h(1) by (simp add: env_ok_def call_irq_def)
    from eoi [OF this] obtain tr'' where "irq_handler ?call ?f ?t ((k, m), tr) = ret ((k', m'), tr'')"
      "acked n tr' tr''" unfolding acked_def by (metis Inr_inject option.inject prod.inject)
    moreover have "acked n tr tr''" using calculation(2) quiet_eois [OF a(2)] by (simp add: acked_def)
    ultimately show ?thesis using out True h a c'(1) by auto
  next
    case False
    then have "(case g_irq_handlers ?t ! n of None \<Rightarrow> ret ((k, m), tr) | Some g \<Rightarrow> ?call g ?f ((k, m), tr)) = ret ((k, m), tr)"
      using env n(1) by (simp add: env_ok_def)
    from eoi [OF this] obtain tr'' where "irq_handler ?call ?f ?t ((k, m), tr) = ret ((k, m), tr'')"
      "acked n tr tr''" unfolding acked_def by (metis Inr_inject option.inject prod.inject)
    then show ?thesis using out False inv c'(1) by (auto simp: cb_same_def appended_def)
  qed
qed

text \<open>An interrupt in the middle of a pop that fits leaves what the pop has done so far intact.\<close>

lemma taken_kept:
  assumes inv: "kbd_inv p k" and dis: "disjoint_ranges p 16 ev 16" and tk: "taken p i k m" and i: "i \<le> 16"
    and app: "appended ev n (k, m) (k', m')" and room: "length (cb_queue (g_keyboard_buffer k) m) + n \<le> 255"
  shows "taken p i k' m' \<and> tail (g_keyboard_buffer k') = tail (g_keyboard_buffer k)"
proof -
  obtain xs where xs: "tail (g_keyboard_buffer k') = tail (g_keyboard_buffer k)"
    "cb_queue (g_keyboard_buffer k') m' = cb_queue (g_keyboard_buffer k) m @ xs"
    using app room by (auto simp: appended_def)
  have "m' (p + of_nat j) = m (p + of_nat j)" if "j < i" for j
  proof -
    have "in_range p 16 (p + of_nat j)" using that i by (intro in_range_offset) simp_all
    moreover have "disjoint_ranges p 16 (buffer (g_keyboard_buffer k)) 4096"
      using kbd_queue(2,4,5) [OF inv] by (simp add: cb_clear_of_def)
    ultimately have "\<not> in_range ev 16 (p + of_nat j)" "\<not> ring_bytes k (p + of_nat j)"
      using dis disjoint_ranges_in_range by (auto simp: ring_bytes_def)
    then show ?thesis using app by (simp add: appended_def)
  qed
  then show ?thesis using tk xs by (simp add: taken_def)
qed

lemma taken_0_kept:
  assumes "kbd_inv ev k" "kbd_inv ev k'" and "kbd_abs k' m' = ks_run bs (kbd_abs k m)" and "taken p 0 k m"
  shows "taken p 0 k' m'"
proof -
  have "ks_queue q \<noteq> [] \<Longrightarrow> ks_queue (ks_run bs q) \<noteq> []" for q
    by (induction bs arbitrary: q) (simp_all add: ks_step_def bq_push_def)
  moreover have "ks_queue (kbd_abs k m) \<noteq> []" using assms(4) by (simp add: taken_def kbd_abs_def)
  ultimately have "ks_queue (kbd_abs k' m') \<noteq> []" by (metis assms(3))
  then show ?thesis by (simp add: taken_def kbd_abs_def)
qed

lemma pc_inv_kept:
  assumes inv: "kbd_inv p k" "kbd_inv ev k" "kbd_inv ev k'" and dis: "disjoint_ranges p 16 ev 16" and pc: "pc_inv p pc k m"
    and same: "cb_same (g_keyboard_buffer k) (g_keyboard_buffer k')"
    and abs: "kbd_abs k' m' = ks_run bs (kbd_abs k m)"
    and app: "appended ev (length bs) (k, m) (k', m')" and fit: "fits (pc, k, m, v, tr) bs"
  shows "pc_inv p pc k' m'"
proof -
  have f: "length (cb_queue (g_keyboard_buffer k) m) + length bs \<le> 255" if "popping pc" using fit that by (simp add: fits_def)
  note K = taken_kept [OF inv(1) dis _ _ app f] and Z = taken_0_kept [OF inv(2,3) abs]
  show ?thesis
    using pc same K Z by (cases pc) (auto simp: cb_same_def cb_slot_def)
qed

lemma local_kept:
  assumes inv: "kbd_inv p k" and dis: "disjoint_ranges p 16 ev 16" and app: "appended ev n (k, m) (k', m')"
  shows "read_bytes m' p 16 = read_bytes m p 16"
proof (rule read_bytes_cong)
  fix j :: nat assume "j < 16"
  then have "in_range p 16 (p + of_nat j)" by (intro in_range_offset) simp_all
  moreover have "disjoint_ranges p 16 (buffer (g_keyboard_buffer k)) 4096"
    using kbd_queue(2,4,5) [OF inv] by (simp add: cb_clear_of_def)
  ultimately have "\<not> in_range ev 16 (p + of_nat j)" "\<not> ring_bytes k (p + of_nat j)"
    using dis disjoint_ranges_in_range by (auto simp: ring_bytes_def)
  then show "m' (p + of_nat j) = m (p + of_nat j)" using app by (simp add: appended_def)
qed

lemma line_step_refines:
  assumes env: "env_ok E" and inv: "loop_inv E (pc, k, m, v, tr)" and arr: "arrives E n bs tr" and room: "stack_room c"
    and fit: "fits (pc, k, m, v, tr) bs"
    and run: "line_interrupt E n (c, (k, m), tr) = ret (c', (k', m'), tr')"
  shows "loop_inv E (pc, k', m', v, tr') \<and>
    loop_abs (e_p E) (pc, k', m', v, tr') = loop_spec (Line n bs) (loop_abs (e_p E) (pc, k, m, v, tr)) \<and>
    acked n tr tr'"
proof -
  note I = loop_invD [OF inv]
  have dis: "disjoint_ranges (e_p E) 16 (e_ev E) 16" using env by (simp add: env_ok_def)
  have L: "kbd_inv (e_ev E) k'" "cb_same (g_keyboard_buffer k) (g_keyboard_buffer k')"
    "kbd_abs k' m' = (if n = 1 then ks_run bs (kbd_abs k m) else kbd_abs k m)"
    "appended (e_ev E) (length bs) (k, m) (k', m')" "acked n tr tr'"
    using line_interrupt_ok [OF env I(1) arr room, of m] run by auto
  have bs: "n \<noteq> 1 \<Longrightarrow> bs = []" using arr by (simp add: arrives_def)
  then have abs: "kbd_abs k' m' = ks_run bs (kbd_abs k m)" using L(3) by auto
  have "kbd_inv (e_p E) k'" by (rule kbd_inv_same [OF I(2) L(1,2)])
  moreover have "pc_inv (e_p E) pc k' m'" by (rule pc_inv_kept [OF I(2,1) L(1) dis I(4) L(2) abs L(4) fit])
  ultimately show ?thesis
    using I L local_kept [OF I(2) dis L(4)] by (simp add: loop_inv_def main_inv_def loop_abs_def)
qed

section \<open>Runs\<close>

definition loop_io :: "loop_state \<Rightarrow> io" where
  "loop_io = (\<lambda>(pc, k, m, v, tr). tr)"

fun is_line :: "loop_action \<Rightarrow> bool" where
  "is_line (Line n bs) = True"
| "is_line a = False"

fun is_slave_line :: "loop_action \<Rightarrow> bool" where
  "is_slave_line (Line n bs) \<longleftrightarrow> 8 \<le> n"
| "is_slave_line a = False"

lemma visible_lines: "filter is_line (visible pc) = []" "filter is_slave_line (visible pc) = []"
  by (cases pc; simp)+

lemma loop_run_refines:
  "loop_run E fits acts st st' \<Longrightarrow> env_ok E \<Longrightarrow> loop_inv E st \<Longrightarrow>
   loop_inv E st' \<and> loop_abs (e_p E) st' = fold loop_spec acts (loop_abs (e_p E) st) \<and>
   (\<forall>chip. eois (master (loop_io st') chip) = eois (master (loop_io st) chip) + length (filter is_line acts) \<and>
      eois (slave (loop_io st') chip) = eois (slave (loop_io st) chip) + length (filter is_slave_line acts))"
proof (induction rule: loop_run.induct)
  case (loop_Line acts st pc k m v tr n bs c c' k' m' tr')
  then show ?case
    using line_step_refines [of E pc k m v tr n bs c c' k' m' tr'] by (simp add: loop_io_def acked_def)
next
  case (loop_Main acts st st1 st2)
  obtain pc k m v tr where s1: "st1 = (pc, k, m, v, tr)" by (metis surj_pair)
  have I: "loop_inv E (pc, k, m, v, tr)" using loop_Main by (simp add: s1)
  obtain pc' k' m' v' tr' where s2: "loop_step (e_p E) (pc, k, m, v, tr) = ret (pc', k', m', v', tr')"
    "loop_inv E (pc', k', m', v', tr')" "pic_unaware tr tr'"
    "loop_abs (e_p E) (pc', k', m', v', tr') = fold loop_spec (visible pc) (loop_abs (e_p E) (pc, k, m, v, tr))"
    using loop_step_refines [OF I] by blast
  then have "st2 = (pc', k', m', v', tr')" using loop_Main by (simp add: s1)
  then show ?case using loop_Main s1 s2 quiet_eois [OF s2(3)] by (simp add: loop_io_def visible_lines)
qed simp

section \<open>The small steps compute the iteration\<close>

lemma loop_steps_add: "loop_steps (a + b) p st = bindR (loop_steps a p st) (loop_steps b p)"
  by (induction a arbitrary: st) (simp_all add: bindR_assoc cong: bindR_cong)

lemma copy_steps:
  "i + n = unat (element_size (g_keyboard_buffer k)) \<Longrightarrow> loop_steps n p (Copying s i, k, m, v, tr) =
    ret (Copying s (i + n), k, kmemcpy_loop n (p + of_nat i) (s + of_nat i) m, v, tr)"
proof (induction n arbitrary: i m)
  case (Suc n)
  from Suc.IH [of "Suc i"] Suc.prems show ?case by (simp add: loop_step_def Let_def algebra_simps)
qed simp

lemma loop_steps_body:
  assumes inv: "loop_inv E (Poll, k, m, v, tr)" and ne: "keyboard_has_event k"
  shows "loop_steps 23 (e_p E) (Poll, k, m, v, tr) = bindR (main_loop_body (e_p E) (k, m, v, tr)) (\<lambda>st. ret (Poll, st))"
proof -
  let ?p = "e_p E" and ?c = "g_keyboard_buffer k"
  let ?s = "cb_slot ?c (unat (tail ?c))" and ?t = "(tail ?c + 1) mod capacity ?c"
  note I = loop_invD [OF inv]
  note q = kbd_queue [OF I(2)]
  have t: "unat (tail ?c) < unat (capacity ?c)" using q(1) by (simp add: cb_inv_def)
  have s: "?s \<noteq> NULL" by (rule cb_slot_bounds(3) [OF q(1) t])
  have "?p + of_nat 0 \<noteq> ?s + of_nat 0"
    using cb_clear_slot [OF q(1,2) t] q(5) unfolding disjoint_ranges_def by (metis zero_less_numeral)
  then have ps: "?p \<noteq> ?s" "?p \<noteq> NULL" using q(2) by (simp_all add: cb_clear_of_def)
  have e: "\<not> cyclic_buffer_is_empty (Some ?c)" "element_size ?c = 16" using ne I(1) by (simp_all add: keyboard_has_event_def kbd_inv_def)
  note N = cb_next_index(1) [OF q(1) cb_index(2) [OF q(1)]]
  let ?m = "kmemcpy_loop 16 ?p ?s m"
  have a: "loop_steps 3 ?p (Poll, k, m, v, tr) = ret (Copying ?s 0, k, m, v, tr)"
    using ne e s ps cb_index(4) [OF q(1)] by (simp add: eval_nat_numeral loop_step_def Let_def)
  have b: "loop_steps 16 ?p (Copying ?s 0, k, m, v, tr) = ret (Copying ?s 16, k, ?m, v, tr)"
    using copy_steps [of 0 16 k ?p ?s m v tr] q(5) by simp
  have c: "loop_steps 4 ?p (Copying ?s 16, k, ?m, v, tr) =
      bindR (main_handle_event ?p (k\<lparr>g_keyboard_buffer := ?c\<lparr>tail := ?t\<rparr>\<rparr>, ?m, v, tr)) (\<lambda>st. ret (Poll, st))"
    using q(5) N by (simp add: eval_nat_numeral(2,3) loop_step_def Let_def bindR_assoc cong: bindR_cong)
  have g: "keyboard_get_event ?p (k, m) = ret (True, k\<lparr>g_keyboard_buffer := ?c\<lparr>tail := ?t\<rparr>\<rparr>, ?m)"
    using ne e s ps N cb_index(4) [OF q(1)]
    by (simp add: keyboard_get_event_def cyclic_buffer_pop_def Let_def kmemcpy_def)
  have "loop_steps 23 ?p (Poll, k, m, v, tr) = bindR (loop_steps 3 ?p (Poll, k, m, v, tr)) (\<lambda>st.
      bindR (loop_steps 16 ?p st) (loop_steps 4 ?p))"
    using loop_steps_add [of 3 "16 + 4" ?p] loop_steps_add [of 16 4 ?p] by (simp cong: bindR_cong)
  then show ?thesis using a b c g ne by (simp add: main_loop_body_def)
qed

section \<open>Page faults\<close>

text \<open>
  The fault that \<open>cpu_store\<close> and \<open>cpu_load\<close> of \<open>Kernel_Fault\<close> hand to \<open>isr_handler\<close> is the one that
  gate 14 and its stub hand to it: the frame carries the registers of the faulting code, the faulting
  address and the error code, and the code goes on at the access, to execute it again.
\<close>

definition call_isr_io ::
  "u32 \<Rightarrow> kernel_handler \<Rightarrow> isr_frame_t \<Rightarrow> (vm_state \<times> pmm_state) \<times> io \<Rightarrow> ((vm_state \<times> pmm_state) \<times> io) res" where
  "call_isr_io pd h frame = (\<lambda>(st, tr). bindR (call_isr pd h frame st) (\<lambda>st. ret (st, tr)))"

lemma isr_handler_io:
  "isr_handler lit (call_isr_io pd) frame t (st, tr) = bindR (isr_handler lit (call_isr pd) frame t st) (\<lambda>st. ret (st, tr))"
  by (simp add: isr_handler_def call_isr_io_def split: option.split)

lemma page_fault_entry:
  assumes "gates_ready isr_at irq_at t" and "inj_on (stub_address isr_at irq_at) {..<48}" and "cdecl body" and "stack_room c"
  shows "\<exists>c'. resumed c c' \<and> (\<forall>st tr.
    interrupt isr_at irq_at body return_to (c_code lit (call_isr_io pd) t) t 14 (Some (if w then 2 else 0)) (c, st, tr) =
    bindR (isr_handler lit (call_isr pd) (fault_frame (entry_frame 14 0 c) (c_cr2 c) w) t st) (\<lambda>st. ret (c', st, tr)))"
proof -
  let ?err = "Some (if w then 2 else 0) :: u32 option"
  have e: "?err \<noteq> None \<longleftrightarrow> 14 \<in> error_vectors" "14 < (48 :: nat)" by (simp_all add: error_vectors_def)
  have f: "entry_frame (of_nat 14) (entry_error ?err) c = fault_frame (entry_frame 14 0 c) (c_cr2 c) w"
    by (simp add: entry_frame_def entry_error_def fault_frame_def)
  obtain c' where "resumed c c'" "\<And>st. interrupt isr_at irq_at body return_to (c_code lit (call_isr_io pd) t) t 14 ?err (c, st) =
      bindR (c_code lit (call_isr_io pd) t (stub_function 14) (entry_frame (of_nat 14) (entry_error ?err) c) st) (\<lambda>st. ret (c', st))"
    using interrupt_runs [OF assms(1,2) e(2,1) assms(3), of c return_to "c_code lit (call_isr_io pd) t"] assms(4)
    by (auto simp: stack_room_def)
  then show ?thesis unfolding f by (intro exI [of _ c']) (simp add: c_code_def stub_function_def isr_handler_io bindR_assoc)
qed

section \<open>A full queue\<close>

lemma full_queue_race:
  assumes env: "env_ok E" and inv: "loop_inv E (Store_tail t, k, m, v, tr)"
    and full: "length (cb_queue (g_keyboard_buffer k) m) = 255"
    and arr: "arrives E 1 bs tr" and two: "pushes bs = 2" and room: "stack_room c"
  shows "\<exists>c' k' m' tr' k''. line_interrupt E 1 (c, (k, m), tr) = ret (c', (k', m'), tr') \<and>
    kbd_abs k' m' = ks_run bs (kbd_abs k m) \<and>
    loop_step (e_p E) (Store_tail t, k', m', v, tr') = ret (Handle, k'', m', v, tr') \<and>
    cb_queue (g_keyboard_buffer k'') m' = []"
proof -
  let ?c = "g_keyboard_buffer k"
  note I = loop_invD [OF inv]
  note q = kbd_queue [OF I(2)]
  obtain c' k' m' tr' where L: "line_interrupt E 1 (c, (k, m), tr) = ret (c', (k', m'), tr')" "kbd_inv (e_ev E) k'"
    "kbd_abs k' m' = ks_run bs (kbd_abs k m)" "unat (head (g_keyboard_buffer k')) = (unat (head ?c) + 2) mod 256"
    using line_interrupt_ok [OF env I(1) arr room, of m] two by auto
  have ht: "unat (head ?c) < 256" "unat (tail ?c) < 256" using q(1,4) by (simp_all add: cb_inv_def)
  have "Suc (unat (head ?c)) mod 256 = unat (tail ?c)"
    using ring_full_iff [OF ht] full by (simp add: cb_queue_def q(4))
  moreover have "unat t = Suc (unat (tail ?c)) mod 256"
    using I(4) cb_next_index(2) [OF q(1) cb_index(2) [OF q(1)]] q(4) by simp
  ultimately have "unat t = Suc (Suc (unat (head ?c)) mod 256) mod 256" by simp
  then have "unat t = unat (head (g_keyboard_buffer k'))" using L(4) by (simp add: mod_Suc_eq)
  then have e: "head (g_keyboard_buffer k') = t" by (simp add: word_unat_eq_iff)
  let ?k = "k'\<lparr>g_keyboard_buffer := (g_keyboard_buffer k')\<lparr>tail := t\<rparr>\<rparr>"
  have "loop_step (e_p E) (Store_tail t, k', m', v, tr') = ret (Handle, ?k, m', v, tr')"
    by (simp add: loop_step_def Let_def)
  moreover have "cb_queue (g_keyboard_buffer ?k) m' = []"
    using e kbd_queue(4) [OF L(2)] by (simp add: cb_queue_def ring_def ring_len_def)
  ultimately show ?thesis using L by blast
qed

section \<open>Properties\<close>

text \<open>
  C18. The echo loop under interrupts. However interrupts of the 16 lines fall between the steps of the
  loop, in the middle of taking an event from the queue or of copying it too, as long as none of them
  fills the queue up while an event is being taken: keyboard and screen are what the specification
  gives, in which an event leaves the queue in one step and its character appears in another; every
  interrupt has been acknowledged, once at the master and for lines 8 to 15 once at the slave; the loop never fails; and the next interrupt, whenever it comes,
  returns to the loop with its registers and stack as they were.
\<close>

theorem echo_loop_interrupted:
  assumes "env_ok E" and "loop_inv E st" and "loop_run E fits acts st (pc, k, m, v, tr)"
  shows "loop_inv E (pc, k, m, v, tr) \<and>
    loop_abs (e_p E) (pc, k, m, v, tr) = fold loop_spec acts (loop_abs (e_p E) st) \<and>
    (\<forall>chip. eois (master tr chip) = eois (master (loop_io st) chip) + length (filter is_line acts) \<and>
       eois (slave tr chip) = eois (slave (loop_io st) chip) + length (filter is_slave_line acts)) \<and>
    (\<exists>st'. loop_step (e_p E) (pc, k, m, v, tr) = ret st') \<and>
    (\<forall>n bs c. arrives E n bs tr \<and> stack_room c \<longrightarrow>
       (\<exists>c' k' m' tr'. line_interrupt E n (c, (k, m), tr) = ret (c', (k', m'), tr') \<and> resumed c c'))"
proof -
  have R: "loop_inv E (pc, k, m, v, tr)"
    "loop_abs (e_p E) (pc, k, m, v, tr) = fold loop_spec acts (loop_abs (e_p E) st)"
    "\<forall>chip. eois (master tr chip) = eois (master (loop_io st) chip) + length (filter is_line acts) \<and>
       eois (slave tr chip) = eois (slave (loop_io st) chip) + length (filter is_slave_line acts)"
    using loop_run_refines [OF assms(3,1,2)] by (simp_all add: loop_io_def)
  show ?thesis
    using R loop_step_refines [OF R(1)] line_interrupt_ok [OF assms(1) loop_invD(1) [OF R(1)]] by blast
qed

text \<open>The machine of the keyboard example, with the stubs of the entry example.\<close>

definition demo_lines :: "kernel_handler idt_state" where
  "demo_lines = fst (idt_init 0xC0104000 demo_isr_at demo_irq_at
     (demo_handlers\<lparr>g_irq_handlers := (replicate 16 None)[1 := Some Keyboard_handler]\<rparr>, []))"

definition demo_env :: "device \<Rightarrow> loop_env" where
  "demo_env dev = \<lparr>e_dev = dev, e_ev = 0x8000, e_p = 0x9000, e_isr_at = demo_isr_at, e_irq_at = demo_irq_at,
     e_body = demo_body, e_back = 0xC0103000, e_lit = (\<lambda>_. 0), e_idt = demo_lines\<rparr>"

lemma demo_env_ok: "env_ok (demo_env dev)"
proof -
  let ?t = "demo_handlers\<lparr>g_irq_handlers := (replicate 16 None)[1 := Some Keyboard_handler]\<rparr>"
  have inv: "idt_inv ?t" by (simp add: idt_inv_def demo_handlers_def)
  obtain t tr where t: "idt_init 0xC0104000 demo_isr_at demo_irq_at (?t, []) = (t, tr)" "idt_inv t"
    "g_irq_handlers t = g_irq_handlers ?t"
    using idt_init_ok [OF inv, of "0xC0104000" demo_isr_at demo_irq_at "[]"] by blast
  have "disjoint_ranges 0x9000 16 0x8000 16" by (rule disjoint_ranges_sym [OF disjoint_rangesI]) simp_all
  moreover have "\<forall>n < 16. n \<noteq> 1 \<longrightarrow> ((replicate 16 None)[1 := Some Keyboard_handler]) ! n = None"
    by (simp add: nth_list_update)
  ultimately show ?thesis
    using t idt_init_gates_ready [OF inv t(1)] demo_stubs demo_cdecl
    by (simp add: env_ok_def demo_env_def demo_lines_def)
qed

lemma demo_loop_inv:
  assumes "unat h < 256"
  shows "main_inv 0x8000 0x9000 (demo_kbd\<lparr>g_keyboard_buffer := (g_keyboard_buffer demo_kbd)\<lparr>head := h\<rparr>\<rparr>, \<lambda>_. 0, demo_vga, [])"
proof -
  have "disjoint_ranges 0x1000 4096 0x9000 16" "disjoint_ranges 0x1000 4096 0x8000 16" by (rule disjoint_rangesI; simp)+
  then show ?thesis
    using assms demo_vga_inv by (simp add: main_inv_def kbd_inv_def demo_kbd_def cb_inv_def cb_clear_of_def disjoint_ranges_sym)
qed

theorem echo_loop_interrupted_witness:
  "\<exists>k m tr. loop_run (demo_env demo_ps2) fits [Line 1 [0x2A, 0x1E, 0xAA]]
      (Poll, demo_kbd, \<lambda>_. 0, demo_vga, []) (Poll, k, m, demo_vga, tr) \<and>
    (\<exists>st. loop_step 0x9000 (Poll, k, m, demo_vga, tr) = ret st) \<and> length (cb_queue (g_keyboard_buffer k) m) = 3"
proof -
  let ?E = "demo_env demo_ps2"
  have "demo_kbd\<lparr>g_keyboard_buffer := (g_keyboard_buffer demo_kbd)\<lparr>head := 0\<rparr>\<rparr> = demo_kbd" by (simp add: demo_kbd_def)
  then have inv: "loop_inv ?E (Poll, demo_kbd, \<lambda>_. 0, demo_vga, [])"
    using demo_loop_inv [of 0] by (simp add: loop_inv_def demo_env_def)
  have arr: "arrives ?E 1 [0x2A, 0x1E, 0xAA] []" using demo_ps2_delivers by (simp add: arrives_def demo_env_def)
  have room: "stack_room demo_interrupted" by (simp add: stack_room_def demo_interrupted_def)
  note r0 = loop_Nil [of ?E fits "(Poll, demo_kbd, \<lambda>_. 0, demo_vga, [])"]
  obtain c' k m tr where l: "line_interrupt ?E 1 (demo_interrupted, (demo_kbd, \<lambda>_. 0), []) = ret (c', (k, m), tr)"
    using echo_loop_interrupted [OF demo_env_ok inv r0] arr room by blast
  have r1: "loop_run ?E fits [Line 1 [0x2A, 0x1E, 0xAA]] (Poll, demo_kbd, \<lambda>_. 0, demo_vga, []) (Poll, k, m, demo_vga, tr)"
    using loop_Line [OF r0 arr _ room l] by (simp add: fits_def)
  have z: "ks_queue (kbd_abs demo_kbd (\<lambda>_. 0)) = []" by (simp add: kbd_abs_def demo_kbd_def cb_queue_def ring_def ring_len_def)
  have "kbd_abs k m = ks_run [0x2A, 0x1E, 0xAA] (kbd_abs demo_kbd (\<lambda>_. 0))"
    using echo_loop_interrupted [OF demo_env_ok inv r1] by (simp add: loop_abs_def)
  then have "length (ks_queue (kbd_abs k m)) = 3" by (simp add: ks_step_def bq_push_def z ks_mods_def Let_def)
  then have "length (cb_queue (g_keyboard_buffer k) m) = 3" by (simp add: kbd_abs_def)
  moreover have "e_p ?E = 0x9000" by (simp add: demo_env_def)
  then have "\<exists>st. loop_step 0x9000 (Poll, k, m, demo_vga, tr) = ret st"
    using echo_loop_interrupted [OF demo_env_ok inv r1] by metis
  ultimately show ?thesis using r1 by blast
qed

text \<open>
  C20. When the queue is full, taking an event races with the interrupt that drops the oldest one: two
  scan codes that arrive between the computation of the new \<open>tail\<close> and its store move \<open>tail\<close> past it,
  and the store moves it back to where \<open>head\<close> now is. All 255 events, the new ones among them, are
  lost.
\<close>

theorem full_queue_race_loses_all:
  assumes "env_ok E" and "loop_inv E (Store_tail t, k, m, v, tr)"
    and "length (cb_queue (g_keyboard_buffer k) m) = 255"
    and "arrives E 1 bs tr" and "pushes bs = 2" and "stack_room c"
  shows "\<exists>c' k' m' tr' k''. line_interrupt E 1 (c, (k, m), tr) = ret (c', (k', m'), tr') \<and>
    kbd_abs k' m' = ks_run bs (kbd_abs k m) \<and>
    loop_step (e_p E) (Store_tail t, k', m', v, tr') = ret (Handle, k'', m', v, tr') \<and>
    cb_queue (g_keyboard_buffer k'') m' = []"
  by (rule full_queue_race [OF assms])

definition demo_two_keys :: device where
  "demo_two_keys tr port =
     (if port = PS2_STATUS_PORT then (if length tr < 4 then 1 else 0) else [0x1E, 0x9E] ! (length tr div 2))"

theorem full_queue_race_loses_all_witness:
  "\<exists>c' k' m' tr' k''. line_interrupt (demo_env demo_two_keys) 1 (demo_interrupted,
      (demo_kbd\<lparr>g_keyboard_buffer := (g_keyboard_buffer demo_kbd)\<lparr>head := 255\<rparr>\<rparr>, \<lambda>_. 0), []) = ret (c', (k', m'), tr') \<and>
    length (cb_queue (g_keyboard_buffer k') m') = 255 \<and>
    loop_step 0x9000 (Store_tail 1, k', m', demo_vga, tr') = ret (Handle, k'', m', demo_vga, tr') \<and>
    cb_queue (g_keyboard_buffer k'') m' = []"
proof -
  let ?E = "demo_env demo_two_keys" and ?k = "demo_kbd\<lparr>g_keyboard_buffer := (g_keyboard_buffer demo_kbd)\<lparr>head := 255\<rparr>\<rparr>"
  have m: "main_inv 0x8000 0x9000 (?k, \<lambda>_. 0, demo_vga, [])" by (rule demo_loop_inv) simp
  have k: "kbd_inv 0x9000 ?k" using m by (simp add: main_inv_def)
  have full: "length (cb_queue (g_keyboard_buffer ?k) (\<lambda>_. 0)) = 255"
    by (simp add: cb_queue_def ring_len_def demo_kbd_def)
  have ne: "cb_queue (g_keyboard_buffer ?k) (\<lambda>_. 0) \<noteq> []" using full by (metis list.size(3) zero_neq_numeral)
  have "taken 0x9000 16 ?k (\<lambda>_. 0)" using ne queue_elem [OF k ne] by (simp add: taken_def)
  then have inv: "loop_inv ?E (Store_tail 1, ?k, \<lambda>_. 0, demo_vga, [])"
    using m by (simp add: loop_inv_def demo_env_def) (simp add: demo_kbd_def)
  have arr: "arrives ?E 1 [0x1E, 0x9E] []"
    by (simp add: arrives_def demo_env_def demo_two_keys_def PS2_STATUS_PORT_def PS2_DATA_PORT_def)
  have two: "pushes [0x1E, 0x9E] = 2" "stack_room demo_interrupted" "e_p ?E = 0x9000"
    by (simp_all add: pushes_def stack_room_def demo_interrupted_def demo_env_def)
  have "length (ks_queue (kbd_abs ?k (\<lambda>_. 0))) = 255" using full by (simp add: kbd_abs_def)
  then have "length (ks_queue (ks_run [0x1E, 0x9E] (kbd_abs ?k (\<lambda>_. 0)))) = 255"
    by (simp add: ks_step_def bq_push_def ks_mods_def Let_def)
  then have "length (cb_queue (g_keyboard_buffer k') m') = 255"
    if "kbd_abs k' m' = ks_run [0x1E, 0x9E] (kbd_abs ?k (\<lambda>_. 0))" for k' m'
    unfolding that [symmetric] by (simp add: kbd_abs_def)
  then show ?thesis
    using full_queue_race_loses_all [OF demo_env_ok inv full arr two(1,2)] unfolding two(3) by blast
qed

end
