(* ===== verification/Boot_Code.thy ===== *)
theory Boot_Code
  imports Cpu VMM
begin

text \<open>
  The assembly under \<^verbatim>\<open>kernel/src/arch/x86/boot\<close>: the header by which the loader recognises the
  kernel, the registers on the way from \<open>_start\<close> to \<open>kernel_main\<close> in \<^verbatim>\<open>boot.s\<close>, and the constructor
  and destructor sections of \<^verbatim>\<open>crti.s\<close> and \<^verbatim>\<open>crtn.s\<close>, to which a C program adds nothing.
\<close>

section \<open>The header\<close>

definition MB2_MAGIC :: u32 where [simp]: "MB2_MAGIC = 0xE85250D6"
definition MB2_ARCH :: u32 where [simp]: "MB2_ARCH = 0"
definition MB2_HEADER_LEN :: u32 where [simp]: "MB2_HEADER_LEN = 24"
definition MB2_CHECKSUM :: u32 where [simp]: "MB2_CHECKSUM = - (MB2_MAGIC + MB2_ARCH + MB2_HEADER_LEN)"
definition MB2_BOOT_MAGIC :: u32 where "MB2_BOOT_MAGIC = 0x36D76289"

definition long :: "u32 \<Rightarrow> u8 list" where
  "long v = [ucast v, ucast (drop_bit 8 v), ucast (drop_bit 16 v), ucast (drop_bit 24 v)]"

definition short :: "u16 \<Rightarrow> u8 list" where
  "short v = [ucast v, ucast (drop_bit 8 v)]"

definition multiboot_header :: "u8 list" where
  "multiboot_header = long MB2_MAGIC @ long MB2_ARCH @ long MB2_HEADER_LEN @ long MB2_CHECKSUM @
     short 0 @ short 0 @ long 8"

text \<open>
  What a loader checks: the magic number, the length the header has, the sum of the four words, and the
  end tag of type 0 and size 8 in the last eight bytes.
\<close>

lemma header_accepted:
  assumes "read_bytes m p 24 = multiboot_header"
  shows "rd32 m p = 0xE85250D6" "rd32 m (p + 8) = of_nat (length multiboot_header)"
    "rd32 m p + rd32 m (p + 4) + rd32 m (p + 8) + rd32 m (p + 12) = 0"
    "rd32 m (p + 16) = 0" "rd32 m (p + 20) = 8"
proof -
  have b: "m (p + of_nat i) = multiboot_header ! i" if "i < 24" for i
    using that nth_read_bytes [of i 24 m p] assms by simp
  have w: "rd32 m (p + of_nat (4 * k)) =
      ucast (multiboot_header ! (4 * k)) OR push_bit 8 (ucast (multiboot_header ! (4 * k + 1)))
        OR push_bit 16 (ucast (multiboot_header ! (4 * k + 2))) OR push_bit 24 (ucast (multiboot_header ! (4 * k + 3)))"
    if "k < 6" for k
    using b [of "4 * k"] b [of "4 * k + 1"] b [of "4 * k + 2"] b [of "4 * k + 3"] that by (simp add: rd32_def algebra_simps)
  note h = multiboot_header_def long_def short_def
  have r: "rd32 m p = 0xE85250D6" "rd32 m (p + 4) = 0" "rd32 m (p + 8) = 24" "rd32 m (p + 12) = MB2_CHECKSUM"
    "rd32 m (p + 16) = 0" "rd32 m (p + 20) = 8"
    using w [of 0] w [of 1] w [of 2] w [of 3] w [of 4] w [of 5] by (simp_all add: h word_bytes)
  then show "rd32 m p = 0xE85250D6" "rd32 m (p + 16) = 0" "rd32 m (p + 20) = 8"
    "rd32 m p + rd32 m (p + 4) + rd32 m (p + 8) + rd32 m (p + 12) = 0" by simp_all
  show "rd32 m (p + 8) = of_nat (length multiboot_header)" using r(3) by (simp add: h)
qed

section \<open>Constructors\<close>

definition init_section :: "instr list" where
  "init_section = [Push_reg EBP, Mov_reg_reg EBP ESP] @ [Pop_reg EBP, Ret]"

definition fini_section :: "instr list" where
  "fini_section = [Push_reg EBP, Mov_reg_reg EBP ESP] @ [Pop_reg EBP, Ret]"

lemma init_returns:
  assumes "4 \<le> unat (gpr c ESP)" and "unat (gpr c ESP) + 4 \<le> 4294967296" and "rd32 (c_mem c) (gpr c ESP) = a"
  shows "\<exists>m. exec body return_to fn init_section (c, st) =
      ret (c\<lparr>gpr := (gpr c)(ESP := gpr c ESP + 4), c_mem := m, c_eip := a\<rparr>, st) \<and>
    (\<forall>x. unat (gpr c ESP) \<le> unat x \<longrightarrow> m x = c_mem c x)" and "fini_section = init_section"
proof -
  let ?m = "wr32 (gpr c ESP - 4) (gpr c EBP) (c_mem c)"
  have k: "?m x = c_mem c x" if "unat (gpr c ESP) \<le> unat x" for x by (rule wr32_above [OF assms(1) that])
  have "rd32 ?m (gpr c ESP) = a"
    using rd32_above [of "gpr c ESP" "gpr c ESP" ?m "c_mem c"] k assms(2,3) by simp
  moreover have "(gpr c)(ESP := gpr c ESP - 4, EBP := gpr c EBP, ESP := gpr c ESP + 4) = (gpr c)(ESP := gpr c ESP + 4)"
    by (auto simp: fun_eq_iff)
  ultimately show "\<exists>m. exec body return_to fn init_section (c, st) =
      ret (c\<lparr>gpr := (gpr c)(ESP := gpr c ESP + 4), c_mem := m, c_eip := a\<rparr>, st) \<and>
    (\<forall>x. unat (gpr c ESP) \<le> unat x \<longrightarrow> m x = c_mem c x)"
    using k by (intro exI [of _ ?m]) (simp add: init_section_def run_simps rd32_wr32_same fun_upd_twist)
  show "fini_section = init_section" by (simp add: fini_section_def init_section_def)
qed

section \<open>The registers of the entry\<close>

text \<open>
  A call without arguments. The functions called here follow the convention but for the selectors, which
  \<open>gdt_init\<close> loads.
\<close>

definition call_plain :: "u32 \<Rightarrow> (cpu \<Rightarrow> cpu) \<Rightarrow> cpu \<Rightarrow> cpu" where
  "call_plain return_to body c = snd (pop (body (push return_to c)))"

definition keeps_saved :: "(cpu \<Rightarrow> cpu) \<Rightarrow> bool" where
  "keeps_saved body \<longleftrightarrow> (\<forall>c. \<forall>r \<in> {ESP, EBX, EBP, ESI, EDI}. gpr (body c) r = gpr c r)"

text \<open>
  From \<open>_start\<close> to the \<open>call\<close> of \<open>kernel_main\<close>; the status flags, which nothing reads after the
  comparison, are left alone. \<open>preinit_at\<close> and \<open>high\<close> are the addresses of \<open>vmm_preinit\<close> and
  \<open>higher_half_entry\<close>.
\<close>

definition start_registers ::
  "u32 \<Rightarrow> u32 \<Rightarrow> u32 \<Rightarrow> u32 \<Rightarrow> (cpu \<Rightarrow> cpu) \<Rightarrow> (cpu \<Rightarrow> cpu) list \<Rightarrow> cpu \<Rightarrow> cpu option" where
  "start_registers stack_top preinit_at high return_to preinit calls c =
     (if gpr c EAX \<noteq> MB2_BOOT_MAGIC then None
      else
        let c = set_reg ESI (gpr c EBX) c;
            c = set_reg ESP stack_top c;
            c = set_reg ESP (gpr c ESP - KERNEL_VIRTUAL_BASE) c;
            c = set_reg EAX preinit_at c;
            c = set_reg EAX (gpr c EAX - KERNEL_VIRTUAL_BASE) c;
            c = call_plain return_to preinit c;
            c = set_reg EAX high c;
            c = set_reg ESP stack_top c;
            c = fold (call_plain return_to) calls c
        in Some (push (gpr c ESI) c))"

lemma call_plain_keeps:
  "keeps_saved body \<Longrightarrow> r \<in> {ESP, EBX, EBP, ESI, EDI} \<Longrightarrow> gpr (call_plain return_to body c) r = gpr c r"
  by (auto simp: call_plain_def keeps_saved_def pop_def push_def)

lemma calls_keep:
  "(\<And>f. f \<in> set fs \<Longrightarrow> keeps_saved f) \<Longrightarrow> r \<in> {ESP, EBX, EBP, ESI, EDI} \<Longrightarrow>
   gpr (fold (call_plain return_to) fs c) r = gpr c r"
  by (induction fs arbitrary: c) (auto simp: call_plain_keeps)

text \<open>
  \<open>kernel_main\<close> finds what the loader left in \<open>ebx\<close> as its argument, at the top of the kernel's stack.
\<close>

lemma start_passes_info:
  assumes "gpr c EAX = MB2_BOOT_MAGIC" and "keeps_saved preinit" and "\<And>f. f \<in> set calls \<Longrightarrow> keeps_saved f"
  shows "\<exists>c'. start_registers stack_top preinit_at high return_to preinit calls c = Some c' \<and>
    gpr c' ESP = stack_top - 4 \<and> rd32 (c_mem c') (gpr c' ESP) = gpr c EBX"
proof -
  have "gpr (fold (call_plain return_to) calls x) ESI = gpr x ESI" "gpr (fold (call_plain return_to) calls x) ESP = gpr x ESP" for x
    using calls_keep [OF assms(3)] by simp_all
  then show ?thesis
    using assms(1) call_plain_keeps [OF assms(2)]
    by (simp add: start_registers_def Let_def push_def set_reg_def rd32_wr32_same)
qed

end
