(* ===== verification/Kernel_Entry.thy ===== *)
theory Kernel_Entry
  imports Kernel_Start Kernel_Loop Boot_Code
begin

text \<open>
  \<^verbatim>\<open>kernel/src/arch/x86/boot/boot.s\<close>: from the loader's jump to \<open>_start\<close> up to the echo loop. The
  entry checks the loader's magic number, builds the page tables, loads the descriptor tables, installs
  the page-fault handler and calls \<open>kernel_main\<close> with the address that the loader left in \<open>ebx\<close>.

  \<open>eax\<close> and \<open>ebx\<close> are the registers at the entry; that \<open>ebx\<close> arrives as the argument of \<open>kernel_main\<close>
  is \<open>start_passes_info\<close> of \<open>Boot_Code\<close>.
\<close>

section \<open>The entry\<close>



section \<open>The handlers along the way\<close>






section \<open>Properties\<close>




end
