(* ===== verification/Spec2Isabelle.thy ===== *)
theory Spec2Isabelle
  imports PMM_Props PMM_Double_Free KBuffer KStdio_Props Descriptors Interrupts Keyboard VMM_Props Serial PIT
    Multiboot2_Props KPanic Kernel_Entry
begin

text \<open>
  A verification of the ArkoiOS kernel, a 32-bit x86 kernel in C (all paths are below
  \<^verbatim>\<open>src/kernel\<close>).

  \<^bold>\<open>The program.\<close> The boot loader enters \<^verbatim>\<open>_start\<close>, which turns paging on
  (\<^verbatim>\<open>vmm_preinit\<close>), builds the descriptor tables (\<^verbatim>\<open>gdt_init\<close>, \<^verbatim>\<open>idt_init\<close>) and calls
  \<^verbatim>\<open>kernel_main\<close>. That initialises the serial ports and the console, parses the boot information
  onto the early heap, hands the RAM to the physical memory manager, installs the page-fault handler
  of the virtual memory manager, tests it with a deliberate fault, and then echoes the keyboard. Exceptions and interrupts come in
  through 48 gates and assembly stubs that save the context and call \<^verbatim>\<open>isr_handler\<close> or
  \<^verbatim>\<open>irq_handler\<close>; the keyboard's handler queues events in a cyclic buffer, the main loop takes them out
  and prints them. Panics print and halt.

  \<^bold>\<open>Conventions\<close> (\<^verbatim>\<open>Prelude\<close>). Integers are words of their C width and wrap as in the
  code. Memory that the code reaches through pointers to bytes is a function from addresses to
  bytes; static objects that nothing aliases are records and lists. Fallible code returns
  \<open>'a res\<close>: a value, an error (\<open>KPanic\<close> with the format and arguments of a panic, or \<open>Undefined\<close>
  for a step without meaning in C), or \<open>None\<close> for a loop that never ends. Loops that need not end are
  \<open>partial_function\<close>s, all others are total, so no theorem rests on fuel. Hardware is a parameter:
  \<open>device\<close> gives the byte a port read returns after a trace of accesses, and string literals and
  static buffers have addresses that are parameters.

  \<^bold>\<open>The theories.\<close>
  \<^item> \<^verbatim>\<open>KMemory\<close>, \<^verbatim>\<open>KString\<close>, \<^verbatim>\<open>KIO\<close>: \<^verbatim>\<open>lib/kmemory.c\<close>, \<^verbatim>\<open>lib/kstring.c\<close>,
    \<^verbatim>\<open>lib/kcursor.c\<close>, \<^verbatim>\<open>lib/kio.c\<close>. Copies, fills, alignment, string length, the bounded
    output cursor, port accesses. The copy loop is compared with a reference on all inputs, overlapping
    ones included.
  \<^item> \<^verbatim>\<open>EMM\<close>: \<^verbatim>\<open>lib/memory/emm.c\<close>, the early heap.
  \<^item> \<^verbatim>\<open>Buddy\<close>, \<^verbatim>\<open>PMM\<close>, \<^verbatim>\<open>PMM_Region\<close>, \<^verbatim>\<open>PMM_Correct\<close>, \<^verbatim>\<open>PMM_Props\<close>,
    \<^verbatim>\<open>PMM_Double_Free\<close>: \<^verbatim>\<open>lib/memory/pmm.c\<close>. The buddy system as tilings of a region, the code on its block pools and
    threaded free lists, the refinement between them and the contract \<open>page_allocator\<close> that the
    entry points satisfy: fresh, aligned, disjoint blocks, merging that restores the start. RAM regions
    are numbers of 64 bits in the specification; the code truncates them to 32, so the start is exact for
    RAM below 4 GiB and manages the truncated regions in general. A block at frame 0, whose address is
    NULL, cannot be freed. \<^verbatim>\<open>PMM_Double_Free\<close> follows the double free of a merged block,
    which escapes the check, in every state where a pair merges.
  \<^item> \<^verbatim>\<open>VMM\<close>, \<^verbatim>\<open>VMM_Walk\<close>, \<^verbatim>\<open>VMM_Correct\<close>, \<^verbatim>\<open>VMM_Props\<close>: \<^verbatim>\<open>lib/memory/vmm.c\<close>. Page
    tables as words of physical memory that the code reaches through the very translation it edits,
    with the TLB. Start-up, mapping, unmapping, demand paging with all its failures, TLB coherence.
    A new page table must come from a frame below 4 MiB, which the kernel's window shows; with a higher
    one the manager faults itself. Directory slots 0 and 768 share the identity table: a page there is
    mapped at two addresses, so unmapping it takes away both and leaves the other one's TLB entry. The
    invariant over sequences of operations leaves these unmappings out. The page allocator is used
    through the locale \<open>frame_source\<close>, which is interpreted on \<open>pmm_alloc_pages\<close>.
  \<^item> \<^verbatim>\<open>KBuffer\<close>: \<^verbatim>\<open>lib/kbuffer.c\<close>, the cyclic buffer, and the contract \<open>bounded_queue\<close>.
  \<^item> \<^verbatim>\<open>Scancodes\<close>, \<^verbatim>\<open>Keyboard\<close>: \<^verbatim>\<open>drivers/keyboard.c\<close> and its tables; the driver
    implements an automaton on scan codes in front of a bounded queue.
  \<^item> \<^verbatim>\<open>VGA\<close>: \<^verbatim>\<open>drivers/vga.c\<close>, the console as a scrolling screen.
  \<^item> \<^verbatim>\<open>KStdio\<close>, \<^verbatim>\<open>KStdio_Correct\<close>, \<^verbatim>\<open>KStdio_Props\<close>, \<^verbatim>\<open>KStdio_Print\<close>:
    \<^verbatim>\<open>lib/kstdio.c\<close>. The text a format denotes, as the pieces in which the code writes it, and
    that the functions store exactly the pieces that fit and print them. A missing string shows as NULL.
  \<^item> \<^verbatim>\<open>KPanic\<close>: \<^verbatim>\<open>lib/kpanic.c\<close>, the report of a panic.
  \<^item> \<^verbatim>\<open>Descriptors\<close>, \<^verbatim>\<open>Interrupts\<close>: \<^verbatim>\<open>arch/x86/gdt/gdt.c\<close>, \<^verbatim>\<open>arch/x86/idt/pic.c\<close>,
    \<^verbatim>\<open>arch/x86/idt/idt.c\<close>. Descriptor packing, controller programming, dispatch.
  \<^item> \<^verbatim>\<open>Serial\<close>, \<^verbatim>\<open>PIT\<close>: \<^verbatim>\<open>drivers/serial.c\<close>, \<^verbatim>\<open>drivers/pit.c\<close>. Polling loops that
    end on devices that become ready, and for every interleaving of timer interrupts. The wait of the
    timer is for the number of ticks the code computes, which is less than asked for where its product
    wraps.
  \<^item> \<^verbatim>\<open>Boot_Info\<close>, \<^verbatim>\<open>Multiboot2\<close>, \<^verbatim>\<open>Multiboot2_Props\<close>: \<^verbatim>\<open>arch/x86/boot/multiboot2.c\<close>. What
    tags laid out in memory say, and that the parser arrives at it or panics for want of heap.
  \<^item> \<^verbatim>\<open>KAssert\<close>: \<^verbatim>\<open>lib/kassert.h\<close>, the run-time assertion macros.
  \<^item> \<^verbatim>\<open>PMM_First\<close>: which frames the memory manager hands out first, for the start of the kernel.
  \<^item> \<^verbatim>\<open>Cpu\<close>, \<^verbatim>\<open>Interrupt_Entry\<close>, \<^verbatim>\<open>Boot_Code\<close>: \<^verbatim>\<open>arch/x86/gdt/gdt.s\<close>, \<^verbatim>\<open>arch/x86/idt/idt.s\<close>
    and the files under \<^verbatim>\<open>arch/x86/boot\<close>, on registers, selectors and the stack in byte memory: the table
    loaders and the 48 entry stubs instruction by instruction, the header for the loader, and the way of
    its information pointer from \<open>ebx\<close> to the argument of \<^verbatim>\<open>kernel_main\<close>. A C function called from there is
    the model's function; its compiled code is a parameter of which the calling convention is assumed.
    The interrupted code does not notice: registers, selectors, flags and stack are as they were.
  \<^item> \<^verbatim>\<open>Kernel_Boot\<close>, \<^verbatim>\<open>Kernel_Fault\<close>, \<^verbatim>\<open>Kernel_Main\<close>, \<^verbatim>\<open>Kernel_Start\<close>, \<^verbatim>\<open>Kernel_Loop\<close>,
    \<^verbatim>\<open>Kernel_Entry\<close>: \<^verbatim>\<open>kernel/main.c\<close> and \<^verbatim>\<open>arch/x86/boot/boot.s\<close>, where the components meet.
    \<^verbatim>\<open>Kernel_Boot\<close> goes from the loader's structure to a memory manager that owns exactly the RAM pages,
    for RAM below 4 GiB;
    \<^verbatim>\<open>Kernel_Fault\<close> lets the processor fault, dispatch and retry, and shows that the code that faults
    does not notice; \<^verbatim>\<open>Kernel_Main\<close> is one iteration of the echo loop; \<^verbatim>\<open>Kernel_Start\<close> puts
    \<^verbatim>\<open>kernel_main\<close> together up to the loop. \<^verbatim>\<open>Kernel_Loop\<close> takes the iteration apart into the steps
    of \<^verbatim>\<open>keyboard_get_event\<close> and \<^verbatim>\<open>cyclic_buffer_pop\<close>, down to the bytes of the copy, and lets
    interrupts of every line come in between any two of them through gate, stub and dispatcher: the loop
    refines a specification whose steps are atomic, as long as no interrupt fills the queue during a pop,
    and with a full queue the race between the loop and the handler loses it. A lemma shows that the small
    steps without interrupts are one iteration of \<^verbatim>\<open>Kernel_Main\<close>. \<^verbatim>\<open>Kernel_Entry\<close> goes
    from \<^verbatim>\<open>_start\<close> to a state from which \<^verbatim>\<open>Kernel_Loop\<close> holds.

  \<^bold>\<open>Bounds.\<close> Hypotheses that addresses do not wrap (a buffer, a heap or a structure lies below
  \<open>2\<^sup>3\<^sup>2\<close>) appear where the code relies on them; the witnesses give concrete memories where they hold.
  The start of the kernel assumes RAM regions that leave out its page directory and identity table
  (\<open>kernel_page\<close>), because the code does not reserve them itself, and a first region above page 0 with
  two pages that ends at 4 MiB at the latest (\<open>low_ram\<close>), because the page-fault test takes a table from it.
  The buddy orders run from 0 to 10, the event queue holds 255 events, and the buffer of \<open>kvprintf\<close>
  256 bytes, as in the code.

  \<^bold>\<open>Not modelled.\<close> The linker script and the build files. The linker symbols have no behaviour of
  their own, and \<open>STATIC_ASSERT\<close> acts at compile time. The framebuffer tag of the boot information is
  declared but never read. The compiled code of C functions is a parameter where assembly calls them.
  The kernel's own data, the processor's stack and the physical memory behind the page tables are kept
  apart: the paging theories show that they change no byte outside the paging structures and the frame
  they hand out, the entry theories that nothing above the interrupted stack pointer changes. Interrupts
  are delivered between the steps of the echo loop and, as the gates clear the interrupt flag, not inside
  a handler; during the start, before a handler is installed, they are only acknowledged and are left
  out. Writing a character is one step of the loop, because no handler touches the screen. Accessed and
  dirty bits, which no code reads, are left out.
\<close>

end
